(* ===== verification/Prelude.thy ===== *)
theory Prelude
  imports Main "HOL-Library.Word"
begin

unbundle bit_operations_syntax

text \<open>
  Shared vocabulary of the development: the machine integer types of the Rust sources, reads
  from vectors, panics as values, loops that collect errors, the two loops over a list that
  report a key once, and the bit and byte lemmas that the address and instruction encodings
  rest on.

  \<open>usize\<close> values (vector lengths and indices) are natural numbers: a vector's length never
  reaches the bound of a 64-bit \<open>usize\<close>.  An \<open>as\<close> cast between machine integers is
  \<open>ucast\<close>, and a cast of a length to a narrower type is \<open>of_nat\<close>, so both truncate as the
  code does.
\<close>

section \<open>Machine integers\<close>

type_synonym u8 = "8 word"
type_synonym u16 = "16 word"
type_synonym u32 = "32 word"
type_synonym u64 = "64 word"

text \<open>An \<open>i64\<close> is its two's-complement word; \<open>sint\<close> reads it.\<close>
type_synonym i64 = "64 word"

named_theorems pack_simps \<open>masks as \<open>mask\<close> and other facts that put packed words into bit form\<close>
named_theorems scan_simps \<open>facts about the error-collecting loops\<close>

section \<open>Vectors\<close>

text \<open>\<open>v.get(i)\<close>: a read that answers \<open>None\<close> out of range.\<close>
definition list_get :: "'a list \<Rightarrow> nat \<Rightarrow> 'a option" where
  "list_get xs i = (if i < length xs then Some (xs ! i) else None)"

text \<open>\<open>v.iter().position(p)\<close>: the index of the first element that satisfies \<open>p\<close>.\<close>
fun position :: "('a \<Rightarrow> bool) \<Rightarrow> 'a list \<Rightarrow> nat option" where
  "position p [] = None"
| "position p (x # xs) = (if p x then Some 0 else map_option Suc (position p xs))"

text \<open>\<open>v.iter().find_map(f)\<close>, and the loops that return the first hit.\<close>
fun find_map :: "('a \<Rightarrow> 'b option) \<Rightarrow> 'a list \<Rightarrow> 'b option" where
  "find_map f [] = None"
| "find_map f (x # xs) = (case f x of Some y \<Rightarrow> Some y | None \<Rightarrow> find_map f xs)"

text \<open>\<open>a.or_else(|| b)\<close>.\<close>
definition or_else :: "'a option \<Rightarrow> 'a option \<Rightarrow> 'a option" where
  "or_else a b = (case a of Some x \<Rightarrow> Some x | None \<Rightarrow> b)"

lemma list_get_Some_iff [simp]: "list_get xs i = Some x \<longleftrightarrow> i < length xs \<and> xs ! i = x"
  by (auto simp: list_get_def)

lemma list_get_None_iff [simp]: "list_get xs i = None \<longleftrightarrow> length xs \<le> i"
  by (auto simp: list_get_def)

lemma list_get_in: "i < length xs \<Longrightarrow> list_get xs i = Some (xs ! i)"
  by simp

lemma position_Some_iff:
  "position p xs = Some i \<longleftrightarrow> i < length xs \<and> p (xs ! i) \<and> (\<forall>j<i. \<not> p (xs ! j))"
proof (induction xs arbitrary: i)
  case Nil
  then show ?case by simp
next
  case (Cons x xs)
  then show ?case
    by (cases i) (auto simp: less_Suc_eq_0_disj)
qed

lemma position_None_iff [simp]: "position p xs = None \<longleftrightarrow> (\<forall>x \<in> set xs. \<not> p x)"
  by (induction xs) auto

lemma position_distinct:
  assumes "distinct xs" "i < length xs"
  shows "position (\<lambda>s. s = xs ! i) xs = Some i"
  using assms by (auto simp: position_Some_iff nth_eq_iff_index_eq)

lemma find_map_None_iff [simp]: "find_map f xs = None \<longleftrightarrow> (\<forall>x \<in> set xs. f x = None)"
  by (induction xs) (auto split: option.splits)

lemma find_map_SomeD: "find_map f xs = Some y \<Longrightarrow> \<exists>x \<in> set xs. f x = Some y"
  by (induction xs) (auto split: option.splits)

lemma or_else_simps [simp]:
  "or_else None b = b" "or_else (Some x) b = Some x"
  by (simp_all add: or_else_def)

lemma or_else_None_iff [simp]: "or_else a b = None \<longleftrightarrow> a = None \<and> b = None"
  by (cases a) auto

lemma or_else_SomeD: "or_else a b = Some x \<Longrightarrow> a = Some x \<or> b = Some x"
  by (cases a) auto

section \<open>Panics\<close>

text \<open>A call that may panic returns \<open>Panicked\<close> where the Rust thread would unwind.\<close>
datatype 'a outcome = Returned 'a | Panicked

definition bind_outcome :: "'a outcome \<Rightarrow> ('a \<Rightarrow> 'b outcome) \<Rightarrow> 'b outcome" where
  "bind_outcome m f = (case m of Returned x \<Rightarrow> f x | Panicked \<Rightarrow> Panicked)"

fun traverse_outcome :: "('a \<Rightarrow> 'b outcome) \<Rightarrow> 'a list \<Rightarrow> 'b list outcome" where
  "traverse_outcome f [] = Returned []"
| "traverse_outcome f (x # xs) =
     bind_outcome (f x) (\<lambda>y. bind_outcome (traverse_outcome f xs) (\<lambda>ys. Returned (y # ys)))"

lemma bind_outcome_simps [simp]:
  "bind_outcome (Returned x) f = f x" "bind_outcome Panicked f = Panicked"
  by (simp_all add: bind_outcome_def)

lemma bind_outcome_Returned_iff [simp]:
  "bind_outcome m f = Returned y \<longleftrightarrow> (\<exists>x. m = Returned x \<and> f x = Returned y)"
  by (cases m) auto

lemma bind_outcome_Panicked_iff [simp]:
  "bind_outcome m f = Panicked \<longleftrightarrow> m = Panicked \<or> (\<exists>x. m = Returned x \<and> f x = Panicked)"
  by (cases m) auto

lemma traverse_outcome_Returned_iff:
  "traverse_outcome f xs = Returned ys \<longleftrightarrow> list_all2 (\<lambda>x y. f x = Returned y) xs ys"
  by (induction xs arbitrary: ys) (auto simp: list_all2_Cons1)

lemma traverse_outcome_Panicked_iff:
  "traverse_outcome f xs = Panicked \<longleftrightarrow> (\<exists>x \<in> set xs. f x = Panicked)"
proof (induction xs)
  case Nil
  then show ?case by simp
next
  case (Cons x xs)
  then show ?case
    by (cases "f x"; cases "traverse_outcome f xs") auto
qed

section \<open>Loops that collect errors\<close>

text \<open>\<open>if c { errors.push(e) }\<close> contributes one error or none.\<close>
definition err_if :: "bool \<Rightarrow> 'e \<Rightarrow> 'e list" where
  "err_if c e = (if c then [e] else [])"

text \<open>\<open>for x in xs { .. }\<close> and \<open>for (i, x) in xs.iter().enumerate() { .. }\<close>.\<close>
definition for_each :: "'a list \<Rightarrow> ('a \<Rightarrow> 'e list) \<Rightarrow> 'e list" where
  "for_each xs f = concat (map f xs)"

definition for_enum :: "'a list \<Rightarrow> (nat \<Rightarrow> 'a \<Rightarrow> 'e list) \<Rightarrow> 'e list" where
  "for_enum xs f = concat (map (\<lambda>(i, x). f i x) (enumerate 0 xs))"

lemma err_if_Nil [simp, scan_simps]: "err_if c e = [] \<longleftrightarrow> \<not> c"
  by (simp add: err_if_def)

lemma set_err_if [simp]: "set (err_if c e) = (if c then {e} else {})"
  by (simp add: err_if_def)

lemma for_each_Nil [simp, scan_simps]: "for_each xs f = [] \<longleftrightarrow> (\<forall>x \<in> set xs. f x = [])"
  by (auto simp: for_each_def)

lemma set_for_each [simp]: "set (for_each xs f) = (\<Union>x \<in> set xs. set (f x))"
  by (auto simp: for_each_def)

lemma set_enumerate: "set (enumerate n xs) = {(n + i, xs ! i) | i. i < length xs}"
  by (force simp: in_set_conv_nth nth_enumerate_eq)

lemma set_for_enum [simp]: "set (for_enum xs f) = (\<Union>i \<in> {..<length xs}. set (f i (xs ! i)))"
  by (auto simp: for_enum_def set_enumerate)

lemma for_enum_Nil [simp, scan_simps]:
  "for_enum xs f = [] \<longleftrightarrow> (\<forall>i < length xs. f i (xs ! i) = [])"
  by (auto simp: for_enum_def set_enumerate)

section \<open>Reporting a key once\<close>

text \<open>
  The loop \<open>if checked.insert(key) { .. }\<close> visits the first element of each key;
  the loop \<open>if !seen.insert(key) && reported.insert(key) { .. }\<close> visits the second.
\<close>
fun first_scan :: "('a \<Rightarrow> 'k) \<Rightarrow> 'k set \<Rightarrow> 'a list \<Rightarrow> 'a list" where
  "first_scan key checked [] = []"
| "first_scan key checked (x # xs) =
     (if key x \<in> checked then first_scan key checked xs
      else x # first_scan key (insert (key x) checked) xs)"

fun dup_scan :: "('a \<Rightarrow> 'k) \<Rightarrow> 'k set \<Rightarrow> 'k set \<Rightarrow> 'a list \<Rightarrow> 'a list" where
  "dup_scan key seen reported [] = []"
| "dup_scan key seen reported (x # xs) =
     (if key x \<notin> seen then dup_scan key (insert (key x) seen) reported xs
      else if key x \<notin> reported then x # dup_scan key seen (insert (key x) reported) xs
      else dup_scan key seen reported xs)"

lemma first_scan_subset: "set (first_scan key C xs) \<subseteq> set xs"
  by (induction xs arbitrary: C) auto

lemma first_scan_keys: "key ` set (first_scan key C xs) = key ` set xs - C"
  by (induction xs arbitrary: C) auto

lemma first_scan_distinct: "distinct (map key (first_scan key C xs))"
proof (induction xs arbitrary: C)
  case Nil
  then show ?case by simp
next
  case (Cons x xs)
  have "key x \<notin> key ` set (first_scan key (insert (key x) C) xs)"
    by (simp add: first_scan_keys)
  with Cons show ?case by simp
qed

lemma first_scan_all:
  assumes "\<And>x y. x \<in> set xs \<Longrightarrow> y \<in> set xs \<Longrightarrow> key x = key y \<Longrightarrow> P x \<longleftrightarrow> P y"
  shows "(\<forall>x \<in> set (first_scan key {} xs). P x) \<longleftrightarrow> (\<forall>x \<in> set xs. P x)"
proof
  assume all: "\<forall>x \<in> set (first_scan key {} xs). P x"
  show "\<forall>x \<in> set xs. P x"
  proof
    fix x assume x: "x \<in> set xs"
    then have "key x \<in> key ` set (first_scan key {} xs)"
      by (simp add: first_scan_keys)
    then obtain y where "y \<in> set (first_scan key {} xs)" "key y = key x"
      by (metis imageE)
    with all x assms first_scan_subset show "P x" by (metis subsetD)
  qed
qed (use first_scan_subset in fastforce)

lemma dup_scan_subset: "set (dup_scan key S R xs) \<subseteq> set xs"
  by (induction xs arbitrary: S R) auto

lemma dup_scan_keys:
  "key ` set (dup_scan key S R xs) =
     {k \<in> key ` set xs. k \<notin> R \<and> (k \<in> S \<or> 2 \<le> count_list (map key xs) k)}"
proof (induction xs arbitrary: S R)
  case Nil
  then show ?case by simp
next
  case (Cons x xs)
  have pos: "1 \<le> count_list (map key xs) k \<longleftrightarrow> k \<in> key ` set xs" for k
    by (metis One_nat_def Suc_leI count_list_0_iff count_notin gr0I image_set linorder_not_less
        not_less_eq_eq not_one_le_zero)
  show ?case
    using pos by (auto simp: Cons.IH image_iff)
qed

lemma dup_scan_distinct: "distinct (map key (dup_scan key S R xs))"
proof (induction xs arbitrary: S R)
  case Nil
  then show ?case by simp
next
  case (Cons x xs)
  have "key x \<notin> key ` set (dup_scan key S (insert (key x) R) xs)"
    by (simp add: dup_scan_keys)
  with Cons show ?case by auto
qed

lemma count_list_distinct: "distinct ys \<longleftrightarrow> (\<forall>k \<in> set ys. count_list ys k < 2)"
proof (induction ys)
  case Nil
  then show ?case by simp
next
  case (Cons y ys)
  have "count_list ys y = 0 \<longleftrightarrow> y \<notin> set ys" by (simp add: count_list_0_iff)
  with Cons show ?case by (auto split: if_splits)
qed

lemma dup_scan_Nil [scan_simps]: "dup_scan key {} {} xs = [] \<longleftrightarrow> distinct (map key xs)"
proof -
  have "dup_scan key {} {} xs = [] \<longleftrightarrow> key ` set (dup_scan key {} {} xs) = {}" by simp
  also have "\<dots> \<longleftrightarrow> (\<forall>k \<in> set (map key xs). count_list (map key xs) k < 2)"
    by (auto simp: dup_scan_keys linorder_not_le simp flip: image_set)
  finally show ?thesis by (simp add: count_list_distinct)
qed

end
