(* ===== verification/Rust_Num.thy ===== *)
theory Rust_Num
  imports Prelude
begin

text \<open>
  What the sources use of Rust's integer types: masks and bounds of packed fields,
  little-endian bytes (\<open>to_le_bytes\<close>, \<open>from_le_bytes\<close>), printing (\<open>{}\<close>, \<open>{:08x}\<close>) and
  parsing (\<open>str::parse\<close>, \<open>from_str_radix\<close>), with the round trips between them.
\<close>

section \<open>Masks and fields\<close>

lemma mask_literals [pack_simps]:
  "(0xFF :: 'a::len word) = mask 8" "(0xFFFF :: 'a word) = mask 16"
  "(0x3 :: 'a word) = mask 2" "(1 :: 'a word) = mask (Suc 0)"
  by (simp_all add: mask_eq_exp_minus_1)

text \<open>A value that fits its field survives the cast to the field's width.\<close>
lemma take_bit_word_fits: "unat (w :: 'a::len word) < 2 ^ n \<Longrightarrow> take_bit n w = w"
  by (simp add: word_eq_iff_unsigned [where ?'a = nat] unsigned_take_bit_eq take_bit_nat_eq_self)

lemma take_bit_fits:
  "w < 256 \<Longrightarrow> take_bit 8 (w :: u32) = w"
  "w < 65536 \<Longrightarrow> take_bit 16 (w :: u32) = w"
  by (rule take_bit_word_fits; simp add: word_less_nat_alt)+

lemma ucast_ucast_take_bit:
  "ucast (ucast (w :: u32) :: u8) = (take_bit 8 w :: u32)"
  "ucast (ucast (w :: u32) :: u16) = (take_bit 16 w :: u32)"
  by (rule bit_word_eqI; simp add: bit_simps)+

lemma take_bit_less:
  "take_bit 8 (w :: u32) < 256" "take_bit 16 (w :: u32) < 65536"
  using take_bit_nat_less_exp[of 8 "unat w"] take_bit_nat_less_exp[of 16 "unat w"]
  by (simp_all add: word_less_nat_alt unsigned_take_bit_eq)

section \<open>Little-endian bytes\<close>

definition le_bytes4 :: "u32 \<Rightarrow> u8 list" where
  "le_bytes4 w = [ucast w, ucast (drop_bit 8 w), ucast (drop_bit 16 w), ucast (drop_bit 24 w)]"

definition from_le_bytes4 :: "u8 \<Rightarrow> u8 \<Rightarrow> u8 \<Rightarrow> u8 \<Rightarrow> u32" where
  "from_le_bytes4 b0 b1 b2 b3 =
     ucast b0 OR push_bit 8 (ucast b1) OR push_bit 16 (ucast b2) OR push_bit 24 (ucast b3)"

lemma length_le_bytes4 [simp]: "length (le_bytes4 w) = 4"
  by (simp add: le_bytes4_def)

lemma from_le_bytes4_le [simp]:
  "from_le_bytes4 (ucast w) (ucast (drop_bit 8 w)) (ucast (drop_bit 16 w))
     (ucast (drop_bit 24 w)) = w"
proof (rule bit_word_eqI)
  fix n assume "n < LENGTH(32)"
  then consider "n < 8" | "8 \<le> n" "n < 16" | "16 \<le> n" "n < 24" | "24 \<le> n" "n < 32"
    by fastforce
  then show "bit (from_le_bytes4 (ucast w) (ucast (drop_bit 8 w)) (ucast (drop_bit 16 w))
     (ucast (drop_bit 24 w))) n = bit w n"
    by cases (simp_all add: from_le_bytes4_def bit_simps, linarith+)
qed

lemma bit_u8_ge: "8 \<le> n \<Longrightarrow> \<not> bit (b :: u8) n"
  using bit_imp_le_length[of b n] by auto

lemma le_bytes4_from [simp]: "le_bytes4 (from_le_bytes4 b0 b1 b2 b3) = [b0, b1, b2, b3]"
  by (auto simp: le_bytes4_def from_le_bytes4_def bit_simps bit_u8_ge intro!: bit_word_eqI)

text \<open>The two halves of a 64-bit value in two data words.\<close>
lemma join_halves [simp]:
  "(ucast (ucast (v :: u64) :: u32) :: u64) OR push_bit 32 (ucast (ucast (drop_bit 32 v) :: u32)) = v"
  by (rule bit_word_eqI) (auto simp: bit_simps)

lemma low_half [simp]: "ucast ((ucast (a :: u32) :: u64) OR push_bit 32 (ucast (b :: u32))) = a"
  by (rule bit_word_eqI) (auto simp: bit_simps)

lemma high_half [simp]:
  "ucast (drop_bit 32 ((ucast (a :: u32) :: u64) OR push_bit 32 (ucast (b :: u32)))) = b"
  by (rule bit_word_eqI) (auto simp: bit_simps dest: bit_imp_le_length)

section \<open>Printing integers\<close>

fun digits :: "nat \<Rightarrow> nat \<Rightarrow> nat list" where
  "digits b n = (if b < 2 \<or> n < b then [n] else digits b (n div b) @ [n mod b])"

declare digits.simps [simp del]

text \<open>A digit below 36, lower case as \<open>{:x}\<close> prints it.\<close>
definition digit_char :: "nat \<Rightarrow> char" where
  "digit_char d = char_of (if d < 10 then 48 + d else 87 + d)"

definition fmt_dec :: "nat \<Rightarrow> string" where
  "fmt_dec n = map digit_char (digits 10 n)"

text \<open>\<open>{:08x}\<close> and \<open>{:016x}\<close>: hexadecimal, padded with zeros to a least width.\<close>
definition fmt_hex :: "nat \<Rightarrow> nat \<Rightarrow> string" where
  "fmt_hex width n =
     (let s = map digit_char (digits 16 n) in replicate (width - length s) (CHR ''0'') @ s)"

text \<open>\<open>{:016X}\<close>: upper-case digits.\<close>
definition upper_digit_char :: "nat \<Rightarrow> char" where
  "upper_digit_char d = char_of (if d < 10 then 48 + d else 55 + d)"

definition fmt_hex_upper :: "nat \<Rightarrow> nat \<Rightarrow> string" where
  "fmt_hex_upper width n =
     (let s = map upper_digit_char (digits 16 n) in replicate (width - length s) (CHR ''0'') @ s)"

definition fmt_i64 :: "i64 \<Rightarrow> string" where
  "fmt_i64 w = (if sint w < 0 then ''-'' @ fmt_dec (nat (- sint w)) else fmt_dec (nat (sint w)))"

section \<open>Parsing integers\<close>

text \<open>\<open>std::num::IntErrorKind\<close>.\<close>
datatype int_error = Empty | InvalidDigit | PosOverflow | NegOverflow

text \<open>\<open>char::to_digit\<close>.\<close>
definition to_digit :: "nat \<Rightarrow> char \<Rightarrow> nat option" where
  "to_digit radix c =
     (let n = of_char c :: nat;
          d = (if 48 \<le> n \<and> n \<le> 57 then Some (n - 48)
               else if 97 \<le> n \<and> n \<le> 122 then Some (n - 87)
               else if 65 \<le> n \<and> n \<le> 90 then Some (n - 55) else None)
      in case d of Some k \<Rightarrow> if k < radix then Some k else None | None \<Rightarrow> None)"

text \<open>The accumulating loop of \<open>from_str_radix\<close>, upwards and, for a negative number, downwards.\<close>
fun parse_digits :: "nat \<Rightarrow> nat \<Rightarrow> int_error \<Rightarrow> nat \<Rightarrow> string \<Rightarrow> int_error + nat" where
  "parse_digits radix limit e acc [] = Inr acc"
| "parse_digits radix limit e acc (c # cs) =
     (case to_digit radix c of
        None \<Rightarrow> Inl InvalidDigit
      | Some d \<Rightarrow> if limit < acc * radix + d then Inl e
                  else parse_digits radix limit e (acc * radix + d) cs)"

text \<open>\<open>from_str_radix\<close> of an unsigned type with maximum \<open>limit\<close>.\<close>
definition parse_unsigned :: "nat \<Rightarrow> nat \<Rightarrow> string \<Rightarrow> int_error + nat" where
  "parse_unsigned radix limit s =
     (case s of [] \<Rightarrow> Inl Empty
      | c # cs \<Rightarrow>
          if (c = CHR ''+'' \<or> c = CHR ''-'') \<and> cs = [] then Inl InvalidDigit
          else if c = CHR ''+'' then parse_digits radix limit PosOverflow 0 cs
          else parse_digits radix limit PosOverflow 0 s)"

text \<open>\<open>str::parse::<i64>\<close>.\<close>
definition parse_signed64 :: "string \<Rightarrow> int_error + i64" where
  "parse_signed64 s =
     (case s of [] \<Rightarrow> Inl Empty
      | c # cs \<Rightarrow>
          if (c = CHR ''+'' \<or> c = CHR ''-'') \<and> cs = [] then Inl InvalidDigit
          else if c = CHR ''-'' then
            (case parse_digits 10 (2 ^ 63) NegOverflow 0 cs of
               Inl e \<Rightarrow> Inl e | Inr n \<Rightarrow> Inr (- of_nat n))
          else
            (case parse_digits 10 (2 ^ 63 - 1) PosOverflow 0 (if c = CHR ''+'' then cs else s) of
               Inl e \<Rightarrow> Inl e | Inr n \<Rightarrow> Inr (of_nat n)))"

text \<open>The unsigned parses at their widths.\<close>
definition parse_word :: "nat \<Rightarrow> string \<Rightarrow> int_error + 'a::len word" where
  "parse_word radix s =
     (case parse_unsigned radix (2 ^ LENGTH('a) - 1) s of Inl e \<Rightarrow> Inl e | Inr n \<Rightarrow> Inr (of_nat n))"

section \<open>Printing and parsing are inverse\<close>

definition digits_value :: "nat \<Rightarrow> nat \<Rightarrow> nat list \<Rightarrow> nat" where
  "digits_value b acc ds = foldl (\<lambda>a d. a * b + d) acc ds"

lemma digits_value_simps [simp]:
  "digits_value b acc [] = acc"
  "digits_value b acc (d # ds) = digits_value b (acc * b + d) ds"
  by (simp_all add: digits_value_def)

lemma digits_value_append [simp]:
  "digits_value b acc (ds @ [d]) = digits_value b acc ds * b + d"
  by (simp add: digits_value_def)

lemma digits_value_mono: "0 < b \<Longrightarrow> acc \<le> digits_value b acc ds"
proof (induction ds arbitrary: acc)
  case Nil
  then show ?case by simp
next
  case (Cons d ds)
  have "acc \<le> acc * b + d" using Cons.prems by (simp add: trans_le_add1)
  also have "\<dots> \<le> digits_value b (acc * b + d) ds" using Cons by blast
  finally show ?case by simp
qed

lemma digits_nonempty [simp]: "digits b n \<noteq> []"
  by (subst digits.simps) simp

lemma digits_value_digits: "2 \<le> b \<Longrightarrow> digits_value b 0 (digits b n) = n"
proof (induction b n rule: digits.induct)
  case (1 b n)
  then show ?case
    by (cases "n < b") (auto simp: digits.simps[of b n] mult.commute)
qed

lemma digits_less: "2 \<le> b \<Longrightarrow> d \<in> set (digits b n) \<Longrightarrow> d < b"
proof (induction b n rule: digits.induct)
  case (1 b n)
  then show ?case
    by (cases "n < b") (auto simp: digits.simps[of b n])
qed

lemma digit_char_code: "d < 36 \<Longrightarrow> (of_char (digit_char d) :: nat) = (if d < 10 then 48 + d else 87 + d)"
  by (simp add: digit_char_def)

lemma to_digit_char: "d < radix \<Longrightarrow> radix \<le> 36 \<Longrightarrow> to_digit radix (digit_char d) = Some d"
  by (simp add: to_digit_def digit_char_code)

lemma to_digit_upper: "d < radix \<Longrightarrow> radix \<le> 36 \<Longrightarrow> to_digit radix (upper_digit_char d) = Some d"
  by (simp add: to_digit_def upper_digit_char_def)

lemma parse_digits_map:
  assumes "\<forall>d \<in> set ds. d < radix" "\<And>d. d < radix \<Longrightarrow> to_digit radix (f d) = Some d"
    "digits_value radix acc ds \<le> limit"
  shows "parse_digits radix limit e acc (map f ds) = Inr (digits_value radix acc ds)"
  using assms
proof (induction ds arbitrary: acc)
  case Nil
  then show ?case by simp
next
  case (Cons d ds)
  have "acc * radix + d \<le> digits_value radix (acc * radix + d) ds"
    using Cons.prems(1) by (intro digits_value_mono) auto
  with Cons show ?case by simp
qed

lemmas parse_digits_value = parse_digits_map[where f = digit_char, OF _ to_digit_char]

lemma digit_char_no_sign [simp]:
  "d < 36 \<Longrightarrow> digit_char d \<noteq> CHR ''+''" "d < 36 \<Longrightarrow> digit_char d \<noteq> CHR ''-''"
  by (auto dest!: arg_cong[where f = "of_char :: char \<Rightarrow> nat"] simp: digit_char_code split: if_splits)

lemma parse_unsigned_digits:
  assumes "ds \<noteq> []" "\<forall>d \<in> set ds. d < radix" "radix \<le> 36" "digits_value radix 0 ds \<le> limit"
  shows "parse_unsigned radix limit (map digit_char ds) = Inr (digits_value radix 0 ds)"
proof -
  obtain d ds' where ds: "ds = d # ds'" using assms(1) by (cases ds) auto
  have "d < 36" using assms(2,3) ds by auto
  then show ?thesis
    using parse_digits_value[OF assms(2) _ assms(3,4), of PosOverflow] ds
    by (simp add: parse_unsigned_def)
qed

lemma parse_unsigned_dec [simp]: "n \<le> limit \<Longrightarrow> parse_unsigned 10 limit (fmt_dec n) = Inr n"
  using parse_unsigned_digits[of "digits 10 n" 10 limit] digits_less[of 10 _ n]
  by (simp add: fmt_dec_def digits_value_digits)

lemma digits_value_zeros: "digits_value b 0 (replicate k 0 @ ds) = digits_value b 0 ds"
  by (induction k) auto

lemma fmt_hex_digits: "fmt_hex w n = map digit_char (replicate (w - length (digits 16 n)) 0 @ digits 16 n)"
proof -
  have "digit_char 0 = CHR ''0''" by code_simp
  then show ?thesis by (simp add: fmt_hex_def Let_def)
qed

lemma parse_unsigned_hex [simp]: "n \<le> limit \<Longrightarrow> parse_unsigned 16 limit (fmt_hex w n) = Inr n"
  unfolding fmt_hex_digits using digits_less[of 16 _ n]
  by (subst parse_unsigned_digits) (auto simp: digits_value_zeros digits_value_digits)

lemma unat_max: "unat (w :: 'a::len word) \<le> 2 ^ LENGTH('a) - 1"
  using unsigned_less[of w, where ?'a = nat] by linarith

lemma parse_word_dec [simp]: "parse_word 10 (fmt_dec (unat w)) = Inr (w :: 'a::len word)"
  unfolding parse_word_def by (subst parse_unsigned_dec[OF unat_max]) simp

lemma parse_word_hex [simp]: "parse_word 16 (fmt_hex k (unat w)) = Inr (w :: 'a::len word)"
  unfolding parse_word_def by (subst parse_unsigned_hex[OF unat_max]) simp

lemma fmt_dec_hd: "\<exists>d cs. fmt_dec n = digit_char d # cs \<and> d < 10"
proof -
  obtain d ds where "digits 10 n = d # ds" by (cases "digits 10 n") auto
  then show ?thesis using digits_less[of 10 d n] by (auto simp: fmt_dec_def)
qed

lemma parse_digits_dec: "n \<le> limit \<Longrightarrow> parse_digits 10 limit e 0 (fmt_dec n) = Inr n"
  using parse_digits_value[of "digits 10 n" 10 0 limit e] digits_less[of 10 _ n]
  by (simp add: fmt_dec_def digits_value_digits)

lemma fmt_dec_nonempty [simp]: "fmt_dec n \<noteq> []"
  by (simp add: fmt_dec_def)

lemma parse_signed64_fmt [simp]: "parse_signed64 (fmt_i64 w) = Inr w"
proof (cases "sint w < 0")
  case True
  have "- (2 ^ 63) \<le> sint w" using sint_ge[of w] by simp
  then have "nat (- sint w) \<le> 2 ^ 63" by simp
  then have "parse_signed64 (fmt_i64 w) = Inr (- of_nat (nat (- sint w)))"
    using True by (simp add: parse_signed64_def fmt_i64_def parse_digits_dec)
  also have "- of_nat (nat (- sint w)) = w"
    using True by (simp add: of_nat_nat)
  finally show ?thesis .
next
  case False
  have "sint w < 2 ^ 63" using sint_lt[of w] by simp
  then have le: "nat (sint w) \<le> 2 ^ 63 - 1" using False by simp
  obtain d cs where "fmt_dec (nat (sint w)) = digit_char d # cs" "d < 10"
    using fmt_dec_hd by blast
  then have "parse_signed64 (fmt_i64 w) = Inr (of_nat (nat (sint w)))"
    using False parse_digits_dec[OF le, of PosOverflow] by (simp add: parse_signed64_def fmt_i64_def)
  also have "of_nat (nat (sint w)) = w"
    using False by (simp add: of_nat_nat)
  finally show ?thesis .
qed

text \<open>Printed numbers are made of letters and digits only.\<close>
definition alnum :: "char \<Rightarrow> bool" where
  "alnum c \<longleftrightarrow> (let n = of_char c :: nat in 48 \<le> n \<and> n \<le> 57 \<or> 97 \<le> n \<and> n \<le> 122)"

lemma digit_char_alnum: "d < 36 \<Longrightarrow> alnum (digit_char d)"
  by (simp add: alnum_def Let_def digit_char_code)

lemma digits_alnum: "2 \<le> b \<Longrightarrow> b \<le> 36 \<Longrightarrow> c \<in> set (map digit_char (digits b n)) \<Longrightarrow> alnum c"
proof -
  assume b: "2 \<le> b" "b \<le> 36" "c \<in> set (map digit_char (digits b n))"
  then obtain d where "d \<in> set (digits b n)" "c = digit_char d" by auto
  with b digits_less[of b d n] show ?thesis by (simp add: digit_char_alnum)
qed

lemma fmt_dec_alnum: "c \<in> set (fmt_dec n) \<Longrightarrow> alnum c"
  unfolding fmt_dec_def by (rule digits_alnum[of 10]) simp_all

lemma fmt_hex_alnum: "c \<in> set (fmt_hex k n) \<Longrightarrow> alnum c"
  using digits_alnum[of 16 c n]
  by (auto simp: fmt_hex_def Let_def alnum_def split: if_splits)

lemma fmt_hex_nonempty [simp]: "fmt_hex k n \<noteq> []"
  by (simp add: fmt_hex_digits)

text \<open>The upper-case form, and its width.\<close>
lemma length_digits: "2 \<le> b \<Longrightarrow> n < b ^ k \<Longrightarrow> 0 < k \<Longrightarrow> length (digits b n) \<le> k"
proof (induction b n arbitrary: k rule: digits.induct)
  case (1 b n)
  show ?case
  proof (cases "n < b")
    case True
    then show ?thesis using 1 by (simp add: digits.simps[of b n])
  next
    case False
    then obtain j where k: "k = Suc j" "0 < j"
      using 1 by (cases k; cases "k - 1") auto
    have "n div b < b ^ j" using 1(3) k by (simp add: less_mult_imp_div_less mult.commute)
    then have "length (digits b (n div b)) \<le> j" using 1 False k by simp
    with False 1(2) k show ?thesis by (simp add: digits.simps[of b n])
  qed
qed

lemma fmt_hex_upper_digits:
  "fmt_hex_upper w n = map upper_digit_char (replicate (w - length (digits 16 n)) 0 @ digits 16 n)"
proof -
  have "upper_digit_char 0 = CHR ''0''" by code_simp
  then show ?thesis by (simp add: fmt_hex_upper_def Let_def)
qed

lemma length_fmt_hex_upper: "n < 16 ^ w \<Longrightarrow> 0 < w \<Longrightarrow> length (fmt_hex_upper w n) = w"
  using length_digits[of 16 n w] by (simp add: fmt_hex_upper_digits)

lemma upper_digit_char_no_sign:
  "d < 36 \<Longrightarrow> upper_digit_char d \<noteq> CHR ''+'' \<and> upper_digit_char d \<noteq> CHR ''-''"
  by (auto dest!: arg_cong[where f = "of_char :: char \<Rightarrow> nat"] simp: upper_digit_char_def split: if_splits)

lemma parse_unsigned_upper:
  assumes "n \<le> limit"
  shows "parse_unsigned 16 limit (fmt_hex_upper w n) = Inr n"
proof -
  define ds where "ds = replicate (w - length (digits 16 n)) 0 @ digits 16 n"
  have small: "\<forall>d \<in> set ds. d < 16" using digits_less[of 16 _ n] by (auto simp: ds_def)
  have val: "digits_value 16 0 ds = n" by (simp add: ds_def digits_value_zeros digits_value_digits)
  have "ds \<noteq> []" by (simp add: ds_def)
  then obtain d ds' where d: "ds = d # ds'" by (cases ds) auto
  have "parse_digits 16 limit PosOverflow 0 (map upper_digit_char ds) = Inr n"
    using parse_digits_map[OF small to_digit_upper, where acc = 0 and limit = limit] assms val by simp
  moreover have "d < 36" using small d by auto
  ultimately show ?thesis
    using d upper_digit_char_no_sign[of d]
    by (simp add: fmt_hex_upper_digits parse_unsigned_def flip: ds_def)
qed

lemma parse_word_upper [simp]: "parse_word 16 (fmt_hex_upper k (unat w)) = Inr (w :: 'a::len word)"
  unfolding parse_word_def by (subst parse_unsigned_upper[OF unat_max]) simp

end
