(* ===== verification/Addr.thy ===== *)
theory Addr
  imports Rust_Num
begin

text \<open>
  Device addresses and their bit-packed forms: \<open>arch/addr.rs\<close>.  \<open>LaneAddr::decode\<close>
  panics on the unused move-type code 3, so its model returns an \<open>outcome\<close>.  The locale
  \<open>packed_codec\<close> states what a client of a packed form relies on (decoding an encoding
  truncates each field to its width); it is interpreted on the three address types.
\<close>

section \<open>References and addresses\<close>

datatype site_ref = SiteRef (site_ref_index: u16)

datatype word_ref = WordRef (word_ref_index: u16)

record zoned_word_ref =
  zwr_zone_id :: u8
  zwr_word_id :: u16

datatype direction = Forward | Backward

datatype move_type = SiteBus | WordBus | ZoneBus

record location_addr =
  loc_zone_id :: u32
  loc_word_id :: u32
  loc_site_id :: u32

record lane_addr =
  lane_direction :: direction
  lane_move_type :: move_type
  lane_zone_id :: u32
  lane_word_id :: u32
  lane_site_id :: u32
  lane_bus_id :: u32

record zone_addr =
  za_zone_id :: u32

section \<open>Packing\<close>

definition location_encode :: "location_addr \<Rightarrow> u64" where
  "location_encode l =
     push_bit 56 (ucast (ucast (loc_zone_id l) :: u8))
     OR push_bit 40 (ucast (ucast (loc_word_id l) :: u16))
     OR push_bit 24 (ucast (ucast (loc_site_id l) :: u16))"

definition location_decode :: "u64 \<Rightarrow> location_addr" where
  "location_decode bits =
     \<lparr>loc_zone_id = ucast (drop_bit 56 bits AND 0xFF),
      loc_word_id = ucast (drop_bit 40 bits AND 0xFFFF),
      loc_site_id = ucast (drop_bit 24 bits AND 0xFFFF)\<rparr>"

definition direction_bits :: "direction \<Rightarrow> u32" where
  "direction_bits d = (case d of Forward \<Rightarrow> 0 | Backward \<Rightarrow> 1)"

definition move_type_bits :: "move_type \<Rightarrow> u32" where
  "move_type_bits m = (case m of SiteBus \<Rightarrow> 0 | WordBus \<Rightarrow> 1 | ZoneBus \<Rightarrow> 2)"

definition lane_encode :: "lane_addr \<Rightarrow> u32 \<times> u32" where
  "lane_encode l =
     (push_bit 16 (ucast (ucast (lane_word_id l) :: u16)) OR ucast (ucast (lane_site_id l) :: u16),
      push_bit 31 (direction_bits (lane_direction l))
      OR push_bit 29 (move_type_bits (lane_move_type l))
      OR push_bit 21 (ucast (ucast (lane_zone_id l) :: u8))
      OR ucast (ucast (lane_bus_id l) :: u16))"

definition lane_encode_u64 :: "lane_addr \<Rightarrow> u64" where
  "lane_encode_u64 l = (let (d0, d1) = lane_encode l in ucast d0 OR push_bit 32 (ucast d1))"

definition lane_decode :: "u32 \<Rightarrow> u32 \<Rightarrow> lane_addr outcome" where
  "lane_decode data0 data1 =
     (let direction = (if drop_bit 31 data1 AND 1 = 0 then Forward else Backward);
          mt_bits = drop_bit 29 data1 AND 0x3;
          fields = (\<lambda>mt. \<lparr>lane_direction = direction, lane_move_type = mt,
             lane_zone_id = drop_bit 21 data1 AND 0xFF,
             lane_word_id = drop_bit 16 data0 AND 0xFFFF,
             lane_site_id = data0 AND 0xFFFF,
             lane_bus_id = data1 AND 0xFFFF\<rparr>)
      in if mt_bits = 0 then Returned (fields SiteBus)
         else if mt_bits = 1 then Returned (fields WordBus)
         else if mt_bits = 2 then Returned (fields ZoneBus)
         else Panicked)"

definition lane_decode_u64 :: "u64 \<Rightarrow> lane_addr outcome" where
  "lane_decode_u64 bits = lane_decode (ucast bits) (ucast (drop_bit 32 bits))"

definition zone_encode :: "zone_addr \<Rightarrow> u32" where
  "zone_encode z = ucast (ucast (za_zone_id z) :: u8)"

definition zone_decode :: "u32 \<Rightarrow> zone_addr" where
  "zone_decode bits = \<lparr>za_zone_id = bits AND 0xFF\<rparr>"

section \<open>The contract of a packed form\<close>

locale packed_codec =
  fixes enc :: "'a \<Rightarrow> 'b"
    and dec :: "'b \<Rightarrow> 'a outcome"
    and norm :: "'a \<Rightarrow> 'a"
    and fits :: "'a \<Rightarrow> bool"
  assumes dec_enc: "dec (enc x) = Returned (norm x)"
    and norm_fits: "fits x \<Longrightarrow> norm x = x"
    and dec_fits: "dec b = Returned x \<Longrightarrow> fits x"
begin

lemma roundtrip: "fits x \<Longrightarrow> dec (enc x) = Returned x"
  by (simp add: dec_enc norm_fits)

lemma fits_norm: "fits (norm x)"
  using dec_enc by (rule dec_fits)

lemma fits_iff_norm: "fits x \<longleftrightarrow> norm x = x"
  using fits_norm[of x] norm_fits[of x] by auto

lemma enc_norm_eq: "enc x = enc y \<Longrightarrow> norm x = norm y"
  using dec_enc[of x] dec_enc[of y] by simp

lemma enc_inj: "inj_on enc {x. fits x}"
  by (rule inj_onI) (metis enc_norm_eq mem_Collect_eq norm_fits)

lemma enc_eq_iff: "fits x \<Longrightarrow> fits y \<Longrightarrow> enc x = enc y \<longleftrightarrow> x = y"
  using enc_inj by (auto simp: inj_on_def)

lemma distinct_enc: "\<forall>x \<in> set xs. fits x \<Longrightarrow> distinct (map enc xs) \<longleftrightarrow> distinct xs"
  using enc_inj by (auto simp: distinct_map inj_on_def)

end

section \<open>The three address types keep it\<close>

definition loc_fits :: "location_addr \<Rightarrow> bool" where
  "loc_fits l \<longleftrightarrow> loc_zone_id l < 256 \<and> loc_word_id l < 65536 \<and> loc_site_id l < 65536"

definition loc_norm :: "location_addr \<Rightarrow> location_addr" where
  "loc_norm l = \<lparr>loc_zone_id = take_bit 8 (loc_zone_id l),
     loc_word_id = take_bit 16 (loc_word_id l), loc_site_id = take_bit 16 (loc_site_id l)\<rparr>"

definition lane_fits :: "lane_addr \<Rightarrow> bool" where
  "lane_fits l \<longleftrightarrow> lane_zone_id l < 256 \<and> lane_word_id l < 65536
     \<and> lane_site_id l < 65536 \<and> lane_bus_id l < 65536"

definition lane_norm :: "lane_addr \<Rightarrow> lane_addr" where
  "lane_norm l = l\<lparr>lane_zone_id := take_bit 8 (lane_zone_id l),
     lane_word_id := take_bit 16 (lane_word_id l), lane_site_id := take_bit 16 (lane_site_id l),
     lane_bus_id := take_bit 16 (lane_bus_id l)\<rparr>"

lemma location_decode_encode: "location_decode (location_encode l) = loc_norm l"
  unfolding location_encode_def location_decode_def loc_norm_def pack_simps
  by (auto intro!: bit_word_eqI simp: bit_simps)

lemma take_bit_u64_less:
  "(ucast (take_bit 8 (b :: u64)) :: u32) < 256" "(ucast (take_bit 16 b) :: u32) < 65536"
proof -
  have "ucast (take_bit n b) = take_bit n (ucast b :: u32)" for n
    by (rule bit_word_eqI) (auto simp: bit_simps)
  then show "(ucast (take_bit 8 b) :: u32) < 256" "(ucast (take_bit 16 b) :: u32) < 65536"
    by (simp_all add: take_bit_less)
qed

lemma location_decode_fits: "loc_fits (location_decode bits)"
  unfolding location_decode_def loc_fits_def pack_simps
  by (simp add: take_bit_u64_less flip: take_bit_eq_mask)

interpretation loc_codec: packed_codec location_encode "\<lambda>b. Returned (location_decode b)" loc_norm loc_fits
proof
  show "loc_fits x \<Longrightarrow> loc_norm x = x" for x
    by (simp add: loc_norm_def loc_fits_def take_bit_fits)
qed (auto simp: location_decode_encode location_decode_fits)

text \<open>Decoding and encoding again clears the 24 padding bits and keeps the rest.\<close>
lemma location_encode_decode: "location_encode (location_decode bits) = push_bit 24 (drop_bit 24 bits)"
  unfolding location_encode_def location_decode_def pack_simps
proof (rule bit_word_eqI, goal_cases)
  case (1 n)
  then consider "n < 24" | "24 \<le> n" "n < 40" | "40 \<le> n" "n < 56" | "56 \<le> n" "n < 64" by fastforce
  then show ?case by cases (simp_all add: bit_simps, linarith+)
qed

lemma bit_direction_bits [bit_simps]: "bit (direction_bits d) n \<longleftrightarrow> n = 0 \<and> d = Backward"
  by (cases d) (auto simp: direction_bits_def bit_1_iff)

lemma bit_two_u32: "bit (2 :: u32) n \<longleftrightarrow> n = 1"
proof -
  have "bit (2 ^ 1 :: u32) n \<longleftrightarrow> n = 1" unfolding bit_exp_iff by auto
  then show ?thesis by (simp only: power_one_right)
qed

lemma bit_move_type_bits [bit_simps]:
  "bit (move_type_bits m) n \<longleftrightarrow> n = 0 \<and> m = WordBus \<or> n = 1 \<and> m = ZoneBus"
  unfolding move_type_bits_def
  by (cases m; simp only: move_type.case bit_two_u32 bit_1_iff bit_0_eq) auto

lemma lane_d0_fields:
  "drop_bit 16 (fst (lane_encode l)) AND 0xFFFF = take_bit 16 (lane_word_id l)"
  "fst (lane_encode l) AND 0xFFFF = take_bit 16 (lane_site_id l)"
  unfolding lane_encode_def fst_conv pack_simps
  by (auto intro!: bit_word_eqI simp: bit_simps)

lemma lane_d1_zone: "drop_bit 21 (snd (lane_encode l)) AND 0xFF = take_bit 8 (lane_zone_id l)"
  unfolding lane_encode_def snd_conv pack_simps
  by (rule bit_word_eqI) (auto simp: bit_simps)

lemma lane_d1_bus: "snd (lane_encode l) AND 0xFFFF = take_bit 16 (lane_bus_id l)"
  unfolding lane_encode_def snd_conv pack_simps
  by (rule bit_word_eqI) (auto simp: bit_simps)

lemma lane_d1_move_type: "drop_bit 29 (snd (lane_encode l)) AND 0x3 = move_type_bits (lane_move_type l)"
  unfolding lane_encode_def snd_conv pack_simps
  by (rule bit_word_eqI) (auto simp: bit_simps)

lemma lane_d1_direction:
  "drop_bit 31 (snd (lane_encode l)) AND 1 = direction_bits (lane_direction l)"
  unfolding lane_encode_def snd_conv pack_simps
  by (rule bit_word_eqI) (auto simp: bit_simps)

lemmas lane_fields = lane_d0_fields lane_d1_zone lane_d1_bus lane_d1_move_type lane_d1_direction

lemma lane_decode_encode:
  "lane_decode (fst (lane_encode l)) (snd (lane_encode l)) = Returned (lane_norm l)"
  unfolding lane_decode_def lane_fields Let_def
  by (cases "lane_direction l"; cases "lane_move_type l")
    (simp_all add: lane_norm_def move_type_bits_def direction_bits_def)

lemma take_bit_u32_mask:
  "w AND 0xFF = take_bit 8 (w :: u32)" "w AND 0xFFFF = take_bit 16 (w :: u32)"
  unfolding pack_simps by (simp_all add: take_bit_eq_mask)

lemma lane_decode_fits: "lane_decode d0 d1 = Returned l \<Longrightarrow> lane_fits l"
  unfolding lane_decode_def Let_def take_bit_u32_mask
  by (auto simp: lane_fits_def take_bit_less split: if_splits)

lemma u32_of_unat: "unat (v :: u32) = 0 \<Longrightarrow> v = 0" "unat v = 1 \<Longrightarrow> v = 1"
  "unat v = 2 \<Longrightarrow> v = 2" "unat v = 3 \<Longrightarrow> v = 3"
  by (auto intro: unsigned_word_eqI [where ?'a = nat])

lemma two_bits_cases: "(w :: u32) AND 0x3 \<in> {0, 1, 2, 3}"
proof -
  have "unat (take_bit 2 w) < 4"
    using take_bit_nat_less_exp[of 2 "unat w"] by (simp add: unsigned_take_bit_eq)
  then consider "unat (take_bit 2 w) = 0" | "unat (take_bit 2 w) = 1"
    | "unat (take_bit 2 w) = 2" | "unat (take_bit 2 w) = 3" by linarith
  then have "take_bit 2 w \<in> {0, 1, 2, 3}"
    by cases (drule u32_of_unat, blast)+
  then show ?thesis
    unfolding take_bit_eq_mask mask_literals(3) .
qed

lemma lane_decode_Panicked_iff: "lane_decode d0 d1 = Panicked \<longleftrightarrow> drop_bit 29 d1 AND 0x3 = 3"
  using two_bits_cases[of "drop_bit 29 d1"] by (auto simp: lane_decode_def Let_def)

interpretation lane_codec: packed_codec lane_encode "\<lambda>(d0, d1). lane_decode d0 d1" lane_norm lane_fits
proof
  show "(case lane_encode l of (d0, d1) \<Rightarrow> lane_decode d0 d1) = Returned (lane_norm l)" for l
    using lane_decode_encode[of l] by (simp add: case_prod_unfold)
  show "lane_fits l \<Longrightarrow> lane_norm l = l" for l
    by (simp add: lane_norm_def lane_fits_def take_bit_fits)
qed (auto dest: lane_decode_fits)

lemma lane_decode_u64_encode: "lane_decode_u64 (lane_encode_u64 l) = Returned (lane_norm l)"
  unfolding lane_decode_u64_def lane_encode_u64_def case_prod_unfold Let_def low_half high_half
  by (rule lane_decode_encode)

interpretation lane_u64_codec: packed_codec lane_encode_u64 lane_decode_u64 lane_norm lane_fits
proof
  show "lane_decode_u64 (lane_encode_u64 l) = Returned (lane_norm l)" for l
    by (rule lane_decode_u64_encode)
  show "lane_fits l \<Longrightarrow> lane_norm l = l" for l by (rule lane_codec.norm_fits)
  show "lane_decode_u64 b = Returned l \<Longrightarrow> lane_fits l" for b l
    by (simp add: lane_decode_u64_def lane_decode_fits)
qed

interpretation zone_codec: packed_codec zone_encode "\<lambda>b. Returned (zone_decode b)"
  "\<lambda>z. \<lparr>za_zone_id = take_bit 8 (za_zone_id z)\<rparr>" "\<lambda>z. za_zone_id z < 256"
  by unfold_locales
    (auto simp: zone_encode_def zone_decode_def ucast_ucast_take_bit take_bit_u32_mask
      take_bit_fits take_bit_less)

section \<open>Properties\<close>

text \<open>A location address whose fields fit their widths (8, 16 and 16 bits) is recovered from
  its 64-bit form, and two such addresses have the same form only when they are equal: the
  form is a sound key for the duplicate checks and the search configurations.\<close>
theorem location_encode_faithful:
  assumes "loc_fits l"
  shows "location_decode (location_encode l) = l
    \<and> (\<forall>l'. loc_fits l' \<longrightarrow> location_encode l' = location_encode l \<longrightarrow> l' = l)"
  using assms loc_codec.roundtrip[OF assms] loc_codec.enc_eq_iff by auto

theorem location_encode_faithful_witness:
  "location_decode (location_encode \<lparr>loc_zone_id = 5, loc_word_id = 0x1234, loc_site_id = 0x5678\<rparr>)
     = \<lparr>loc_zone_id = 5, loc_word_id = 0x1234, loc_site_id = 0x5678\<rparr>"
  using location_encode_faithful[of "\<lparr>loc_zone_id = 5, loc_word_id = 0x1234, loc_site_id = 0x5678\<rparr>"]
  by (simp add: loc_fits_def)

text \<open>Decoding the two data words of a lane address returns it with every field cut to its
  width, so a lane address whose fields fit is recovered; and decoding two arbitrary words
  panics exactly when the two move-type bits are both set.\<close>
theorem lane_decode_spec:
  "lane_decode (fst (lane_encode l)) (snd (lane_encode l)) = Returned (lane_norm l)
   \<and> (lane_fits l \<longleftrightarrow> lane_norm l = l)
   \<and> (lane_decode d0 d1 = Panicked \<longleftrightarrow> drop_bit 29 d1 AND 0x3 = 3)"
  using lane_decode_encode lane_codec.fits_iff_norm lane_decode_Panicked_iff by blast

end
