(* ===== verification/Rust_Str.thy ===== *)
theory Rust_Str
  imports Rust_Num
begin

text \<open>
  The string functions the sources use, over byte strings: \<open>find\<close>, \<open>strip_prefix\<close>,
  \<open>split_once\<close>, \<open>lines\<close>, \<open>trim\<close> and \<open>split_whitespace\<close>.  White space is the
  ASCII part of Unicode's \<open>White_Space\<close>; the wider characters of it do not occur in what the
  printers emit and are not modelled.
\<close>

definition is_whitespace :: "char \<Rightarrow> bool" where
  "is_whitespace c \<longleftrightarrow> (let n = of_char c :: nat in 9 \<le> n \<and> n \<le> 13 \<or> n = 32)"

text \<open>\<open>match raw_line.find(c) { Some(pos) => &raw_line[..pos], None => raw_line }\<close>.\<close>
definition before_char :: "char \<Rightarrow> string \<Rightarrow> string" where
  "before_char c s = takeWhile (\<lambda>d. d \<noteq> c) s"

fun strip_prefix :: "string \<Rightarrow> string \<Rightarrow> string option" where
  "strip_prefix [] s = Some s"
| "strip_prefix (p # ps) [] = None"
| "strip_prefix (p # ps) (c # cs) = (if p = c then strip_prefix ps cs else None)"

definition split_once :: "char \<Rightarrow> string \<Rightarrow> (string \<times> string) option" where
  "split_once c s =
     (case dropWhile (\<lambda>d. d \<noteq> c) s of
        [] \<Rightarrow> None | _ # rest \<Rightarrow> Some (takeWhile (\<lambda>d. d \<noteq> c) s, rest))"

definition strip_cr :: "string \<Rightarrow> string" where
  "strip_cr s = (if s \<noteq> [] \<and> last s = char_of (13 :: nat) then butlast s else s)"

definition newline :: char where "newline = char_of (10 :: nat)"

text \<open>\<open>str::lines\<close>, reading the text once with the current line reversed.\<close>
fun lines_from :: "string \<Rightarrow> string \<Rightarrow> string list" where
  "lines_from cur [] = (if cur = [] then [] else [rev cur])"
| "lines_from cur (c # cs) =
     (if c = newline then strip_cr (rev cur) # lines_from [] cs else lines_from (c # cur) cs)"

definition lines :: "string \<Rightarrow> string list" where
  "lines s = lines_from [] s"

definition trim :: "string \<Rightarrow> string" where
  "trim s = rev (dropWhile is_whitespace (rev (dropWhile is_whitespace s)))"

fun split_whitespace_from :: "string \<Rightarrow> string \<Rightarrow> string list" where
  "split_whitespace_from cur [] = (if cur = [] then [] else [rev cur])"
| "split_whitespace_from cur (c # cs) =
     (if is_whitespace c then
        (if cur = [] then split_whitespace_from [] cs else rev cur # split_whitespace_from [] cs)
      else split_whitespace_from (c # cur) cs)"

definition split_whitespace :: "string \<Rightarrow> string list" where
  "split_whitespace s = split_whitespace_from [] s"

section \<open>Laws\<close>

text \<open>A token: a non-empty string without white space or comment sign.\<close>
definition token :: "string \<Rightarrow> bool" where
  "token s \<longleftrightarrow> s \<noteq> [] \<and> (\<forall>c \<in> set s. \<not> is_whitespace c \<and> c \<noteq> CHR '';'')"

lemma newline_ws [simp]: "is_whitespace newline"
  by code_simp

lemma space_ws [simp]: "is_whitespace (CHR '' '')"
  by code_simp

lemma cr_ws [simp]: "is_whitespace (char_of (13 :: nat))"
  by code_simp

lemma newline_semi [simp]: "newline \<noteq> CHR '';''"
  by code_simp

lemma alnum_token: "alnum c \<Longrightarrow> \<not> is_whitespace c \<and> c \<noteq> CHR '';'' \<and> c \<noteq> CHR ''.''"
  by (auto simp: alnum_def is_whitespace_def Let_def)

lemma strip_prefix_append [simp]: "strip_prefix p (p @ s) = Some s"
  by (induction p) auto

lemma strip_prefix_SomeD: "strip_prefix p s = Some r \<Longrightarrow> s = p @ r"
  by (induction p s rule: strip_prefix.induct) (auto split: if_splits)

lemma split_once_append: "c \<notin> set a \<Longrightarrow> split_once c (a @ c # b) = Some (a, b)"
  by (induction a) (auto simp: split_once_def split: list.splits if_splits)

lemma before_char_id: "c \<notin> set s \<Longrightarrow> before_char c s = s"
  by (simp add: before_char_def takeWhile_eq_all_conv) blast

lemma strip_cr_id: "(\<And>c. c \<in> set s \<Longrightarrow> c \<noteq> char_of (13 :: nat)) \<Longrightarrow> strip_cr s = s"
  by (auto simp: strip_cr_def)

lemma lines_from_line:
  "newline \<notin> set l \<Longrightarrow>
     lines_from cur (l @ newline # rest) = strip_cr (rev cur @ l) # lines_from [] rest"
  by (induction l arbitrary: cur) auto

lemma lines_line:
  assumes "newline \<notin> set l" "char_of (13 :: nat) \<notin> set l"
  shows "lines (l @ newline # rest) = l # lines rest"
  using assms by (auto simp: lines_def lines_from_line intro!: strip_cr_id)

lemma lines_Nil [simp]: "lines [] = []"
  by (simp add: lines_def)

lemma trim_id:
  assumes "s \<noteq> []" "\<not> is_whitespace (hd s)" "\<not> is_whitespace (last s)"
  shows "trim s = s"
proof -
  have "dropWhile is_whitespace s = s" using assms(1,2) by (cases s) auto
  moreover have "dropWhile is_whitespace (rev s) = rev s"
    using assms(1,3) by (cases s rule: rev_cases) auto
  ultimately show ?thesis by (simp add: trim_def)
qed

lemma split_whitespace_from_word:
  "\<forall>c \<in> set t. \<not> is_whitespace c \<Longrightarrow>
     split_whitespace_from cur (t @ rest) = split_whitespace_from (rev t @ cur) rest"
  by (induction t arbitrary: cur) auto

lemma split_whitespace_token: "token t \<Longrightarrow> split_whitespace t = [t]"
  using split_whitespace_from_word[of t "[]" "[]"] by (auto simp: split_whitespace_def token_def)

lemma split_whitespace_cons:
  "token t \<Longrightarrow> split_whitespace (t @ CHR '' '' # rest) = t # split_whitespace rest"
  by (auto simp: split_whitespace_def token_def split_whitespace_from_word)

text \<open>Tokens joined by single blanks: how the printer lays a line out.\<close>
fun unwords :: "string list \<Rightarrow> string" where
  "unwords [] = []"
| "unwords [t] = t"
| "unwords (t # u # ts) = t @ CHR '' '' # unwords (u # ts)"

lemma split_whitespace_Nil [simp]: "split_whitespace [] = []"
  by (simp add: split_whitespace_def)

lemma split_whitespace_unwords: "\<forall>t \<in> set ts. token t \<Longrightarrow> split_whitespace (unwords ts) = ts"
  by (induction ts rule: unwords.induct) (auto simp: split_whitespace_token split_whitespace_cons)

lemma set_unwords: "set (unwords ts) \<subseteq> \<Union> (set ` set ts) \<union> {CHR '' ''}"
  by (induction ts rule: unwords.induct) auto

lemma unwords_clean:
  assumes "\<forall>t \<in> set ts. token t"
  shows "newline \<notin> set (unwords ts)" "char_of (13 :: nat) \<notin> set (unwords ts)"
    "CHR '';'' \<notin> set (unwords ts)"
proof -
  have clean: "c \<notin> set (unwords ts)" if "is_whitespace c \<or> c = CHR '';''" "c \<noteq> CHR '' ''" for c
    using that set_unwords[of ts] assms by (fastforce simp: token_def)
  have ne: "newline \<noteq> CHR '' ''" "char_of (13 :: nat) \<noteq> CHR '' ''" by code_simp+
  show "newline \<notin> set (unwords ts)" by (rule clean[OF _ ne(1)]) simp
  show "char_of (13 :: nat) \<notin> set (unwords ts)" by (rule clean[OF _ ne(2)]) simp
  show "CHR '';'' \<notin> set (unwords ts)" by (rule clean) simp_all
qed

lemma unwords_ends:
  assumes "ts \<noteq> []" "\<forall>t \<in> set ts. token t"
  shows "unwords ts \<noteq> []" "hd (unwords ts) = hd (hd ts)" "\<not> is_whitespace (last (unwords ts))"
  using assms
proof (induction ts rule: unwords.induct)
  case (2 t)
  {
    case 3
    then show ?case using last_in_set[of t] by (auto simp: token_def)
  }
qed (auto simp: token_def hd_append)

lemma trim_unwords:
  assumes "ts \<noteq> []" "\<forall>t \<in> set ts. token t"
  shows "trim (unwords ts) = unwords ts"
proof (rule trim_id)
  have "token (hd ts)" using assms by (cases ts) auto
  then show "\<not> is_whitespace (hd (unwords ts))"
    using unwords_ends(2)[OF assms] by (cases "hd ts") (auto simp: token_def)
qed (use unwords_ends[OF assms] in auto)

end
