(* ===== verification/Version.thy ===== *)
theory Version
  imports Rust_Str
begin

text \<open>
  The version of a program or an architecture: \<open>version.rs\<close>.  Packing into a \<open>u32\<close>,
  the printed form \<open>major.minor\<close>, and the two readers of it (the JSON string of an
  architecture and, in \<open>text.rs\<close>, the operand of \<open>.version\<close>).
\<close>

record version =
  major :: u16
  minor :: u16

definition is_compatible :: "version \<Rightarrow> version \<Rightarrow> bool" where
  "is_compatible v w \<longleftrightarrow> major v = major w"

definition version_display :: "version \<Rightarrow> string" where
  "version_display v = fmt_dec (unat (major v)) @ ''.'' @ fmt_dec (unat (minor v))"

definition version_from_u32 :: "u32 \<Rightarrow> version" where
  "version_from_u32 v = \<lparr>major = ucast (drop_bit 16 v), minor = ucast v\<rparr>"

definition version_to_u32 :: "version \<Rightarrow> u32" where
  "version_to_u32 v = push_bit 16 (ucast (major v)) OR ucast (minor v)"

datatype version_error = NoDot | BadNumber int_error

text \<open>\<open>Deserialize for Version\<close>, on the string it has read.\<close>
definition version_deserialize :: "string \<Rightarrow> version_error + version" where
  "version_deserialize s =
     (case split_once (CHR ''.'') s of
        None \<Rightarrow> Inl NoDot
      | Some (a, b) \<Rightarrow>
          (case parse_word 10 a of Inl e \<Rightarrow> Inl (BadNumber e)
           | Inr x \<Rightarrow> (case parse_word 10 b of Inl e \<Rightarrow> Inl (BadNumber e)
                       | Inr y \<Rightarrow> Inr \<lparr>major = x, minor = y\<rparr>)))"

lemma version_from_to_u32 [simp]: "version_from_u32 (version_to_u32 v) = v"
  by (auto simp: version_from_u32_def version_to_u32_def bit_simps
      intro!: version.equality bit_word_eqI)
    (use bit_imp_le_length in fastforce)

lemma version_to_from_u32 [simp]: "version_to_u32 (version_from_u32 w) = w"
  by (auto simp: version_from_u32_def version_to_u32_def bit_simps intro!: bit_word_eqI)

lemma fmt_dec_no_dot: "CHR ''.'' \<notin> set (fmt_dec n)"
  using fmt_dec_alnum alnum_token by blast

lemma version_split [simp]:
  "split_once (CHR ''.'') (version_display v) = Some (fmt_dec (unat (major v)), fmt_dec (unat (minor v)))"
  using fmt_dec_no_dot by (simp add: version_display_def split_once_append)

lemma version_deserialize_display: "version_deserialize (version_display v) = Inr v"
  by (simp add: version_deserialize_def)

lemma is_compatible_equiv: "equivp is_compatible"
  by (rule equivpI) (auto simp: is_compatible_def reflp_def symp_def transp_def)

end
