(* ===== verification/Float64.thy ===== *)
theory Float64
  imports Rust_Num
begin

text \<open>
  Rust's \<open>f64\<close> as its IEEE 754 binary64 bit pattern, with the operations the sources use:
  \<open>to_bits\<close>, \<open>from_bits\<close>, the comparisons (which are false on NaN and identify the two
  zeros), \<open>is_finite\<close>, \<open>total_cmp\<close> (as the \<open>linorder\<close> of the type), addition and
  subtraction with rounding to nearest even, \<open>min\<close>, \<open>max\<close> and \<open>Iterator::sum\<close>.
  Arithmetic is exact integer arithmetic on significands followed by one rounding, so every
  definition evaluates.  The payload of a NaN produced by arithmetic is not specified by Rust;
  the model returns the quiet NaN.
\<close>

section \<open>Bit patterns\<close>

datatype f64 = F64 (to_bits: u64)

definition sign_bit :: "f64 \<Rightarrow> bool" where
  "sign_bit a \<longleftrightarrow> bit (to_bits a) 63"

definition magnitude :: "f64 \<Rightarrow> int" where
  "magnitude a = uint (take_bit 63 (to_bits a))"

definition exponent :: "f64 \<Rightarrow> int" where
  "exponent a = magnitude a div 2 ^ 52"

definition fraction :: "f64 \<Rightarrow> int" where
  "fraction a = magnitude a mod 2 ^ 52"

definition is_nan :: "f64 \<Rightarrow> bool" where
  "is_nan a \<longleftrightarrow> exponent a = 2047 \<and> fraction a \<noteq> 0"

definition is_infinite :: "f64 \<Rightarrow> bool" where
  "is_infinite a \<longleftrightarrow> exponent a = 2047 \<and> fraction a = 0"

definition is_finite :: "f64 \<Rightarrow> bool" where
  "is_finite a \<longleftrightarrow> exponent a \<noteq> 2047"

definition make_f64 :: "bool \<Rightarrow> int \<Rightarrow> f64" where
  "make_f64 s m = F64 (word_of_int (if s then 2 ^ 63 + m else m))"

definition pos_zero :: f64 where "pos_zero = F64 0"
definition neg_zero :: f64 where "neg_zero = F64 0x8000000000000000"
definition quiet_nan :: f64 where "quiet_nan = F64 0x7FF8000000000000"

section \<open>Comparison\<close>

definition cmp_key :: "f64 \<Rightarrow> int" where
  "cmp_key a = (if sign_bit a then - magnitude a else magnitude a)"

definition feq :: "f64 \<Rightarrow> f64 \<Rightarrow> bool" where
  "feq a b \<longleftrightarrow> \<not> is_nan a \<and> \<not> is_nan b \<and> cmp_key a = cmp_key b"

definition flt :: "f64 \<Rightarrow> f64 \<Rightarrow> bool" where
  "flt a b \<longleftrightarrow> \<not> is_nan a \<and> \<not> is_nan b \<and> cmp_key a < cmp_key b"

definition fle :: "f64 \<Rightarrow> f64 \<Rightarrow> bool" where
  "fle a b \<longleftrightarrow> \<not> is_nan a \<and> \<not> is_nan b \<and> cmp_key a \<le> cmp_key b"

definition fmin :: "f64 \<Rightarrow> f64 \<Rightarrow> f64" where
  "fmin a b = (if is_nan a then b else if is_nan b then a else if flt b a then b else a)"

definition fmax :: "f64 \<Rightarrow> f64 \<Rightarrow> f64" where
  "fmax a b = (if is_nan a then b else if is_nan b then a else if flt a b then b else a)"

text \<open>\<open>f64::total_cmp\<close>: the total order of the bit patterns, as the order of the type.\<close>
definition total_key :: "f64 \<Rightarrow> int" where
  "total_key a = (if sign_bit a then - magnitude a - 1 else magnitude a)"

lemma magnitude_bounds: "0 \<le> magnitude a" "magnitude a < 2 ^ 63"
  using take_bit_int_less_exp[of 63 "uint (to_bits a)"]
  by (auto simp: magnitude_def unsigned_take_bit_eq)

lemma f64_eqI:
  assumes "sign_bit a = sign_bit b" "magnitude a = magnitude b"
  shows "a = b"
proof -
  have "take_bit 63 (to_bits a) = take_bit 63 (to_bits b)"
    using assms(2) unfolding magnitude_def by (rule word_eq_iff_unsigned [where ?'a = int, THEN iffD2])
  then have low: "bit (to_bits a) n = bit (to_bits b) n" if "n < 63" for n
    using that by (metis bit_take_bit_iff)
  have "to_bits a = to_bits b"
  proof (rule bit_word_eqI)
    fix n assume "n < LENGTH(64)"
    then consider "n < 63" | "n = 63" by fastforce
    then show "bit (to_bits a) n = bit (to_bits b) n"
      using low assms(1) by cases (auto simp: sign_bit_def)
  qed
  then show ?thesis by (simp add: f64.expand)
qed

lemma total_key_inj: "total_key a = total_key b \<Longrightarrow> a = b"
  using magnitude_bounds(1)[of a] magnitude_bounds(1)[of b]
  by (intro f64_eqI) (auto simp: total_key_def split: if_splits)

instantiation f64 :: linorder
begin

definition less_eq_f64 :: "f64 \<Rightarrow> f64 \<Rightarrow> bool" where
  "less_eq_f64 a b \<longleftrightarrow> total_key a \<le> total_key b"

definition less_f64 :: "f64 \<Rightarrow> f64 \<Rightarrow> bool" where
  "less_f64 a b \<longleftrightarrow> total_key a < total_key b"

instance
  by standard (auto simp: less_eq_f64_def less_f64_def intro: total_key_inj)

end

lemma flt_irrefl [simp]: "\<not> flt a a"
  by (simp add: flt_def)

lemma flt_trans: "flt a b \<Longrightarrow> flt b c \<Longrightarrow> flt a c"
  by (auto simp: flt_def)

lemma flt_asym: "flt a b \<Longrightarrow> \<not> flt b a"
  by (auto simp: flt_def)

text \<open>On the values that compare with themselves, \<open><\<close> is the strict part of the total order.\<close>
lemma flt_total: "flt a b \<Longrightarrow> a < b"
  using magnitude_bounds(1)[of a] magnitude_bounds(1)[of b]
  by (auto simp: flt_def less_f64_def cmp_key_def total_key_def split: if_splits)

section \<open>Addition\<close>

fun bitlen :: "int \<Rightarrow> nat" where
  "bitlen n = (if n \<le> 0 then 0 else Suc (bitlen (n div 2)))"

declare bitlen.simps [simp del]

definition significand :: "f64 \<Rightarrow> int" where
  "significand a = (if exponent a = 0 then fraction a else 2 ^ 52 + fraction a)"

definition scale :: "f64 \<Rightarrow> nat" where
  "scale a = nat (if exponent a = 0 then 0 else exponent a - 1)"

text \<open>\<open>m / 2\<^sup>k\<close>, rounded to the nearest integer, ties to even.\<close>
definition round_shift :: "int \<Rightarrow> nat \<Rightarrow> int" where
  "round_shift m k =
     (let q = m div 2 ^ k; r = m mod 2 ^ k
      in if 2 ^ k < 2 * r \<or> (2 * r = 2 ^ k \<and> odd q) then q + 1 else q)"

text \<open>The magnitude bits of the double nearest to \<open>m * 2\<^sup>e\<close> units of \<open>2\<^bsup>-1074\<^esup>\<close>.\<close>
definition round_magnitude :: "int \<Rightarrow> nat \<Rightarrow> int" where
  "round_magnitude m e =
     (let l = bitlen m
      in min (2047 * 2 ^ 52)
           (if l + e \<le> 53 then m * 2 ^ e
            else (if l \<le> 53 then m * 2 ^ (53 - l) else round_shift m (l - 53))
                 + int (l + e - 53) * 2 ^ 52))"

definition signed_significand :: "f64 \<Rightarrow> int" where
  "signed_significand a = (if sign_bit a then - significand a else significand a)"

definition fadd :: "f64 \<Rightarrow> f64 \<Rightarrow> f64" where
  "fadd a b =
     (if is_nan a \<or> is_nan b then quiet_nan
      else if is_infinite a then (if is_infinite b \<and> sign_bit a \<noteq> sign_bit b then quiet_nan else a)
      else if is_infinite b then b
      else if significand b = 0 \<and> significand a \<noteq> 0 then a
      else if significand a = 0 \<and> significand b \<noteq> 0 then b
      else let e = min (scale a) (scale b);
               s = signed_significand a * 2 ^ (scale a - e) + signed_significand b * 2 ^ (scale b - e)
           in if s = 0 then (if sign_bit a \<and> sign_bit b then neg_zero else pos_zero)
              else make_f64 (s < 0) (round_magnitude \<bar>s\<bar> e))"

definition fneg :: "f64 \<Rightarrow> f64" where
  "fneg a = F64 (to_bits a XOR 0x8000000000000000)"

definition fsub :: "f64 \<Rightarrow> f64 \<Rightarrow> f64" where
  "fsub a b = fadd a (fneg b)"

text \<open>\<open>iter().sum::<f64>()\<close>: the fold starts from negative zero, the neutral element.\<close>
definition fsum :: "f64 list \<Rightarrow> f64" where
  "fsum xs = foldl fadd neg_zero xs"

subsection \<open>Negative zero is neutral\<close>

lemma exponent_fraction: "magnitude a = exponent a * 2 ^ 52 + fraction a"
  by (simp add: exponent_def fraction_def)

lemma exponent_bounds: "0 \<le> exponent a" "exponent a \<le> 2047"
  using magnitude_bounds[of a] by (auto simp: exponent_def pos_imp_zdiv_nonneg_iff)

lemma fraction_bounds: "0 \<le> fraction a" "fraction a < 2 ^ 52"
  by (auto simp: fraction_def)

lemma zero_bits: "is_nan neg_zero = False" "is_infinite neg_zero = False" "scale neg_zero = 0"
  "signed_significand neg_zero = 0" "significand neg_zero = 0" "sign_bit neg_zero = True" "magnitude neg_zero = 0"
  "sign_bit pos_zero = False" "magnitude pos_zero = 0"
  by code_simp+

lemma significand_nonneg: "0 \<le> significand a"
  using fraction_bounds[of a] by (simp add: significand_def)

lemma fadd_neg_zero:
  assumes "\<not> is_nan a"
  shows "fadd a neg_zero = a"
proof (cases "is_infinite a \<or> significand a \<noteq> 0")
  case True
  then show ?thesis using assms by (auto simp: fadd_def zero_bits)
next
  case False
  then have "magnitude a = 0"
    using fraction_bounds[of a] by (auto simp: significand_def exponent_fraction split: if_splits)
  then have "a = (if sign_bit a then neg_zero else pos_zero)"
    by (intro f64_eqI) (auto simp: zero_bits)
  with False assms show ?thesis
    by (auto simp: fadd_def zero_bits signed_significand_def split: if_splits)
qed

lemma fsum_Nil [simp]: "fsum [] = neg_zero"
  by (simp add: fsum_def)

text \<open>The classic check of the rounding: 0.1 + 0.2 = 0.30000000000000004.\<close>
lemma fadd_tenths:
  "fadd (F64 0x3FB999999999999A) (F64 0x3FC999999999999A) = F64 0x3FD3333333333334"
  by code_simp

lemma fadd_infinities:
  "fadd (F64 0x7FF0000000000000) (F64 0xFFF0000000000000) = quiet_nan"
  by code_simp

lemma fadd_overflow:
  "fadd (F64 0x7FEFFFFFFFFFFFFF) (F64 0x7FEFFFFFFFFFFFFF) = F64 0x7FF0000000000000"
  by code_simp

end
