(* ===== verification/Arch_Types.thy ===== *)
theory Arch_Types
  imports Addr Version Float64
begin

text \<open>
  The data of a device architecture: \<open>arch/types.rs\<close>.  Buses, words, zones with their
  coordinate grids, modes, transport paths and the architecture itself, with the operations
  of the grid and the hexadecimal form of a path's lane.
\<close>

section \<open>Buses, words and grids\<close>

record 'a bus =
  bus_src :: "'a list"
  bus_dst :: "'a list"

record arch_word =
  sites :: "(u32 \<times> u32) list"

record grid =
  x_start :: f64
  y_start :: f64
  x_spacing :: "f64 list"
  y_spacing :: "f64 list"

definition canonical_f64_bits :: "f64 \<Rightarrow> u64" where
  "canonical_f64_bits v = (if feq v pos_zero then to_bits pos_zero else to_bits v)"

text \<open>The derived \<open>PartialEq\<close>, and the words the manual \<open>Hash\<close> feeds the hasher.\<close>
definition grid_eq :: "grid \<Rightarrow> grid \<Rightarrow> bool" where
  "grid_eq g h \<longleftrightarrow> feq (x_start g) (x_start h) \<and> feq (y_start g) (y_start h)
     \<and> list_all2 feq (x_spacing g) (x_spacing h) \<and> list_all2 feq (y_spacing g) (y_spacing h)"

definition grid_hash :: "grid \<Rightarrow> u64 list" where
  "grid_hash g = canonical_f64_bits (x_start g) # canonical_f64_bits (y_start g)
     # map canonical_f64_bits (x_spacing g) @ map canonical_f64_bits (y_spacing g)"

text \<open>\<open>Grid::check_finite\<close>: the field that holds the first value that is not finite.\<close>
datatype grid_field = XStart | YStart | XSpacing | YSpacing

definition grid_check_finite :: "grid \<Rightarrow> grid_field + unit" where
  "grid_check_finite g =
     (if \<not> is_finite (x_start g) then Inl XStart
      else if \<not> is_finite (y_start g) then Inl YStart
      else if \<exists>v \<in> set (x_spacing g). \<not> is_finite v then Inl XSpacing
      else if \<exists>v \<in> set (y_spacing g). \<not> is_finite v then Inl YSpacing
      else Inr ())"

text \<open>\<open>windows(2).map(|w| w[1] - w[0])\<close>.\<close>
fun differences :: "f64 list \<Rightarrow> f64 list" where
  "differences (a # b # cs) = fsub b a # differences (b # cs)"
| "differences _ = []"

definition from_positions :: "f64 list \<Rightarrow> f64 list \<Rightarrow> grid outcome" where
  "from_positions xs ys =
     (if xs = [] \<or> ys = [] then Panicked
      else Returned \<lparr>x_start = xs ! 0, y_start = ys ! 0,
             x_spacing = differences xs, y_spacing = differences ys\<rparr>)"

definition num_x :: "grid \<Rightarrow> nat" where
  "num_x g = length (x_spacing g) + 1"

definition num_y :: "grid \<Rightarrow> nat" where
  "num_y g = length (y_spacing g) + 1"

definition x_position :: "grid \<Rightarrow> nat \<Rightarrow> f64 option" where
  "x_position g idx =
     (if num_x g \<le> idx then None else Some (fadd (x_start g) (fsum (take idx (x_spacing g)))))"

definition y_position :: "grid \<Rightarrow> nat \<Rightarrow> f64 option" where
  "y_position g idx =
     (if num_y g \<le> idx then None else Some (fadd (y_start g) (fsum (take idx (y_spacing g)))))"

text \<open>The loop of \<open>x_positions\<close> and \<open>y_positions\<close>.\<close>
fun running_sums :: "f64 \<Rightarrow> f64 list \<Rightarrow> f64 list" where
  "running_sums acc [] = [acc]"
| "running_sums acc (d # ds) = acc # running_sums (fadd acc d) ds"

definition x_positions :: "grid \<Rightarrow> f64 list" where
  "x_positions g = running_sums (x_start g) (x_spacing g)"

definition y_positions :: "grid \<Rightarrow> f64 list" where
  "y_positions g = running_sums (y_start g) (y_spacing g)"

definition bounding_box :: "grid \<Rightarrow> f64 \<times> f64 \<times> f64 \<times> f64" where
  "bounding_box g =
     (let x_end = fadd (x_start g) (fsum (x_spacing g));
          y_end = fadd (y_start g) (fsum (y_spacing g))
      in (fmin (x_start g) x_end, fmax (x_start g) x_end,
          fmin (y_start g) y_end, fmax (y_start g) y_end))"

section \<open>Zones, modes, paths and the architecture\<close>

record zone =
  zone_name :: string
  zone_grid :: grid
  site_buses :: "site_ref bus list"
  word_buses :: "word_ref bus list"
  words_with_site_buses :: "u32 list"
  sites_with_word_buses :: "u32 list"
  entangling_pairs :: "(u32 \<times> u32) list"

record mode =
  mode_name :: string
  mode_zones :: "u32 list"
  bitstring_order :: "location_addr list"

record transport_path =
  path_lane :: u64
  waypoints :: "(f64 \<times> f64) list"

record arch_spec =
  arch_version :: version
  words :: "arch_word list"
  zones :: "zone list"
  zone_buses :: "zoned_word_ref bus list"
  modes :: "mode list"
  paths :: "transport_path list option"
  feed_forward :: bool
  atom_reloading :: bool
  blockade_radius :: "f64 option"

definition sites_per_word :: "arch_spec \<Rightarrow> nat" where
  "sites_per_word a = (case words a of [] \<Rightarrow> 0 | w # _ \<Rightarrow> length (sites w))"

definition path_check_finite :: "transport_path \<Rightarrow> bool" where
  "path_check_finite p \<longleftrightarrow> list_all (\<lambda>(x, y). is_finite x \<and> is_finite y) (waypoints p)"

definition path_eq :: "transport_path \<Rightarrow> transport_path \<Rightarrow> bool" where
  "path_eq p q \<longleftrightarrow> path_lane p = path_lane q
     \<and> list_all2 (\<lambda>(x, y) (x', y'). feq x x' \<and> feq y y') (waypoints p) (waypoints q)"

definition path_hash :: "transport_path \<Rightarrow> u64 list" where
  "path_hash p = path_lane p
     # concat (map (\<lambda>(x, y). [canonical_f64_bits x, canonical_f64_bits y]) (waypoints p))"

definition serialize_lane_hex :: "u64 \<Rightarrow> string" where
  "serialize_lane_hex lane = ''0x'' @ fmt_hex_upper 16 (unat lane)"

datatype lane_hex_error = NoHexPrefix string | HexLength nat string | HexDigits int_error

definition deserialize_lane_hex :: "string \<Rightarrow> lane_hex_error + u64" where
  "deserialize_lane_hex s =
     (case or_else (strip_prefix ''0x'' s) (strip_prefix ''0X'' s) of
        None \<Rightarrow> Inl (NoHexPrefix s)
      | Some hex \<Rightarrow>
          if length hex \<noteq> 16 then Inl (HexLength (length hex) s)
          else (case parse_word 16 hex of Inl e \<Rightarrow> Inl (HexDigits e) | Inr v \<Rightarrow> Inr v))"

section \<open>Laws of the grid\<close>

lemma feq_canonical: "feq a b \<Longrightarrow> canonical_f64_bits a = canonical_f64_bits b"
proof -
  assume eq: "feq a b"
  then have key: "cmp_key a = cmp_key b" by (simp add: feq_def)
  show ?thesis
  proof (cases "cmp_key a = 0")
    case True
    moreover have "\<not> is_nan pos_zero" "cmp_key pos_zero = 0" by code_simp+
    ultimately have "feq a pos_zero" "feq b pos_zero"
      using eq key by (auto simp: feq_def)
    then show ?thesis by (simp add: canonical_f64_bits_def)
  next
    case False
    then have "sign_bit a = sign_bit b" "magnitude a = magnitude b"
      using key magnitude_bounds(1)[of a] magnitude_bounds(1)[of b]
      by (auto simp: cmp_key_def split: if_splits)
    then have "a = b" by (rule f64_eqI)
    then show ?thesis by simp
  qed
qed

lemma map_canonical: "list_all2 feq xs ys \<Longrightarrow> map canonical_f64_bits xs = map canonical_f64_bits ys"
  by (induction rule: list_all2_induct) (auto simp: feq_canonical)

lemma path_words:
  "list_all2 (\<lambda>(x, y) (x', y'). feq x x' \<and> feq y y') ps qs \<Longrightarrow>
   concat (map (\<lambda>(x, y). [canonical_f64_bits x, canonical_f64_bits y]) ps) =
   concat (map (\<lambda>(x, y). [canonical_f64_bits x, canonical_f64_bits y]) qs)"
  by (induction rule: list_all2_induct) (auto simp: feq_canonical)

lemma grid_check_finite_iff:
  "grid_check_finite g = Inr () \<longleftrightarrow>
     is_finite (x_start g) \<and> is_finite (y_start g)
     \<and> (\<forall>v \<in> set (x_spacing g) \<union> set (y_spacing g). is_finite v)"
  by (auto simp: grid_check_finite_def split: if_splits)

lemma x_position_None_iff [simp]: "x_position g i = None \<longleftrightarrow> num_x g \<le> i"
  by (simp add: x_position_def)

lemma y_position_None_iff [simp]: "y_position g i = None \<longleftrightarrow> num_y g \<le> i"
  by (simp add: y_position_def)

lemma length_running_sums [simp]: "length (running_sums acc ds) = Suc (length ds)"
  by (induction acc ds rule: running_sums.induct) auto

lemma running_sums_nth:
  "i \<le> length ds \<Longrightarrow> running_sums acc ds ! i = foldl fadd acc (take i ds)"
proof (induction acc ds arbitrary: i rule: running_sums.induct)
  case (2 acc d ds)
  then show ?case by (cases i) auto
qed simp

lemma length_differences [simp]: "length (differences xs) = length xs - 1"
  by (induction xs rule: differences.induct) auto

text \<open>\<open>x_position\<close> adds a sum to the start and \<open>x_positions\<close> accumulates from it: they agree
  on the first two grid points, and need not beyond.\<close>
lemma position_first:
  "\<not> is_nan (x_start g) \<Longrightarrow> x_position g 0 = Some (x_positions g ! 0)"
  by (simp add: x_position_def x_positions_def num_x_def running_sums_nth fadd_neg_zero)

section \<open>Properties\<close>

text \<open>The hand-written \<open>Hash\<close> of grids and transport paths agrees with the derived equality:
  values that compare equal (0.0 and -0.0 included) feed the hasher the same words.\<close>
theorem hash_respects_eq:
  "(grid_eq g h \<longrightarrow> grid_hash g = grid_hash h) \<and> (path_eq p q \<longrightarrow> path_hash p = path_hash q)"
  by (auto simp: grid_eq_def grid_hash_def path_eq_def path_hash_def feq_canonical map_canonical
      path_words)

theorem hash_respects_eq_witness:
  "grid_hash \<lparr>x_start = pos_zero, y_start = neg_zero, x_spacing = [neg_zero], y_spacing = []\<rparr>
   = grid_hash \<lparr>x_start = neg_zero, y_start = pos_zero, x_spacing = [pos_zero], y_spacing = []\<rparr>"
proof -
  have z: "feq pos_zero neg_zero" "feq neg_zero pos_zero" by code_simp+
  show ?thesis
    using hash_respects_eq[of "\<lparr>x_start = pos_zero, y_start = neg_zero, x_spacing = [neg_zero], y_spacing = []\<rparr>"
        "\<lparr>x_start = neg_zero, y_start = pos_zero, x_spacing = [pos_zero], y_spacing = []\<rparr>"
        "undefined" "undefined"] z
    by (simp add: grid_eq_def)
qed

text \<open>The hexadecimal string that a transport path's lane is written as has 18 characters
  and is read back as the same 64-bit lane.\<close>
theorem lane_hex_roundtrip:
  "length (serialize_lane_hex lane) = 18 \<and> deserialize_lane_hex (serialize_lane_hex lane) = Inr lane"
proof -
  have len: "length (fmt_hex_upper 16 (unat lane)) = 16"
    using unsigned_less[of lane, where ?'a = nat] by (intro length_fmt_hex_upper) simp_all
  have "strip_prefix ''0x'' (serialize_lane_hex lane) = Some (fmt_hex_upper 16 (unat lane))"
    unfolding serialize_lane_hex_def by (rule strip_prefix_append)
  then show ?thesis using len by (simp add: deserialize_lane_hex_def) (simp add: serialize_lane_hex_def)
qed

text \<open>The position of a grid point read by index can differ in its last bit from the entry
  of the list of all positions, because the two round in a different order: with start 0.1 and
  spacings 0.2 and 0.3 the third point is 0.6 by index and 0.6000000000000001 in the list.\<close>
theorem grid_positions_disagree:
  "\<exists>g i. grid_check_finite g = Inr () \<and> i < num_x g
     \<and> x_position g i \<noteq> Some (x_positions g ! i)"
proof -
  define g where "g = \<lparr>x_start = F64 0x3FB999999999999A, y_start = pos_zero,
    x_spacing = [F64 0x3FC999999999999A, F64 0x3FD3333333333333], y_spacing = []\<rparr>"
  have "grid_check_finite g = Inr ()" unfolding g_def by code_simp
  moreover have "2 < num_x g" by (simp add: g_def num_x_def)
  moreover have "x_position g 2 \<noteq> Some (x_positions g ! 2)" unfolding g_def by code_simp
  ultimately show ?thesis by blast
qed

end
