(* ===== verification/Bus.thy ===== *)
theory Bus
  imports Arch_Types
begin

text \<open>
  Moving along a bus: the \<open>resolve_forward\<close> and \<open>resolve_backward\<close> methods of
  \<open>arch/query.rs\<close>, which the source writes out for each of the three address types.  The
  locale \<open>transport_bus\<close> is the contract they share; what the queries and the atom state
  need of a bus is proved in it once and read off for the three interpretations.
\<close>

section \<open>The three pairs of methods\<close>

definition site_resolve_forward :: "site_ref bus \<Rightarrow> u16 \<Rightarrow> u16 option" where
  "site_resolve_forward b src =
     Option.bind (position (\<lambda>s. site_ref_index s = src) (bus_src b))
       (\<lambda>i. map_option site_ref_index (list_get (bus_dst b) i))"

definition site_resolve_backward :: "site_ref bus \<Rightarrow> u16 \<Rightarrow> u16 option" where
  "site_resolve_backward b dst =
     Option.bind (position (\<lambda>d. site_ref_index d = dst) (bus_dst b))
       (\<lambda>i. map_option site_ref_index (list_get (bus_src b) i))"

definition word_resolve_forward :: "word_ref bus \<Rightarrow> u16 \<Rightarrow> u16 option" where
  "word_resolve_forward b src =
     Option.bind (position (\<lambda>s. word_ref_index s = src) (bus_src b))
       (\<lambda>i. map_option word_ref_index (list_get (bus_dst b) i))"

definition word_resolve_backward :: "word_ref bus \<Rightarrow> u16 \<Rightarrow> u16 option" where
  "word_resolve_backward b dst =
     Option.bind (position (\<lambda>d. word_ref_index d = dst) (bus_dst b))
       (\<lambda>i. map_option word_ref_index (list_get (bus_src b) i))"

definition zoned_resolve_forward :: "zoned_word_ref bus \<Rightarrow> zoned_word_ref \<Rightarrow> zoned_word_ref option" where
  "zoned_resolve_forward b src =
     Option.bind (position (\<lambda>s. s = src) (bus_src b)) (list_get (bus_dst b))"

definition zoned_resolve_backward :: "zoned_word_ref bus \<Rightarrow> zoned_word_ref \<Rightarrow> zoned_word_ref option" where
  "zoned_resolve_backward b dst =
     Option.bind (position (\<lambda>d. d = dst) (bus_dst b)) (list_get (bus_src b))"

section \<open>The contract\<close>

text \<open>Both methods find the first index of the key in one list and read the other there.\<close>
locale transport_bus =
  fixes fwd bwd :: "'b \<Rightarrow> 'k \<Rightarrow> 'k option"
    and srcs dsts :: "'b \<Rightarrow> 'k list"
  assumes fwd_position: "fwd b k = Option.bind (position (\<lambda>s. s = k) (srcs b)) (list_get (dsts b))"
    and bwd_position: "bwd b k = Option.bind (position (\<lambda>s. s = k) (dsts b)) (list_get (srcs b))"
begin

lemma fwd_Some_iff:
  "fwd b k = Some k' \<longleftrightarrow>
     (\<exists>i < length (srcs b). i < length (dsts b) \<and> srcs b ! i = k \<and> dsts b ! i = k'
        \<and> (\<forall>j<i. srcs b ! j \<noteq> k))"
  by (auto simp: fwd_position bind_eq_Some_conv position_Some_iff)

lemma bwd_Some_iff:
  "bwd b k = Some k' \<longleftrightarrow>
     (\<exists>i < length (dsts b). i < length (srcs b) \<and> dsts b ! i = k \<and> srcs b ! i = k'
        \<and> (\<forall>j<i. dsts b ! j \<noteq> k))"
  by (auto simp: bwd_position bind_eq_Some_conv position_Some_iff)

lemma fwd_in: "fwd b k = Some k' \<Longrightarrow> k \<in> set (srcs b) \<and> k' \<in> set (dsts b)"
  by (auto simp: fwd_Some_iff)

lemma bwd_in: "bwd b k = Some k' \<Longrightarrow> k \<in> set (dsts b) \<and> k' \<in> set (srcs b)"
  by (auto simp: bwd_Some_iff)

lemma fwd_defined_iff:
  assumes "length (srcs b) = length (dsts b)"
  shows "fwd b k \<noteq> None \<longleftrightarrow> k \<in> set (srcs b)"
proof
  assume "k \<in> set (srcs b)"
  then have "position (\<lambda>s. s = k) (srcs b) \<noteq> None" by simp
  then obtain i where i: "position (\<lambda>s. s = k) (srcs b) = Some i" by blast
  then have "i < length (dsts b)" using assms by (simp add: position_Some_iff)
  with i show "fwd b k \<noteq> None" by (simp add: fwd_position list_get_def)
qed (use fwd_in in blast)

lemma fwd_nth:
  assumes "distinct (srcs b)" "i < length (srcs b)" "i < length (dsts b)"
  shows "fwd b (srcs b ! i) = Some (dsts b ! i)"
  using assms by (simp add: fwd_position position_distinct list_get_def)

lemma bwd_nth:
  assumes "distinct (dsts b)" "i < length (srcs b)" "i < length (dsts b)"
  shows "bwd b (dsts b ! i) = Some (srcs b ! i)"
  using assms by (simp add: bwd_position position_distinct list_get_def)

lemma bwd_fwd: "distinct (dsts b) \<Longrightarrow> fwd b k = Some k' \<Longrightarrow> bwd b k' = Some k"
  by (auto simp: fwd_Some_iff bwd_nth)

lemma fwd_bwd: "distinct (srcs b) \<Longrightarrow> bwd b k = Some k' \<Longrightarrow> fwd b k' = Some k"
  by (auto simp: bwd_Some_iff fwd_nth)

text \<open>A bus that names no position twice is a partial bijection.\<close>
lemma fwd_iff_bwd:
  "distinct (srcs b) \<Longrightarrow> distinct (dsts b) \<Longrightarrow> fwd b k = Some k' \<longleftrightarrow> bwd b k' = Some k"
  using bwd_fwd fwd_bwd by blast

lemma fwd_inj: "distinct (dsts b) \<Longrightarrow> fwd b k = Some d \<Longrightarrow> fwd b k' = Some d \<Longrightarrow> k = k'"
  using bwd_fwd[of b k d] bwd_fwd[of b k' d] by simp

end

section \<open>The three interpretations\<close>

lemma position_map: "position (\<lambda>s. f s = k) xs = position (\<lambda>s. s = k) (map f xs)"
  by (induction xs) auto

lemma list_get_map: "list_get (map f xs) = (\<lambda>i. map_option f (list_get xs i))"
  by (rule ext) (simp add: list_get_def)

interpretation sb: transport_bus site_resolve_forward site_resolve_backward
  "\<lambda>b. map site_ref_index (bus_src b)" "\<lambda>b. map site_ref_index (bus_dst b)"
  by unfold_locales
    (simp_all add: site_resolve_forward_def site_resolve_backward_def list_get_map
      position_map[of site_ref_index])

interpretation wb: transport_bus word_resolve_forward word_resolve_backward
  "\<lambda>b. map word_ref_index (bus_src b)" "\<lambda>b. map word_ref_index (bus_dst b)"
  by unfold_locales
    (simp_all add: word_resolve_forward_def word_resolve_backward_def list_get_map
      position_map[of word_ref_index])

interpretation zb: transport_bus zoned_resolve_forward zoned_resolve_backward bus_src bus_dst
  by unfold_locales (simp_all add: zoned_resolve_forward_def zoned_resolve_backward_def)

text \<open>On a bus that names no source and no destination twice, moving forward and moving
  backward are inverse to each other, for site, word and inter-zone buses alike.\<close>
theorem buses_invert:
  "(distinct (map site_ref_index (bus_src sbus)) \<longrightarrow> distinct (map site_ref_index (bus_dst sbus)) \<longrightarrow>
      site_resolve_forward sbus s = Some s' \<longleftrightarrow> site_resolve_backward sbus s' = Some s)
   \<and> (distinct (map word_ref_index (bus_src wbus)) \<longrightarrow> distinct (map word_ref_index (bus_dst wbus)) \<longrightarrow>
      word_resolve_forward wbus w = Some w' \<longleftrightarrow> word_resolve_backward wbus w' = Some w)
   \<and> (distinct (bus_src zbus) \<longrightarrow> distinct (bus_dst zbus) \<longrightarrow>
      zoned_resolve_forward zbus z = Some z' \<longleftrightarrow> zoned_resolve_backward zbus z' = Some z)"
  using sb.fwd_iff_bwd[of sbus s s'] wb.fwd_iff_bwd[of wbus w w'] zb.fwd_iff_bwd[of zbus z z'] by blast

theorem buses_invert_witness:
  "site_resolve_backward \<lparr>bus_src = [SiteRef 0, SiteRef 1], bus_dst = [SiteRef 5, SiteRef 6]\<rparr> 6 = Some 1
   \<and> word_resolve_backward \<lparr>bus_src = [WordRef 0], bus_dst = [WordRef 1]\<rparr> 1 = Some 0
   \<and> zoned_resolve_backward \<lparr>bus_src = [\<lparr>zwr_zone_id = 0, zwr_word_id = 0\<rparr>],
        bus_dst = [\<lparr>zwr_zone_id = 1, zwr_word_id = 0\<rparr>]\<rparr> \<lparr>zwr_zone_id = 1, zwr_word_id = 0\<rparr>
      = Some \<lparr>zwr_zone_id = 0, zwr_word_id = 0\<rparr>"
  using buses_invert[of "\<lparr>bus_src = [SiteRef 0, SiteRef 1], bus_dst = [SiteRef 5, SiteRef 6]\<rparr>" 1 6
      "\<lparr>bus_src = [WordRef 0], bus_dst = [WordRef 1]\<rparr>" 0 1
      "\<lparr>bus_src = [\<lparr>zwr_zone_id = 0, zwr_word_id = 0\<rparr>], bus_dst = [\<lparr>zwr_zone_id = 1, zwr_word_id = 0\<rparr>]\<rparr>"
      "\<lparr>zwr_zone_id = 0, zwr_word_id = 0\<rparr>" "\<lparr>zwr_zone_id = 1, zwr_word_id = 0\<rparr>"]
  by (simp add: site_resolve_forward_def word_resolve_forward_def zoned_resolve_forward_def list_get_def)

end
