(* ===== verification/Example_Arch.thy ===== *)
theory Example_Arch
  imports Arch_Types
begin

text \<open>
  The two-zone architecture of the unit tests (\<open>make_valid_two_zone_spec\<close>): two words of
  two sites, a zone with one site bus, one word bus and one entangling pair, a storage zone, and
  one bus between them.  The witnesses of the development are evaluated on it.
\<close>

definition grid_zero :: grid where
  "grid_zero = \<lparr>x_start = F64 0, y_start = F64 0,
     x_spacing = [F64 0x4014000000000000, F64 0x4014000000000000],
     y_spacing = [F64 0x4008000000000000]\<rparr>"

definition grid_one :: grid where
  "grid_one = \<lparr>x_start = F64 0x4034000000000000, y_start = F64 0,
     x_spacing = [F64 0x401E000000000000, F64 0x401E000000000000],
     y_spacing = [F64 0x4010000000000000]\<rparr>"

definition gate_zone :: zone where
  "gate_zone = \<lparr>zone_name = '''', zone_grid = grid_zero,
     site_buses = [\<lparr>bus_src = [SiteRef 0], bus_dst = [SiteRef 1]\<rparr>],
     word_buses = [\<lparr>bus_src = [WordRef 0], bus_dst = [WordRef 1]\<rparr>],
     words_with_site_buses = [0, 1], sites_with_word_buses = [0], entangling_pairs = [(0, 1)]\<rparr>"

definition storage_zone :: zone where
  "storage_zone = \<lparr>zone_name = '''', zone_grid = grid_one, site_buses = [], word_buses = [],
     words_with_site_buses = [], sites_with_word_buses = [], entangling_pairs = []\<rparr>"

definition example_arch :: arch_spec where
  "example_arch = \<lparr>arch_version = \<lparr>major = 2, minor = 0\<rparr>,
     words = [\<lparr>sites = [(0, 0), (0, 1)]\<rparr>, \<lparr>sites = [(1, 0), (1, 1)]\<rparr>],
     zones = [gate_zone, storage_zone],
     zone_buses = [\<lparr>bus_src = [\<lparr>zwr_zone_id = 0, zwr_word_id = 0\<rparr>],
                    bus_dst = [\<lparr>zwr_zone_id = 1, zwr_word_id = 0\<rparr>]\<rparr>],
     modes = [\<lparr>mode_name = ''full'', mode_zones = [0, 1], bitstring_order = []\<rparr>],
     paths = None, feed_forward = False, atom_reloading = False, blockade_radius = None\<rparr>"

lemma example_sizes [simp]:
  "length (words example_arch) = 2" "length (zones example_arch) = 2"
  "sites_per_word example_arch = 2"
  by (simp_all add: example_arch_def sites_per_word_def)

text \<open>The grid of the test is the one its positions give.\<close>
lemma grid_zero_positions:
  "from_positions [F64 0, F64 0x4014000000000000, F64 0x4024000000000000] [F64 0, F64 0x4008000000000000]
     = Returned grid_zero"
  unfolding grid_zero_def by code_simp

end
