(* ===== verification/Arch_Query.thy ===== *)
theory Arch_Query
  imports Bus Example_Arch "HOL-Library.Finite_Map" "HOL-Library.Product_Lexorder"
begin

text \<open>
  Queries on an architecture: \<open>arch/query.rs\<close>.  Lookups, the topology derived from the
  entangling pairs, positions, lane resolution in both directions and the checks of single
  addresses.  A \<open>HashMap\<close> is a finite map; where the code iterates over one, the model does so
  in the order of the keys, and the results are sets.  An error message is the value of its
  format string: one constructor per message, with the numbers it prints.

  Lengths are compared as \<open>u32\<close>, after the cast the code makes.
\<close>

section \<open>Lookups\<close>

definition word_by_id :: "arch_spec \<Rightarrow> u32 \<Rightarrow> arch_word option" where
  "word_by_id a i = list_get (words a) (unat i)"

definition zone_by_id :: "arch_spec \<Rightarrow> u32 \<Rightarrow> zone option" where
  "zone_by_id a i = list_get (zones a) (unat i)"

abbreviation num_zones :: "arch_spec \<Rightarrow> u32" where
  "num_zones a \<equiv> of_nat (length (zones a))"

abbreviation num_words :: "arch_spec \<Rightarrow> u32" where
  "num_words a \<equiv> of_nat (length (words a))"

abbreviation num_sites :: "arch_spec \<Rightarrow> u32" where
  "num_sites a \<equiv> of_nat (sites_per_word a)"

section \<open>Derived topology\<close>

definition word_partner_map :: "arch_spec \<Rightarrow> (u32, u32) fmap" where
  "word_partner_map a =
     foldl (\<lambda>m z. foldl (\<lambda>m (w_a, w_b). fmupd w_b w_a (fmupd w_a w_b m)) m (entangling_pairs z))
       fmempty (zones a)"

text \<open>\<open>map.entry(k).or_insert(v)\<close>.\<close>
definition or_insert :: "'k \<Rightarrow> 'v \<Rightarrow> ('k, 'v) fmap \<Rightarrow> ('k, 'v) fmap" where
  "or_insert k v m = (case fmlookup m k of None \<Rightarrow> fmupd k v m | Some _ \<Rightarrow> m)"

text \<open>The words a zone names, in the order \<open>word_zone_map\<close> visits them.\<close>
definition zone_word_refs :: "zone \<Rightarrow> u32 list" where
  "zone_word_refs z =
     concat (map (\<lambda>(w_a, w_b). [w_a, w_b]) (entangling_pairs z))
     @ concat (map (\<lambda>b. map (\<lambda>w. ucast (word_ref_index w)) (bus_src b)
                         @ map (\<lambda>w. ucast (word_ref_index w)) (bus_dst b)) (word_buses z))
     @ words_with_site_buses z"

definition word_zone_map :: "arch_spec \<Rightarrow> (u32, u32) fmap" where
  "word_zone_map a =
     (let m = foldl (\<lambda>m (i, z). foldl (\<lambda>m w. or_insert w (of_nat i) m) m (zone_word_refs z))
                fmempty (enumerate 0 (zones a))
      in foldl (\<lambda>m wid. or_insert wid 0 m) m (map of_nat [0..<unat (num_words a)]))"

definition map_entries :: "('k::linorder, 'v) fmap \<Rightarrow> ('k \<times> 'v) list" where
  "map_entries m = map (\<lambda>k. (k, the (fmlookup m k))) (sorted_list_of_fset (fmdom m))"

definition left_cz_word_ids :: "arch_spec \<Rightarrow> u32 list" where
  "left_cz_word_ids a =
     (let partner = map_entries (word_partner_map a);
          paired = (\<Union>(w_a, w_b) \<in> set partner. {w_a, w_b});
          home = (\<lambda>(w_a, w_b). min w_a w_b) ` set partner;
          rest = filter (\<lambda>wid. wid \<notin> paired) (map of_nat [0..<unat (num_words a)])
      in sorted_list_of_set (home \<union> set rest))"

definition is_home_position :: "arch_spec \<Rightarrow> location_addr \<Rightarrow> bool" where
  "is_home_position a loc \<longleftrightarrow> loc_word_id loc \<in> set (left_cz_word_ids a)"

definition zone_location_index :: "arch_spec \<Rightarrow> location_addr \<Rightarrow> u32 \<Rightarrow> nat option" where
  "zone_location_index a loc zone_id =
     (if loc_zone_id loc \<noteq> zone_id then None
      else let spw = sites_per_word a; wid = unat (loc_word_id loc); sid = unat (loc_site_id loc)
           in if length (words a) \<le> wid \<or> spw \<le> sid then None else Some (wid * spw + sid))"

definition get_cz_partner :: "arch_spec \<Rightarrow> location_addr \<Rightarrow> location_addr option" where
  "get_cz_partner a loc =
     Option.bind (list_get (zones a) (unat (loc_zone_id loc))) (\<lambda>z.
     Option.bind (find_map (\<lambda>(p, q). if p = loc_word_id loc then Some q
                                      else if q = loc_word_id loc then Some p else None)
                    (entangling_pairs z)) (\<lambda>partner_word.
     Some \<lparr>loc_zone_id = loc_zone_id loc, loc_word_id = partner_word, loc_site_id = loc_site_id loc\<rparr>))"

section \<open>Positions\<close>

definition location_position :: "arch_spec \<Rightarrow> location_addr \<Rightarrow> (f64 \<times> f64) option" where
  "location_position a loc =
     Option.bind (list_get (zones a) (unat (loc_zone_id loc))) (\<lambda>z.
     Option.bind (list_get (words a) (unat (loc_word_id loc))) (\<lambda>w.
     Option.bind (list_get (sites w) (unat (loc_site_id loc))) (\<lambda>(sx, sy).
     Option.bind (x_position (zone_grid z) (unat sx)) (\<lambda>x.
     Option.bind (y_position (zone_grid z) (unat sy)) (\<lambda>y. Some (x, y))))))"

section \<open>Checks of single addresses\<close>

datatype location_error =
    LocZoneRange u32 u32
  | LocWordRange u32 u32
  | LocSiteRange u32 u32

definition check_location :: "arch_spec \<Rightarrow> location_addr \<Rightarrow> location_error option" where
  "check_location a loc =
     (if num_zones a \<le> loc_zone_id loc then Some (LocZoneRange (loc_zone_id loc) (num_zones a))
      else if num_words a \<le> loc_word_id loc then Some (LocWordRange (loc_word_id loc) (num_words a))
      else if num_sites a \<le> loc_site_id loc then Some (LocSiteRange (loc_site_id loc) (num_sites a))
      else None)"

datatype lane_error =
    LaneZoneRange u32 u32
  | LaneWordRange u32
  | LaneSiteRange u32
  | WordNotListed u32 u32
  | SiteNotSource u32 u32 u32
  | UnknownSiteBus u32 u32
  | SiteNotListed u32 u32
  | WordNotSource u32 u32 u32
  | UnknownWordBus u32 u32
  | ZonedNotSource u32 u32 u32
  | UnknownZoneBus u32

definition check_lane_site_bus :: "arch_spec \<Rightarrow> zone \<Rightarrow> lane_addr \<Rightarrow> lane_error list" where
  "check_lane_site_bus a z l =
     (let e1 = err_if (num_words a \<le> lane_word_id l) (LaneWordRange (lane_word_id l))
               @ err_if (num_sites a \<le> lane_site_id l) (LaneSiteRange (lane_site_id l))
      in e1 @
         (case list_get (site_buses z) (unat (lane_bus_id l)) of
            Some bus \<Rightarrow>
              let e2 = err_if (lane_word_id l < num_words a
                                 \<and> lane_word_id l \<notin> set (words_with_site_buses z))
                         (WordNotListed (lane_word_id l) (lane_zone_id l))
              in e2 @ err_if (e1 @ e2 = [] \<and> site_resolve_forward bus (ucast (lane_site_id l)) = None)
                        (SiteNotSource (lane_site_id l) (lane_zone_id l) (lane_bus_id l))
          | None \<Rightarrow> [UnknownSiteBus (lane_bus_id l) (lane_zone_id l)]))"

definition check_lane_word_bus :: "arch_spec \<Rightarrow> zone \<Rightarrow> lane_addr \<Rightarrow> lane_error list" where
  "check_lane_word_bus a z l =
     (let e1 = err_if (num_words a \<le> lane_word_id l) (LaneWordRange (lane_word_id l))
               @ (if num_sites a \<le> lane_site_id l then [LaneSiteRange (lane_site_id l)]
                  else err_if (lane_site_id l \<notin> set (sites_with_word_buses z))
                         (SiteNotListed (lane_site_id l) (lane_zone_id l)))
      in e1 @
         (case list_get (word_buses z) (unat (lane_bus_id l)) of
            Some bus \<Rightarrow>
              err_if (e1 = [] \<and> word_resolve_forward bus (ucast (lane_word_id l)) = None)
                (WordNotSource (lane_word_id l) (lane_zone_id l) (lane_bus_id l))
          | None \<Rightarrow> [UnknownWordBus (lane_bus_id l) (lane_zone_id l)]))"

definition zoned_source :: "lane_addr \<Rightarrow> zoned_word_ref" where
  "zoned_source l = \<lparr>zwr_zone_id = ucast (lane_zone_id l), zwr_word_id = ucast (lane_word_id l)\<rparr>"

definition check_lane_zone_bus :: "arch_spec \<Rightarrow> lane_addr \<Rightarrow> lane_error list" where
  "check_lane_zone_bus a l =
     (let e1 = err_if (num_words a \<le> lane_word_id l) (LaneWordRange (lane_word_id l))
               @ err_if (num_sites a \<le> lane_site_id l) (LaneSiteRange (lane_site_id l))
      in e1 @
         (case list_get (zone_buses a) (unat (lane_bus_id l)) of
            Some bus \<Rightarrow>
              err_if (e1 = [] \<and> zoned_resolve_forward bus (zoned_source l) = None)
                (ZonedNotSource (lane_zone_id l) (lane_word_id l) (lane_bus_id l))
          | None \<Rightarrow> [UnknownZoneBus (lane_bus_id l)]))"

definition check_lane :: "arch_spec \<Rightarrow> lane_addr \<Rightarrow> lane_error list" where
  "check_lane a l =
     (if num_zones a \<le> lane_zone_id l then [LaneZoneRange (lane_zone_id l) (num_zones a)]
      else let z = zones a ! unat (lane_zone_id l)
           in case lane_move_type l of
                SiteBus \<Rightarrow> check_lane_site_bus a z l
              | WordBus \<Rightarrow> check_lane_word_bus a z l
              | ZoneBus \<Rightarrow> check_lane_zone_bus a l)"

definition check_zone :: "arch_spec \<Rightarrow> zone_addr \<Rightarrow> u32 option" where
  "check_zone a z = (if zone_by_id a (za_zone_id z) = None then Some (za_zone_id z) else None)"

section \<open>Lanes and their endpoints\<close>

text \<open>The forward source of a lane, which its address names whatever its direction.\<close>
definition lane_origin :: "lane_addr \<Rightarrow> location_addr" where
  "lane_origin l =
     \<lparr>loc_zone_id = lane_zone_id l, loc_word_id = lane_word_id l, loc_site_id = lane_site_id l\<rparr>"

definition lane_forward_dst :: "arch_spec \<Rightarrow> zone \<Rightarrow> lane_addr \<Rightarrow> location_addr option" where
  "lane_forward_dst a z l =
     (case lane_move_type l of
        SiteBus \<Rightarrow>
          Option.bind (list_get (site_buses z) (unat (lane_bus_id l))) (\<lambda>bus.
          Option.bind (site_resolve_forward bus (ucast (lane_site_id l))) (\<lambda>dst_site.
          Some ((lane_origin l)\<lparr>loc_site_id := ucast dst_site\<rparr>)))
      | WordBus \<Rightarrow>
          Option.bind (list_get (word_buses z) (unat (lane_bus_id l))) (\<lambda>bus.
          Option.bind (word_resolve_forward bus (ucast (lane_word_id l))) (\<lambda>dst_word.
          Some ((lane_origin l)\<lparr>loc_word_id := ucast dst_word\<rparr>)))
      | ZoneBus \<Rightarrow>
          Option.bind (list_get (zone_buses a) (unat (lane_bus_id l))) (\<lambda>bus.
          Option.bind (zoned_resolve_forward bus (zoned_source l)) (\<lambda>dst_ref.
          Some ((lane_origin l)\<lparr>loc_zone_id := ucast (zwr_zone_id dst_ref),
                  loc_word_id := ucast (zwr_word_id dst_ref)\<rparr>))))"

definition lane_endpoints :: "arch_spec \<Rightarrow> lane_addr \<Rightarrow> (location_addr \<times> location_addr) option" where
  "lane_endpoints a l =
     (if check_lane a l \<noteq> [] then None
      else Option.bind (zone_by_id a (lane_zone_id l)) (\<lambda>z.
           Option.bind (lane_forward_dst a z l) (\<lambda>fwd_dst.
           case lane_direction l of
             Forward \<Rightarrow> Some (lane_origin l, fwd_dst)
           | Backward \<Rightarrow> Some (fwd_dst, lane_origin l))))"

definition check_lane_candidate ::
  "arch_spec \<Rightarrow> move_type \<Rightarrow> location_addr \<Rightarrow> location_addr \<Rightarrow> u32 \<Rightarrow> direction \<Rightarrow> lane_addr option" where
  "check_lane_candidate a mt origin target bus_id dir =
     (let lane = \<lparr>lane_direction = dir, lane_move_type = mt, lane_zone_id = loc_zone_id origin,
                  lane_word_id = loc_word_id origin, lane_site_id = loc_site_id origin,
                  lane_bus_id = bus_id\<rparr>
      in Option.bind (lane_endpoints a lane) (\<lambda>(s, d).
         let (expected_src, expected_dst) =
               (case dir of Forward \<Rightarrow> (s, d) | Backward \<Rightarrow> (d, s))
         in if expected_src = origin \<and> expected_dst = target then Some lane else None))"

text \<open>The loop over the bus indices.\<close>
definition try_buses ::
  "arch_spec \<Rightarrow> move_type \<Rightarrow> nat \<Rightarrow> location_addr \<Rightarrow> location_addr \<Rightarrow> direction \<Rightarrow> lane_addr option" where
  "try_buses a mt n origin target dir =
     find_map (\<lambda>i. check_lane_candidate a mt origin target (of_nat i) dir) [0..<n]"

definition try_lane_from_location ::
  "arch_spec \<Rightarrow> location_addr \<Rightarrow> location_addr \<Rightarrow> direction \<Rightarrow> lane_addr option" where
  "try_lane_from_location a origin target dir =
     Option.bind (list_get (zones a) (unat (loc_zone_id origin))) (\<lambda>z.
     or_else (if loc_word_id origin \<in> set (words_with_site_buses z)
              then try_buses a SiteBus (length (site_buses z)) origin target dir else None)
    (or_else (if loc_site_id origin \<in> set (sites_with_word_buses z)
              then try_buses a WordBus (length (word_buses z)) origin target dir else None)
             (try_buses a ZoneBus (length (zone_buses a)) origin target dir)))"

definition lane_for_endpoints ::
  "arch_spec \<Rightarrow> location_addr \<Rightarrow> location_addr \<Rightarrow> lane_addr option" where
  "lane_for_endpoints a src dst =
     or_else (try_lane_from_location a src dst Forward) (try_lane_from_location a dst src Backward)"

section \<open>What the checks decide\<close>

lemma less_of_natD: "(w :: 'a::len word) < of_nat n \<Longrightarrow> unat w < n"
proof -
  assume "w < of_nat n"
  then have "unat w < unat (of_nat n :: 'a word)" by (simp add: word_less_nat_alt)
  also have "\<dots> \<le> n" by (simp add: unsigned_of_nat take_bit_eq_mod)
  finally show ?thesis .
qed

lemma less_of_nat_iff: "n < 2 ^ LENGTH('a) \<Longrightarrow> (w :: 'a::len word) < of_nat n \<longleftrightarrow> unat w < n"
  by (simp add: word_less_nat_alt unsigned_of_nat take_bit_nat_eq_self)

definition location_valid :: "arch_spec \<Rightarrow> location_addr \<Rightarrow> bool" where
  "location_valid a loc \<longleftrightarrow>
     loc_zone_id loc < num_zones a \<and> loc_word_id loc < num_words a \<and> loc_site_id loc < num_sites a"

lemma check_location_None_iff: "check_location a loc = None \<longleftrightarrow> location_valid a loc"
  by (auto simp: check_location_def location_valid_def)

text \<open>A lane is valid when its address is in range, its bus exists, its word or site is on the
  membership list of its move type and its bus leads somewhere from its source.\<close>
definition lane_valid :: "arch_spec \<Rightarrow> lane_addr \<Rightarrow> bool" where
  "lane_valid a l \<longleftrightarrow> location_valid a (lane_origin l) \<and>
     (let z = zones a ! unat (lane_zone_id l); bid = unat (lane_bus_id l)
      in case lane_move_type l of
           SiteBus \<Rightarrow> bid < length (site_buses z) \<and> lane_word_id l \<in> set (words_with_site_buses z)
             \<and> site_resolve_forward (site_buses z ! bid) (ucast (lane_site_id l)) \<noteq> None
         | WordBus \<Rightarrow> bid < length (word_buses z) \<and> lane_site_id l \<in> set (sites_with_word_buses z)
             \<and> word_resolve_forward (word_buses z ! bid) (ucast (lane_word_id l)) \<noteq> None
         | ZoneBus \<Rightarrow> bid < length (zone_buses a)
             \<and> zoned_resolve_forward (zone_buses a ! bid) (zoned_source l) \<noteq> None)"

lemma lane_origin_sel [simp]:
  "loc_zone_id (lane_origin l) = lane_zone_id l" "loc_word_id (lane_origin l) = lane_word_id l"
  "loc_site_id (lane_origin l) = lane_site_id l"
  by (simp_all add: lane_origin_def)

lemma check_lane_Nil_iff: "check_lane a l = [] \<longleftrightarrow> lane_valid a l"
proof (cases "lane_move_type l")
  case SiteBus
  then show ?thesis
    by (auto simp: check_lane_def check_lane_site_bus_def lane_valid_def location_valid_def Let_def
        not_le not_less split: option.splits)
next
  case WordBus
  then show ?thesis
    by (auto simp: check_lane_def check_lane_word_bus_def lane_valid_def location_valid_def Let_def
        not_le not_less split: option.splits)
next
  case ZoneBus
  then show ?thesis
    by (auto simp: check_lane_def check_lane_zone_bus_def lane_valid_def location_valid_def Let_def
        not_le not_less split: option.splits)
qed

lemma lane_valid_zone: "lane_valid a l \<Longrightarrow> zone_by_id a (lane_zone_id l) = Some (zones a ! unat (lane_zone_id l))"
  by (auto simp: lane_valid_def location_valid_def zone_by_id_def dest: less_of_natD)

lemma lane_valid_forward:
  "lane_valid a l \<Longrightarrow> lane_forward_dst a (zones a ! unat (lane_zone_id l)) l \<noteq> None"
  by (cases "lane_move_type l") (auto simp: lane_valid_def lane_forward_dst_def Let_def list_get_in)

text \<open>The specification of \<open>lane_endpoints\<close>: a valid lane joins its origin to the place its bus
  leads to, in the order its direction says, and nothing else has endpoints.\<close>
lemma lane_endpoints_Some_iff:
  "lane_endpoints a l = Some (s, d) \<longleftrightarrow> lane_valid a l \<and>
     (\<exists>far. lane_forward_dst a (zones a ! unat (lane_zone_id l)) l = Some far \<and>
        (s, d) = (case lane_direction l of Forward \<Rightarrow> (lane_origin l, far)
                  | Backward \<Rightarrow> (far, lane_origin l)))"
  using lane_valid_zone[of a l]
  by (cases "lane_direction l")
    (auto simp: lane_endpoints_def check_lane_Nil_iff bind_eq_Some_conv)

lemma lane_endpoints_defined_iff: "lane_endpoints a l \<noteq> None \<longleftrightarrow> lane_valid a l"
proof
  assume "lane_valid a l"
  moreover from this obtain far where
    "lane_forward_dst a (zones a ! unat (lane_zone_id l)) l = Some far"
    using lane_valid_forward by blast
  ultimately show "lane_endpoints a l \<noteq> None"
    using lane_endpoints_Some_iff[of a l] by (cases "lane_direction l") fastforce+
qed (auto simp: lane_endpoints_Some_iff)

definition reversed :: "lane_addr \<Rightarrow> lane_addr" where
  "reversed l = l\<lparr>lane_direction := (case lane_direction l of Forward \<Rightarrow> Backward | Backward \<Rightarrow> Forward)\<rparr>"

lemma reversed_sel [simp]:
  "lane_move_type (reversed l) = lane_move_type l" "lane_zone_id (reversed l) = lane_zone_id l"
  "lane_word_id (reversed l) = lane_word_id l" "lane_site_id (reversed l) = lane_site_id l"
  "lane_bus_id (reversed l) = lane_bus_id l" "lane_origin (reversed l) = lane_origin l"
  "zoned_source (reversed l) = zoned_source l"
  by (simp_all add: reversed_def lane_origin_def zoned_source_def)

lemma reversed_valid [simp]: "lane_valid a (reversed l) = lane_valid a l"
  by (cases "lane_move_type l") (simp_all add: lane_valid_def)

lemma reversed_forward_dst [simp]: "lane_forward_dst a z (reversed l) = lane_forward_dst a z l"
  by (cases "lane_move_type l") (simp_all add: lane_forward_dst_def)

lemma endpoints_reversed:
  "lane_endpoints a l = Some (s, d) \<Longrightarrow> lane_endpoints a (reversed l) = Some (d, s)"
  by (cases "lane_direction l") (auto simp: lane_endpoints_Some_iff, simp_all add: reversed_def)

section \<open>Finding the lane between two locations\<close>

lemma candidate_SomeD:
  "check_lane_candidate a mt origin target b dir = Some l \<Longrightarrow>
     lane_endpoints a l = Some (if dir = Forward then (origin, target) else (target, origin))"
  by (cases dir) (auto simp: check_lane_candidate_def bind_eq_Some_conv Let_def split: if_splits)

lemma candidate_complete:
  assumes "lane_endpoints a l = Some (s, d)" "lane_direction l = dir"
    "(origin, target) = (if dir = Forward then (s, d) else (d, s))"
  shows "check_lane_candidate a (lane_move_type l) origin target (lane_bus_id l) dir = Some l"
proof -
  have "origin = lane_origin l"
    using assms by (cases dir) (auto simp: lane_endpoints_Some_iff)
  then have "\<lparr>lane_direction = dir, lane_move_type = lane_move_type l, lane_zone_id = loc_zone_id origin,
      lane_word_id = loc_word_id origin, lane_site_id = loc_site_id origin,
      lane_bus_id = lane_bus_id l\<rparr> = l"
    using assms(2) by simp
  then show ?thesis
    using assms by (cases dir) (auto simp: check_lane_candidate_def)
qed

lemma try_lane_SomeD:
  "try_lane_from_location a origin target dir = Some l \<Longrightarrow>
     lane_endpoints a l = Some (if dir = Forward then (origin, target) else (target, origin))"
  by (auto simp: try_lane_from_location_def bind_eq_Some_conv try_buses_def
      dest!: or_else_SomeD find_map_SomeD candidate_SomeD split: if_splits)

lemma try_buses_defined:
  assumes "lane_endpoints a l = Some (s, d)" "lane_direction l = dir"
    "(origin, target) = (if dir = Forward then (s, d) else (d, s))" "unat (lane_bus_id l) < n"
  shows "try_buses a (lane_move_type l) n origin target dir \<noteq> None"
  unfolding try_buses_def find_map_None_iff
  using candidate_complete[OF assms(1-3)] assms(4) by (auto intro!: bexI[of _ "unat (lane_bus_id l)"])

lemma try_lane_defined:
  assumes "lane_endpoints a l = Some (s, d)" "lane_direction l = dir"
    "(origin, target) = (if dir = Forward then (s, d) else (d, s))"
  shows "try_lane_from_location a origin target dir \<noteq> None"
proof -
  have valid: "lane_valid a l" and origin: "origin = lane_origin l"
    using assms by (cases dir; auto simp: lane_endpoints_Some_iff)+
  define z where "z = zones a ! unat (lane_zone_id l)"
  have z: "list_get (zones a) (unat (lane_zone_id l)) = Some z"
    using lane_valid_zone[OF valid] by (simp add: zone_by_id_def z_def)
  note hit = try_buses_defined[OF assms]
  show ?thesis
    using valid hit[of "length (site_buses z)"] hit[of "length (word_buses z)"] hit[of "length (zone_buses a)"]
    by (cases "lane_move_type l")
      (auto simp: try_lane_from_location_def origin z lane_valid_def Let_def z_def[symmetric])
qed

lemma lane_for_endpoints_SomeD:
  "lane_for_endpoints a src dst = Some l \<Longrightarrow> lane_endpoints a l = Some (src, dst)"
  by (auto simp: lane_for_endpoints_def dest!: or_else_SomeD try_lane_SomeD)

lemma lane_for_endpoints_defined:
  assumes "lane_endpoints a l = Some (src, dst)"
  shows "lane_for_endpoints a src dst \<noteq> None"
proof (cases "lane_direction l")
  case Forward
  then show ?thesis
    using try_lane_defined[OF assms, of Forward src dst] by (simp add: lane_for_endpoints_def)
next
  case Backward
  then show ?thesis
    using try_lane_defined[OF assms, of Backward dst src] by (simp add: lane_for_endpoints_def)
qed

section \<open>The topology of the entangling pairs\<close>

definition all_pairs :: "arch_spec \<Rightarrow> (u32 \<times> u32) list" where
  "all_pairs a = concat (map entangling_pairs (zones a))"

definition insert_pair :: "(u32, u32) fmap \<Rightarrow> u32 \<times> u32 \<Rightarrow> (u32, u32) fmap" where
  "insert_pair m = (\<lambda>(w_a, w_b). fmupd w_b w_a (fmupd w_a w_b m))"

lemma foldl_concat: "foldl (\<lambda>m z. foldl f m (g z)) m zs = foldl f m (concat (map g zs))"
  by (induction zs arbitrary: m) auto

lemma word_partner_map_pairs: "word_partner_map a = foldl insert_pair fmempty (all_pairs a)"
  unfolding word_partner_map_def all_pairs_def insert_pair_def[abs_def] foldl_concat ..

lemma insert_pairs_lookup:
  "fmlookup (foldl insert_pair m ps) w = Some v \<Longrightarrow>
     (w, v) \<in> set ps \<or> (v, w) \<in> set ps \<or> fmlookup m w = Some v"
proof (induction ps arbitrary: m)
  case (Cons p ps)
  from Cons.prems Cons.IH[of "insert_pair m p"] show ?case
    by (cases p) (auto simp: insert_pair_def split: if_splits)
qed simp

lemma insert_pairs_dom:
  "fmdom' (foldl insert_pair m ps) = fmdom' m \<union> fst ` set ps \<union> snd ` set ps"
  by (induction ps arbitrary: m) (auto simp: insert_pair_def)

lemma partner_lookupD: "fmlookup (word_partner_map a) w = Some v \<Longrightarrow> (w, v) \<in> set (all_pairs a) \<or> (v, w) \<in> set (all_pairs a)"
  using insert_pairs_lookup[of fmempty "all_pairs a" w v] by (simp add: word_partner_map_pairs)

lemma partner_dom: "fmdom' (word_partner_map a) = fst ` set (all_pairs a) \<union> snd ` set (all_pairs a)"
  by (simp add: word_partner_map_pairs insert_pairs_dom)

text \<open>No word is in two different pairs.\<close>
definition matching :: "(u32 \<times> u32) list \<Rightarrow> bool" where
  "matching ps \<longleftrightarrow> (\<forall>(p, q) \<in> set ps. \<forall>(r, s) \<in> set ps. {p, q} \<inter> {r, s} \<noteq> {} \<longrightarrow> {p, q} = {r, s})"

lemma matchingD:
  "matching ps \<Longrightarrow> (p, q) \<in> set ps \<Longrightarrow> (r, s) \<in> set ps \<Longrightarrow> {p, q} \<inter> {r, s} \<noteq> {} \<Longrightarrow> {p, q} = {r, s}"
  unfolding matching_def by fast

lemma matching_pairD:
  assumes "matching ps" "(w, v) \<in> set ps \<or> (v, w) \<in> set ps" "(w, u) \<in> set ps \<or> (u, w) \<in> set ps"
  shows "v = u"
proof -
  obtain p q where pq: "(p, q) \<in> set ps" "{p, q} = {w, v}" using assms(2) by (auto intro: that)
  obtain r s where rs: "(r, s) \<in> set ps" "{r, s} = {w, u}" using assms(3) by (auto intro: that)
  have "{w, v} = {w, u}" using matchingD[OF assms(1) pq(1) rs(1)] pq(2) rs(2) by simp
  then show ?thesis by (simp only: doubleton_eq_iff) auto
qed

lemma partner_lookup_iff:
  assumes "matching (all_pairs a)"
  shows "fmlookup (word_partner_map a) w = Some v \<longleftrightarrow> (w, v) \<in> set (all_pairs a) \<or> (v, w) \<in> set (all_pairs a)"
proof
  assume pair: "(w, v) \<in> set (all_pairs a) \<or> (v, w) \<in> set (all_pairs a)"
  then have "w \<in> fmdom' (word_partner_map a)" by (force simp: partner_dom)
  then obtain u where u: "fmlookup (word_partner_map a) w = Some u" by (auto simp: fmlookup_dom'_iff)
  then have "(w, u) \<in> set (all_pairs a) \<or> (u, w) \<in> set (all_pairs a)" by (rule partner_lookupD)
  with pair have "v = u" using matching_pairD[OF assms] by simp
  with u show "fmlookup (word_partner_map a) w = Some v" by simp
qed (rule partner_lookupD)

lemma set_map_entries: "set (map_entries m) = {(k, v). fmlookup m k = Some v}"
  by (force simp: map_entries_def fmdom'_notI fmlookup_dom'_iff simp flip: fmdom'_alt_def)

lemma left_cz_in_iff:
  "w \<in> set (left_cz_word_ids a) \<longleftrightarrow>
     (\<exists>p q. fmlookup (word_partner_map a) p = Some q \<and> w = min p q)
     \<or> (w < num_words a
        \<and> (\<forall>p q. fmlookup (word_partner_map a) p = Some q \<longrightarrow> w \<noteq> p \<and> w \<noteq> q))"
proof -
  have range: "w \<in> of_nat ` {0..<unat (num_words a)} \<longleftrightarrow> w < num_words a" for w :: u32
    by (auto simp: word_less_nat_alt image_iff unsigned_of_nat take_bit_nat_eq_self_iff
        intro!: bexI[of _ "unat w"]) (metis order_le_less_trans take_bit_nat_less_eq_self)
  have "finite (set (map_entries (word_partner_map a)))" by simp
  then show ?thesis
    unfolding left_cz_word_ids_def Let_def
    by (subst sorted_list_of_set.set_sorted_key_list_of_set)
      (auto simp: set_map_entries range[symmetric] image_iff)
qed

lemma left_cz_sorted: "sorted_wrt (<) (left_cz_word_ids a)"
  unfolding left_cz_word_ids_def Let_def by (rule strict_sorted_list_of_set)

lemma left_cz_matching_iff:
  assumes "matching (all_pairs a)"
  shows "w \<in> set (left_cz_word_ids a) \<longleftrightarrow>
     (\<exists>v. w \<le> v \<and> ((w, v) \<in> set (all_pairs a) \<or> (v, w) \<in> set (all_pairs a)))
     \<or> (w < num_words a \<and> (\<forall>v. (w, v) \<notin> set (all_pairs a) \<and> (v, w) \<notin> set (all_pairs a)))"
  unfolding left_cz_in_iff partner_lookup_iff[OF assms]
  by (auto simp: min_def split: if_splits)

subsection \<open>The zone of a word\<close>

lemma or_insert_lookup:
  "fmlookup (or_insert k v m) w = or_else (fmlookup m w) (if w = k then Some v else None)"
  by (auto simp: or_insert_def or_else_def split: option.splits)

lemma or_else_assoc: "or_else (or_else a b) c = or_else a (or_else b c)"
  by (cases a) auto

lemma or_else_None_right [simp]: "or_else a None = a"
  by (cases a) auto

lemma or_inserts_lookup:
  "fmlookup (foldl (\<lambda>m w. or_insert w v m) m ws) w =
     or_else (fmlookup m w) (if w \<in> set ws then Some v else None)"
  by (induction ws arbitrary: m) (auto simp: or_insert_lookup or_else_assoc)

lemma zone_inserts_lookup:
  "fmlookup (foldl (\<lambda>m (i, z). foldl (\<lambda>m w. or_insert w (f i) m) m (g z)) m (enumerate n zs)) w =
     or_else (fmlookup m w) (map_option (\<lambda>i. f (n + i)) (position (\<lambda>z. w \<in> set (g z)) zs))"
proof (induction zs arbitrary: m n)
  case (Cons z zs)
  then show ?case
    by (cases "w \<in> set (g z)")
      (auto simp: or_inserts_lookup or_else_assoc option.map_comp comp_def)
qed (simp add: or_else_def split: option.splits)

lemma word_range: "w \<in> set (map of_nat [0..<unat (num_words a)]) \<longleftrightarrow> w < num_words a"
proof
  assume "w < num_words a"
  then have "unat w < unat (num_words a)" by (simp add: word_less_nat_alt)
  then show "w \<in> set (map of_nat [0..<unat (num_words a)])" by (auto intro!: image_eqI[of _ _ "unat w"])
next
  assume "w \<in> set (map of_nat [0..<unat (num_words a)])"
  then obtain n where n: "w = of_nat n" "n < unat (num_words a)" by auto
  then have "unat w \<le> n" by (simp add: unsigned_of_nat take_bit_eq_mod)
  with n show "w < num_words a" by (simp add: word_less_nat_alt)
qed

subsection \<open>Partners\<close>

definition pair_partner :: "(u32 \<times> u32) list \<Rightarrow> u32 \<Rightarrow> u32 option" where
  "pair_partner ps w =
     find_map (\<lambda>(p, q). if p = w then Some q else if q = w then Some p else None) ps"

lemma pair_partner_SomeD: "pair_partner ps w = Some v \<Longrightarrow> (w, v) \<in> set ps \<or> (v, w) \<in> set ps"
  by (auto simp: pair_partner_def dest!: find_map_SomeD split: if_splits)

lemma pair_partner_None_iff:
  "pair_partner ps w = None \<longleftrightarrow> (\<forall>v. (w, v) \<notin> set ps \<and> (v, w) \<notin> set ps)"
  by (fastforce simp: pair_partner_def split: if_splits)

lemma pair_partner_sym:
  assumes "matching ps" "pair_partner ps w = Some v"
  shows "pair_partner ps v = Some w"
proof -
  have pair: "(v, w) \<in> set ps \<or> (w, v) \<in> set ps" using pair_partner_SomeD[OF assms(2)] by blast
  then have "pair_partner ps v \<noteq> None" by (auto simp: pair_partner_None_iff)
  then obtain u where u: "pair_partner ps v = Some u" by blast
  have "w = u" using matching_pairD[OF assms(1) pair] pair_partner_SomeD[OF u] by blast
  with u show ?thesis by simp
qed

lemma bind_Some_map: "Option.bind x (\<lambda>w. Some (f w)) = map_option f x"
  by (cases x) auto

lemma loc_with_word:
  "\<lparr>loc_zone_id = loc_zone_id l, loc_word_id = w, loc_site_id = loc_site_id l\<rparr> = l\<lparr>loc_word_id := w\<rparr>"
  by simp

lemma get_cz_partner_eq:
  "get_cz_partner a loc =
     Option.bind (zone_by_id a (loc_zone_id loc)) (\<lambda>z.
       map_option (\<lambda>w. loc\<lparr>loc_word_id := w\<rparr>) (pair_partner (entangling_pairs z) (loc_word_id loc)))"
  unfolding get_cz_partner_def zone_by_id_def pair_partner_def bind_Some_map loc_with_word ..

section \<open>Properties\<close>

text \<open>C28. Endpoints: a lane address has endpoints exactly when \<open>check_lane\<close> finds nothing wrong
  with it, and the lane in the opposite direction has the same endpoints, swapped.\<close>
theorem lane_endpoints_valid_and_reversed:
  "(lane_endpoints a l \<noteq> None \<longleftrightarrow> check_lane a l = [])
   \<and> lane_endpoints a (reversed l) = map_option prod.swap (lane_endpoints a l)"
proof (cases "lane_endpoints a l")
  case None
  then have "\<not> lane_valid a l" using lane_endpoints_defined_iff[of a l] by simp
  moreover from this have "lane_endpoints a (reversed l) = None"
    using lane_endpoints_defined_iff[of a "reversed l"] by (simp only: reversed_valid) blast
  ultimately show ?thesis using None by (simp add: check_lane_Nil_iff)
next
  case (Some e)
  then show ?thesis
    using lane_endpoints_defined_iff[of a l] endpoints_reversed[of a l "fst e" "snd e"]
    by (simp add: check_lane_Nil_iff prod.swap_def)
qed

text \<open>C26. The reverse lookup is sound and complete: the lane it returns joins the two locations
  in that order, and it returns none only when no lane of the architecture joins them.\<close>
theorem lane_for_endpoints_spec:
  "case lane_for_endpoints a src dst of
     Some l \<Rightarrow> lane_endpoints a l = Some (src, dst)
   | None \<Rightarrow> \<not> (\<exists>l. lane_endpoints a l = Some (src, dst))"
  by (auto dest: lane_for_endpoints_SomeD lane_for_endpoints_defined split: option.split)

text \<open>The flat index numbers the locations of a zone: an index is produced exactly for the
  locations of that zone that are in range, it is below words times sites, and word and site are
  its quotient and remainder, so different locations of a zone have different indices.\<close>
theorem zone_location_index_spec:
  "zone_location_index a loc zid = Some i \<longleftrightarrow>
     loc_zone_id loc = zid \<and> i < length (words a) * sites_per_word a
     \<and> unat (loc_word_id loc) = i div sites_per_word a
     \<and> unat (loc_site_id loc) = i mod sites_per_word a" (is "?L \<longleftrightarrow> ?R")
proof
  assume ?L
  then have s: "unat (loc_site_id loc) < sites_per_word a" "unat (loc_word_id loc) < length (words a)"
    "loc_zone_id loc = zid"
    and i: "i = unat (loc_word_id loc) * sites_per_word a + unat (loc_site_id loc)"
    by (auto simp: zone_location_index_def Let_def split: if_splits)
  have "i < (unat (loc_word_id loc) + 1) * sites_per_word a" using s i by simp
  also have "\<dots> \<le> length (words a) * sites_per_word a" using s by (intro mult_le_mono1) simp
  finally show ?R using s i by simp
next
  assume r: ?R
  then have pos: "0 < sites_per_word a" by (cases "sites_per_word a = 0") auto
  moreover have "i div sites_per_word a < length (words a)"
    using r by (simp add: less_mult_imp_div_less)
  ultimately show ?L using r by (simp add: zone_location_index_def Let_def not_le)
qed

text \<open>Home words: the list is strictly increasing and, when no word is in two different
  entangling pairs, holds exactly the lower word of each pair and the words in no pair.\<close>
theorem left_cz_word_ids_spec:
  assumes "matching (all_pairs a)"
  shows "sorted_wrt (<) (left_cz_word_ids a)
    \<and> (\<forall>w. w \<in> set (left_cz_word_ids a) \<longleftrightarrow>
       (\<exists>v. w \<le> v \<and> ((w, v) \<in> set (all_pairs a) \<or> (v, w) \<in> set (all_pairs a)))
       \<or> (w < num_words a \<and> (\<forall>v. (w, v) \<notin> set (all_pairs a) \<and> (v, w) \<notin> set (all_pairs a))))"
  using left_cz_sorted left_cz_matching_iff[OF assms] by blast

theorem left_cz_word_ids_spec_witness:
  "matching (all_pairs example_arch) \<and> 0 \<in> set (left_cz_word_ids example_arch)"
proof -
  have pairs: "all_pairs example_arch = [(0, 1)]"
    by (simp add: all_pairs_def example_arch_def gate_zone_def storage_zone_def)
  then have m: "matching (all_pairs example_arch)" by (simp add: matching_def)
  have "(0 :: u32) \<le> 1 \<and> (0, 1) \<in> set (all_pairs example_arch)" by (simp add: pairs)
  with left_cz_word_ids_spec[OF m] m show ?thesis by blast
qed

text \<open>The zone of a word is the first zone that names it in a pair, a word bus or its list of
  site-bus words; a word that no zone names but that exists is given to zone 0, and no other
  word is mapped.\<close>
theorem word_zone_map_spec:
  "fmlookup (word_zone_map a) w =
     (case position (\<lambda>z. w \<in> set (zone_word_refs z)) (zones a) of
        Some i \<Rightarrow> Some (of_nat i)
      | None \<Rightarrow> if w < num_words a then Some 0 else None)"
proof -
  have "fmlookup (word_zone_map a) w =
     or_else (map_option of_nat (position (\<lambda>z. w \<in> set (zone_word_refs z)) (zones a)))
       (if w < num_words a then Some 0 else None)"
    unfolding word_zone_map_def Let_def or_inserts_lookup zone_inserts_lookup word_range by simp
  then show ?thesis
    by (cases "position (\<lambda>z. w \<in> set (zone_word_refs z)) (zones a)")
      (simp_all only: option.map or_else_simps option.case)
qed

text \<open>Entangling partners are symmetric in a zone whose pairs share no word: the partner of
  a location's partner is the location itself, and a location has no partner exactly when its zone
  does not exist or no pair of its zone names its word.\<close>
theorem get_cz_partner_involution:
  assumes "zone_by_id a (loc_zone_id loc) = Some z" "matching (entangling_pairs z)"
    "get_cz_partner a loc = Some p"
  shows "get_cz_partner a p = Some loc \<and> loc_zone_id p = loc_zone_id loc \<and> loc_site_id p = loc_site_id loc
    \<and> ((loc_word_id loc, loc_word_id p) \<in> set (entangling_pairs z)
       \<or> (loc_word_id p, loc_word_id loc) \<in> set (entangling_pairs z))"
proof -
  obtain w where w: "pair_partner (entangling_pairs z) (loc_word_id loc) = Some w"
    and p: "p = loc\<lparr>loc_word_id := w\<rparr>"
    using assms(1,3) by (auto simp: get_cz_partner_eq)
  have "get_cz_partner a p = Some loc"
    using assms(1) pair_partner_sym[OF assms(2) w] by (simp add: get_cz_partner_eq p)
  then show ?thesis using pair_partner_SomeD[OF w] by (simp add: p)
qed

theorem get_cz_partner_involution_witness:
  "get_cz_partner example_arch \<lparr>loc_zone_id = 0, loc_word_id = 1, loc_site_id = 1\<rparr>
     = Some \<lparr>loc_zone_id = 0, loc_word_id = 0, loc_site_id = 1\<rparr>"
  using get_cz_partner_involution[of example_arch "\<lparr>loc_zone_id = 0, loc_word_id = 0, loc_site_id = 1\<rparr>"
      gate_zone "\<lparr>loc_zone_id = 0, loc_word_id = 1, loc_site_id = 1\<rparr>"]
  by (simp add: zone_by_id_def example_arch_def gate_zone_def matching_def get_cz_partner_def list_get_def)

end
