(* ===== verification/Arch_Groups.thy ===== *)
theory Arch_Groups
  imports Arch_Query
begin

text \<open>
  Checks of groups of addresses: the group-level part of \<open>arch/query.rs\<close>.  A group of lanes
  moves together, so it must share one bus, stay on the membership lists and form a complete grid
  of positions.  The locale \<open>group_check\<close> is the loop both group checks begin with: each
  encoded address is checked once and reported once when it occurs again.
\<close>

section \<open>The group checks\<close>

datatype location_group_error =
    DuplicateLocation u64
  | InvalidLocation u32 u32 u32

definition check_locations :: "arch_spec \<Rightarrow> location_addr list \<Rightarrow> location_group_error list" where
  "check_locations a locations =
     for_each (first_scan location_encode {} locations)
       (\<lambda>loc. err_if (check_location a loc \<noteq> None)
                (InvalidLocation (loc_zone_id loc) (loc_word_id loc) (loc_site_id loc)))
     @ map (\<lambda>loc. DuplicateLocation (location_encode loc)) (dup_scan location_encode {} {} locations)"

datatype consistency_error =
    ZoneMismatch u32 u32
  | BusMismatch u32 u32
  | MoveTypeMismatch move_type move_type
  | DirectionMismatch direction direction

definition check_lane_group_consistency :: "lane_addr list \<Rightarrow> consistency_error list" where
  "check_lane_group_consistency lanes =
     (case lanes of [] \<Rightarrow> []
      | first # rest \<Rightarrow> for_each rest (\<lambda>lane.
          err_if (lane_zone_id lane \<noteq> lane_zone_id first)
            (ZoneMismatch (lane_zone_id first) (lane_zone_id lane))
          @ err_if (lane_bus_id lane \<noteq> lane_bus_id first)
              (BusMismatch (lane_bus_id first) (lane_bus_id lane))
          @ err_if (lane_move_type lane \<noteq> lane_move_type first)
              (MoveTypeMismatch (lane_move_type first) (lane_move_type lane))
          @ err_if (lane_direction lane \<noteq> lane_direction first)
              (DirectionMismatch (lane_direction first) (lane_direction lane))))"

definition bad_words_of :: "arch_spec \<Rightarrow> lane_addr \<Rightarrow> u32 list" where
  "bad_words_of a lane =
     (case list_get (zones a) (unat (lane_zone_id lane)) of None \<Rightarrow> []
      | Some z \<Rightarrow> (case lane_move_type lane of
            SiteBus \<Rightarrow> err_if (lane_word_id lane \<notin> set (words_with_site_buses z)) (lane_word_id lane)
          | WordBus \<Rightarrow> [] | ZoneBus \<Rightarrow> []))"

definition bad_sites_of :: "arch_spec \<Rightarrow> lane_addr \<Rightarrow> u32 list" where
  "bad_sites_of a lane =
     (case list_get (zones a) (unat (lane_zone_id lane)) of None \<Rightarrow> []
      | Some z \<Rightarrow> (case lane_move_type lane of
            SiteBus \<Rightarrow> []
          | WordBus \<Rightarrow> err_if (lane_site_id lane \<notin> set (sites_with_word_buses z)) (lane_site_id lane)
          | ZoneBus \<Rightarrow> []))"

definition check_lane_group_membership :: "arch_spec \<Rightarrow> lane_addr list \<Rightarrow> u32 list \<times> u32 list" where
  "check_lane_group_membership a lanes =
     (sorted_list_of_set (set (for_each lanes (bad_words_of a))),
      sorted_list_of_set (set (for_each lanes (bad_sites_of a))))"

datatype aod_error =
    UnresolvedPositions
  | IncompleteGrid nat nat nat nat

definition check_lane_group_geometry :: "arch_spec \<Rightarrow> lane_addr list \<Rightarrow> aod_error list" where
  "check_lane_group_geometry a lanes =
     (let positions = List.map_filter (\<lambda>lane. location_position a (lane_origin lane)) lanes
      in if length positions \<noteq> length lanes then [UnresolvedPositions]
         else let unique_x = set (map (\<lambda>(x, y). to_bits x) positions);
                  unique_y = set (map (\<lambda>(x, y). to_bits y) positions);
                  expected = unique_x \<times> unique_y;
                  actual = set (map (\<lambda>(x, y). (to_bits x, to_bits y)) positions)
              in err_if (actual \<noteq> expected)
                   (IncompleteGrid (card expected) (card unique_x) (card unique_y) (card actual)))"

datatype lane_group_error =
    DuplicateLane "u32 \<times> u32"
  | InvalidLane lane_error
  | Inconsistent consistency_error
  | WordNotInSiteBusList u32 u32
  | SiteNotInWordBusList u32 u32
  | AODConstraintViolation aod_error

definition check_lanes :: "arch_spec \<Rightarrow> lane_addr list \<Rightarrow> lane_group_error list" where
  "check_lanes a lanes =
     for_each (first_scan lane_encode {} lanes) (\<lambda>lane. map InvalidLane (check_lane a lane))
     @ map (\<lambda>lane. DuplicateLane (lane_encode lane)) (dup_scan lane_encode {} {} lanes)
     @ (if 1 < length lanes then
          map Inconsistent (check_lane_group_consistency lanes)
          @ (let (bad_words, bad_sites) = check_lane_group_membership a lanes;
                 zid = lane_zone_id (lanes ! 0)
             in map (WordNotInSiteBusList zid) bad_words @ map (SiteNotInWordBusList zid) bad_sites)
          @ map AODConstraintViolation (check_lane_group_geometry a lanes)
        else [])"

section \<open>The shared loop\<close>

lemma first_scan_id: "distinct (map key xs) \<Longrightarrow> key ` set xs \<inter> C = {} \<Longrightarrow> first_scan key C xs = xs"
  by (induction xs arbitrary: C) auto

text \<open>A group check keys its reports by the encoded address, which tells addresses apart that
  fit the encoding.\<close>
locale group_check =
  fixes key :: "'a \<Rightarrow> 'k" and fits :: "'a \<Rightarrow> bool"
  assumes key_inj: "fits x \<Longrightarrow> fits y \<Longrightarrow> key x = key y \<Longrightarrow> x = y"
begin

lemma group_ok_iff:
  assumes "\<And>x. check x = [] \<Longrightarrow> fits x"
  shows "for_each (first_scan key {} xs) check = [] \<and> dup_scan key {} {} xs = []
     \<longleftrightarrow> (\<forall>x \<in> set xs. check x = []) \<and> distinct xs" (is "?L \<longleftrightarrow> ?R")
proof
  assume l: ?L
  then have d: "distinct (map key xs)" by (simp add: dup_scan_Nil)
  then have "first_scan key {} xs = xs" by (simp add: first_scan_id)
  with l d show ?R by (simp add: distinct_map)
next
  assume r: ?R
  then have "inj_on key (set xs)" by (meson inj_onI key_inj assms)
  with r have "distinct (map key xs)" by (simp add: distinct_map)
  then show ?L using r first_scan_subset[of key "{}" xs] by (auto simp: dup_scan_Nil)
qed

text \<open>Every repeated encoding is reported, once.\<close>
lemma duplicates_once:
  "distinct (map key (dup_scan key {} {} xs))
   \<and> key ` set (dup_scan key {} {} xs) = {k \<in> key ` set xs. 2 \<le> count_list (map key xs) k}"
  using dup_scan_distinct[of key] by (auto simp: dup_scan_keys)

end

text \<open>An architecture whose index ranges fit the packed address fields.\<close>
definition arch_fits :: "arch_spec \<Rightarrow> bool" where
  "arch_fits a \<longleftrightarrow> length (zones a) \<le> 256 \<and> length (words a) \<le> 65536 \<and> sites_per_word a \<le> 65536
     \<and> length (zone_buses a) \<le> 65536
     \<and> (\<forall>z \<in> set (zones a). length (site_buses z) \<le> 65536 \<and> length (word_buses z) \<le> 65536)"

lemma location_valid_fits: "arch_fits a \<Longrightarrow> location_valid a loc \<Longrightarrow> loc_fits loc"
  using less_of_natD[of "loc_zone_id loc" "length (zones a)"]
    less_of_natD[of "loc_word_id loc" "length (words a)"]
    less_of_natD[of "loc_site_id loc" "sites_per_word a"]
  by (auto simp: location_valid_def arch_fits_def loc_fits_def word_less_nat_alt)

lemma lane_valid_fits: "arch_fits a \<Longrightarrow> lane_valid a l \<Longrightarrow> lane_fits l"
proof -
  assume fits: "arch_fits a" and valid: "lane_valid a l"
  then have loc: "loc_fits (lane_origin l)" by (simp add: lane_valid_def location_valid_fits)
  have "unat (lane_zone_id l) < length (zones a)"
    using valid by (auto simp: lane_valid_def location_valid_def dest: less_of_natD)
  then have "zones a ! unat (lane_zone_id l) \<in> set (zones a)" by simp
  then have "unat (lane_bus_id l) < 65536"
    using fits valid by (cases "lane_move_type l") (auto simp: lane_valid_def arch_fits_def Let_def)
  with loc show ?thesis by (simp add: lane_fits_def loc_fits_def word_less_nat_alt)
qed

interpretation loc_group: group_check location_encode loc_fits
  by unfold_locales (use loc_codec.enc_eq_iff in blast)

interpretation lane_group: group_check lane_encode lane_fits
  by unfold_locales (use lane_codec.enc_eq_iff in blast)

section \<open>What the group checks decide\<close>

lemma check_locations_Nil_iff:
  assumes "arch_fits a"
  shows "check_locations a locs = [] \<longleftrightarrow> (\<forall>l \<in> set locs. location_valid a l) \<and> distinct locs"
proof -
  let ?check = "\<lambda>loc. err_if (check_location a loc \<noteq> None)
    (InvalidLocation (loc_zone_id loc) (loc_word_id loc) (loc_site_id loc))"
  have "?check loc = [] \<Longrightarrow> loc_fits loc" for loc
    using location_valid_fits[OF assms] by (simp add: check_location_None_iff)
  from loc_group.group_ok_iff[of ?check locs, OF this] show ?thesis
    by (simp add: check_locations_def check_location_None_iff)
qed

text \<open>All lanes share zone, bus, move type and direction.\<close>
definition same_bus :: "lane_addr list \<Rightarrow> bool" where
  "same_bus lanes \<longleftrightarrow> (\<forall>l \<in> set lanes. \<forall>m \<in> set lanes.
     lane_zone_id l = lane_zone_id m \<and> lane_bus_id l = lane_bus_id m
     \<and> lane_move_type l = lane_move_type m \<and> lane_direction l = lane_direction m)"

lemma consistency_Nil_iff: "check_lane_group_consistency lanes = [] \<longleftrightarrow> same_bus lanes"
  by (cases lanes) (auto simp: check_lane_group_consistency_def same_bus_def)

lemma membership_Nil:
  "\<forall>l \<in> set lanes. lane_valid a l \<Longrightarrow> check_lane_group_membership a lanes = ([], [])"
proof -
  assume valid: "\<forall>l \<in> set lanes. lane_valid a l"
  have "bad_words_of a l = []" "bad_sites_of a l = []" if "l \<in> set lanes" for l
    using valid that lane_valid_zone[of a l]
    by (cases "lane_move_type l";
        auto simp: bad_words_of_def bad_sites_of_def lane_valid_def Let_def split: option.split)+
  then have "for_each lanes (bad_words_of a) = []" "for_each lanes (bad_sites_of a) = []" by auto
  then show ?thesis by (simp add: check_lane_group_membership_def del: for_each_Nil)
qed

text \<open>The bit patterns of the positions are a Cartesian product.\<close>
definition complete_grid :: "(f64 \<times> f64) set \<Rightarrow> bool" where
  "complete_grid P \<longleftrightarrow> (\<forall>x y x' y'. (x, y) \<in> P \<longrightarrow> (x', y') \<in> P \<longrightarrow> (x, y') \<in> P)"

definition lane_positions :: "arch_spec \<Rightarrow> lane_addr list \<Rightarrow> (f64 \<times> f64) option set" where
  "lane_positions a lanes = (\<lambda>l. location_position a (lane_origin l)) ` set lanes"

lemma map_filter_full:
  "length (List.map_filter f xs) = length xs \<longleftrightarrow> (\<forall>x \<in> set xs. f x \<noteq> None)"
proof (induction xs)
  case (Cons x xs)
  have "length (List.map_filter f xs) \<le> length xs"
    by (induction xs) (auto simp: List.map_filter_simps split: option.splits)
  with Cons show ?case by (auto simp: List.map_filter_simps split: option.splits)
qed (simp add: List.map_filter_simps)

lemma set_map_filter: "set (List.map_filter f xs) = {y. Some y \<in> f ` set xs}"
  by (induction xs) (auto simp: List.map_filter_simps image_iff split: option.splits)

lemma bits_product:
  fixes P :: "(f64 \<times> f64) set"
  shows "(\<lambda>(x, y). (to_bits x, to_bits y)) ` P = (\<lambda>(x, y). to_bits x) ` P \<times> (\<lambda>(x, y). to_bits y) ` P
     \<longleftrightarrow> complete_grid P"
proof -
  have inj: "to_bits x = to_bits y \<longleftrightarrow> x = y" for x y by (metis f64.expand)
  have "complete_grid P \<longleftrightarrow> (\<forall>p \<in> P. \<forall>q \<in> P. (fst p, snd q) \<in> P)"
    by (force simp: complete_grid_def)
  also have "\<dots> \<longleftrightarrow> (\<lambda>(x, y). to_bits x) ` P \<times> (\<lambda>(x, y). to_bits y) ` P
      \<subseteq> (\<lambda>(x, y). (to_bits x, to_bits y)) ` P"
    by (fastforce simp: inj image_iff)
  finally show ?thesis by (auto simp: case_prod_unfold)
qed

lemma geometry_Nil_iff:
  "check_lane_group_geometry a lanes = [] \<longleftrightarrow>
     None \<notin> lane_positions a lanes \<and> complete_grid {p. Some p \<in> lane_positions a lanes}"
proof -
  have none: "None \<notin> lane_positions a lanes \<longleftrightarrow>
      length (List.map_filter (\<lambda>l. location_position a (lane_origin l)) lanes) = length lanes"
    unfolding map_filter_full lane_positions_def by (metis (no_types, lifting) image_iff)
  show ?thesis
    unfolding none check_lane_group_geometry_def Let_def
    by (simp add: set_map_filter bits_product flip: lane_positions_def)
qed

lemma check_lanes_Nil_iff:
  assumes "arch_fits a"
  shows "check_lanes a lanes = [] \<longleftrightarrow> (\<forall>l \<in> set lanes. lane_valid a l) \<and> distinct lanes
    \<and> (length lanes \<le> 1 \<or> same_bus lanes \<and> check_lane_group_geometry a lanes = [])"
proof -
  let ?check = "\<lambda>lane. map InvalidLane (check_lane a lane)"
  have "?check l = [] \<Longrightarrow> lane_fits l" for l
    using lane_valid_fits[OF assms] by (simp add: check_lane_Nil_iff)
  from lane_group.group_ok_iff[of ?check lanes, OF this]
  have single: "for_each (first_scan lane_encode {} lanes) ?check = [] \<and> dup_scan lane_encode {} {} lanes = []
      \<longleftrightarrow> (\<forall>l \<in> set lanes. lane_valid a l) \<and> distinct lanes"
    by (simp add: check_lane_Nil_iff)
  show ?thesis
    using single membership_Nil[of lanes a]
    by (cases "\<forall>l \<in> set lanes. lane_valid a l")
      (auto simp: check_lanes_def consistency_Nil_iff simp del: for_each_Nil)
qed

section \<open>Properties\<close>

text \<open>A group of locations passes \<open>check_locations\<close> exactly when every location is valid and
  none occurs twice, for an architecture whose ranges fit the packed fields; and each address that
  occurs twice or more is reported exactly once.\<close>
theorem check_locations_spec:
  assumes "arch_fits a"
  shows "(check_locations a locs = [] \<longleftrightarrow>
      (\<forall>l \<in> set locs. check_location a l = None) \<and> distinct locs)
    \<and> {k. DuplicateLocation k \<in> set (check_locations a locs)}
        = {k. 2 \<le> count_list (map location_encode locs) k}
    \<and> distinct (filter (\<lambda>e. case e of DuplicateLocation _ \<Rightarrow> True | _ \<Rightarrow> False) (check_locations a locs))"
proof -
  let ?inv = "for_each (first_scan location_encode {} locs)
       (\<lambda>loc. err_if (check_location a loc \<noteq> None)
                (InvalidLocation (loc_zone_id loc) (loc_word_id loc) (loc_site_id loc)))"
  let ?dup = "dup_scan location_encode {} {} locs"
  have inv: "\<forall>e \<in> set ?inv. \<exists>z w s. e = InvalidLocation z w s" by (auto split: if_splits)
  have "filter (\<lambda>e. case e of DuplicateLocation _ \<Rightarrow> True | _ \<Rightarrow> False) ?inv = []"
    using inv by (auto simp: filter_empty_conv)
  then have filt: "filter (\<lambda>e. case e of DuplicateLocation _ \<Rightarrow> True | _ \<Rightarrow> False) (check_locations a locs)
      = map DuplicateLocation (map location_encode ?dup)"
    unfolding check_locations_def filter_append by (simp add: filter_id_conv)
  have "2 \<le> count_list (map location_encode locs) k \<Longrightarrow> k \<in> location_encode ` set locs" for k
    by (metis count_list_0_iff list.set_map not_numeral_le_zero)
  then have keys: "location_encode ` set ?dup = {k. 2 \<le> count_list (map location_encode locs) k}"
    using loc_group.duplicates_once[of locs] by blast
  have "{k. DuplicateLocation k \<in> set (check_locations a locs)} = location_encode ` set ?dup"
    using inv by (auto simp: check_locations_def simp del: set_for_each)
  moreover have "distinct (map DuplicateLocation (map location_encode ?dup))"
    using loc_group.duplicates_once[of locs] by (simp add: distinct_map inj_on_def)
  ultimately show ?thesis
    using check_locations_Nil_iff[OF assms] filt keys by (simp add: check_location_None_iff)
qed

lemma example_fits: "arch_fits example_arch"
  by (simp add: arch_fits_def) (simp add: example_arch_def gate_zone_def storage_zone_def)

theorem check_locations_spec_witness:
  "check_locations example_arch [\<lparr>loc_zone_id = 0, loc_word_id = 0, loc_site_id = 0\<rparr>,
     \<lparr>loc_zone_id = 1, loc_word_id = 1, loc_site_id = 1\<rparr>] = []"
proof -
  have "check_location example_arch \<lparr>loc_zone_id = 0, loc_word_id = 0, loc_site_id = 0\<rparr> = None"
    "check_location example_arch \<lparr>loc_zone_id = 1, loc_word_id = 1, loc_site_id = 1\<rparr> = None"
    by code_simp+
  then show ?thesis by (simp add: conjunct1[OF check_locations_spec[OF example_fits]])
qed

text \<open>C27. A group of lanes passes \<open>check_lanes\<close> exactly when every lane is valid, none occurs
  twice and, for more than one lane, all use the same bus in the same direction and their
  positions resolve and form a complete grid: with (x, y) and (x', y') also (x, y').\<close>
theorem check_lanes_spec:
  assumes "arch_fits a"
  shows "check_lanes a lanes = [] \<longleftrightarrow>
    (\<forall>l \<in> set lanes. check_lane a l = []) \<and> distinct lanes
    \<and> (length lanes \<le> 1
       \<or> same_bus lanes \<and> None \<notin> lane_positions a lanes
         \<and> complete_grid {p. Some p \<in> lane_positions a lanes})"
  using check_lanes_Nil_iff[OF assms] by (simp add: check_lane_Nil_iff geometry_Nil_iff)

definition example_lane :: "u32 \<Rightarrow> lane_addr" where
  "example_lane w = \<lparr>lane_direction = Forward, lane_move_type = SiteBus, lane_zone_id = 0,
     lane_word_id = w, lane_site_id = 0, lane_bus_id = 0\<rparr>"

theorem check_lanes_spec_witness:
  "check_lanes example_arch [example_lane 0, example_lane 1] = []"
proof -
  let ?lanes = "[example_lane 0, example_lane 1]"
  have valid: "\<forall>l \<in> set ?lanes. check_lane example_arch l = []" by simp code_simp
  have pos: "location_position example_arch (lane_origin (example_lane 0)) = Some (F64 0, F64 0)"
    "location_position example_arch (lane_origin (example_lane 1)) = Some (F64 0x4014000000000000, F64 0)"
    by code_simp+
  have "None \<notin> lane_positions example_arch ?lanes
    \<and> complete_grid {p. Some p \<in> lane_positions example_arch ?lanes}"
    by (auto simp: lane_positions_def pos complete_grid_def)
  moreover have "distinct ?lanes \<and> same_bus ?lanes" by (simp add: same_bus_def example_lane_def)
  ultimately show ?thesis using check_lanes_spec[OF example_fits] valid by blast
qed

end
