(* ===== verification/Arch_Validate.thy ===== *)
theory Arch_Validate
  imports Arch_Groups
begin

text \<open>
  Structural validation of an architecture: \<open>arch/validate.rs\<close>.  Each check collects its
  errors; \<open>validate\<close> runs them all in the order of the source.  \<open>check_paths\<close> decodes the
  lane of a path with the panicking decoder, so validation is an \<open>outcome\<close>.  An error
  message is the value of its format string.
\<close>

section \<open>Errors\<close>

datatype structure_error =
    NoZones
  | NoWords
  | NegativeXSpacing nat nat f64
  | NegativeYSpacing nat nat f64
  | GridDimensions nat nat nat nat nat
  | WordSiteCount nat nat nat
  | SiteXRange nat nat u32 nat
  | SiteYRange nat nat u32 nat
  | OverlappingZones nat nat "f64 \<times> f64 \<times> f64 \<times> f64" "f64 \<times> f64 \<times> f64 \<times> f64"

datatype zone_bus_error =
    ListedWordRange nat u32
  | ListedSiteRange nat u32 nat
  | SiteBusLengths nat nat nat nat
  | SiteBusSrc nat nat nat u16 nat
  | SiteBusDst nat nat nat u16 nat
  | WordBusLengths nat nat nat nat
  | WordBusSrc nat nat nat u16 nat
  | WordBusDst nat nat nat u16 nat

datatype inter_zone_error =
    ZoneBusLengths nat nat nat
  | ZoneBusSrcZone nat nat u8 nat
  | ZoneBusSrcWord nat nat u16 nat
  | ZoneBusDstZone nat nat u8 nat
  | ZoneBusDstWord nat nat u16 nat
  | ZoneBusSameZone nat nat u8 u8

datatype pair_error =
    PairWordRange nat nat u32 nat
  | PairSelf nat nat u32
  | PairDuplicate nat nat u32 u32

datatype mode_error =
    ModeZone string nat u32 nat
  | BitstringZone string nat nat u32 nat
  | BitstringWord string nat nat u32 nat
  | BitstringSite string nat nat u32 nat

datatype path_error =
    PathNotFinite nat
  | PathZone nat u64 u32 nat
  | PathWaypoints nat u64 nat

datatype arch_spec_error =
    Structure structure_error
  | ZoneBusInvalid zone_bus_error
  | InterZoneBus inter_zone_error
  | EntanglingPair pair_error
  | ModeInvalid mode_error
  | PathInvalid path_error

section \<open>The checks\<close>

definition check_minimum_counts :: "arch_spec \<Rightarrow> arch_spec_error list" where
  "check_minimum_counts a =
     err_if (zones a = []) (Structure NoZones) @ err_if (words a = []) (Structure NoWords)"

definition negative_at :: "f64 list \<Rightarrow> nat option" where
  "negative_at xs = position (\<lambda>v. flt v pos_zero) xs"

definition check_non_negative_grid_spacings :: "arch_spec \<Rightarrow> arch_spec_error list" where
  "check_non_negative_grid_spacings a =
     for_enum (zones a) (\<lambda>i z.
       (case negative_at (x_spacing (zone_grid z)) of None \<Rightarrow> []
        | Some p \<Rightarrow> [Structure (NegativeXSpacing i p (x_spacing (zone_grid z) ! p))])
       @ (case negative_at (y_spacing (zone_grid z)) of None \<Rightarrow> []
          | Some p \<Rightarrow> [Structure (NegativeYSpacing i p (y_spacing (zone_grid z) ! p))]))"

definition check_uniform_grid_dimensions :: "arch_spec \<Rightarrow> arch_spec_error list" where
  "check_uniform_grid_dimensions a =
     (case zones a of [] \<Rightarrow> []
      | first_zone # rest \<Rightarrow>
          let ref_x = num_x (zone_grid first_zone); ref_y = num_y (zone_grid first_zone)
          in for_enum rest (\<lambda>k z.
               let zx = num_x (zone_grid z); zy = num_y (zone_grid z)
               in err_if (zx \<noteq> ref_x \<or> zy \<noteq> ref_y) (Structure (GridDimensions (k + 1) zx zy ref_x ref_y))))"

definition check_uniform_word_site_counts :: "arch_spec \<Rightarrow> arch_spec_error list" where
  "check_uniform_word_site_counts a =
     (case words a of [] \<Rightarrow> []
      | first_word # rest \<Rightarrow>
          for_enum rest (\<lambda>k w.
            err_if (length (sites w) \<noteq> length (sites first_word))
              (Structure (WordSiteCount (k + 1) (length (sites w)) (length (sites first_word))))))"

definition check_word_site_indices :: "arch_spec \<Rightarrow> arch_spec_error list" where
  "check_word_site_indices a =
     (case zones a of [] \<Rightarrow> []
      | z # _ \<Rightarrow>
          let grid_x = num_x (zone_grid z); grid_y = num_y (zone_grid z)
          in for_enum (words a) (\<lambda>wi w. for_enum (sites w) (\<lambda>si (sx, sy).
               err_if (grid_x \<le> unat sx) (Structure (SiteXRange wi si sx grid_x))
               @ err_if (grid_y \<le> unat sy) (Structure (SiteYRange wi si sy grid_y)))))"

definition check_zone_words_with_site_buses :: "nat \<Rightarrow> zone \<Rightarrow> nat \<Rightarrow> arch_spec_error list" where
  "check_zone_words_with_site_buses zi z nw =
     for_each (words_with_site_buses z)
       (\<lambda>wid. err_if (nw \<le> unat wid) (ZoneBusInvalid (ListedWordRange zi wid)))"

definition check_zone_sites_with_word_buses :: "nat \<Rightarrow> zone \<Rightarrow> nat \<Rightarrow> arch_spec_error list" where
  "check_zone_sites_with_word_buses zi z spw =
     for_each (sites_with_word_buses z)
       (\<lambda>sid. err_if (spw \<le> unat sid) (ZoneBusInvalid (ListedSiteRange zi sid spw)))"

definition check_zone_site_buses :: "nat \<Rightarrow> zone \<Rightarrow> nat \<Rightarrow> arch_spec_error list" where
  "check_zone_site_buses zi z spw =
     for_enum (site_buses z) (\<lambda>bi b.
       err_if (length (bus_src b) \<noteq> length (bus_dst b))
         (ZoneBusInvalid (SiteBusLengths zi bi (length (bus_src b)) (length (bus_dst b))))
       @ for_enum (bus_src b) (\<lambda>i s. err_if (spw \<le> unat (site_ref_index s))
           (ZoneBusInvalid (SiteBusSrc zi bi i (site_ref_index s) spw)))
       @ for_enum (bus_dst b) (\<lambda>i s. err_if (spw \<le> unat (site_ref_index s))
           (ZoneBusInvalid (SiteBusDst zi bi i (site_ref_index s) spw))))"

definition check_zone_word_buses :: "nat \<Rightarrow> zone \<Rightarrow> nat \<Rightarrow> arch_spec_error list" where
  "check_zone_word_buses zi z nw =
     for_enum (word_buses z) (\<lambda>bi b.
       err_if (length (bus_src b) \<noteq> length (bus_dst b))
         (ZoneBusInvalid (WordBusLengths zi bi (length (bus_src b)) (length (bus_dst b))))
       @ for_enum (bus_src b) (\<lambda>i w. err_if (nw \<le> unat (word_ref_index w))
           (ZoneBusInvalid (WordBusSrc zi bi i (word_ref_index w) nw)))
       @ for_enum (bus_dst b) (\<lambda>i w. err_if (nw \<le> unat (word_ref_index w))
           (ZoneBusInvalid (WordBusDst zi bi i (word_ref_index w) nw))))"

definition check_zone_buses :: "arch_spec \<Rightarrow> nat \<Rightarrow> nat \<Rightarrow> arch_spec_error list" where
  "check_zone_buses a nz nw =
     for_enum (zone_buses a) (\<lambda>bi b.
       err_if (length (bus_src b) \<noteq> length (bus_dst b))
         (InterZoneBus (ZoneBusLengths bi (length (bus_src b)) (length (bus_dst b))))
       @ for_enum (bus_src b) (\<lambda>i r.
           err_if (nz \<le> unat (zwr_zone_id r)) (InterZoneBus (ZoneBusSrcZone bi i (zwr_zone_id r) nz))
           @ err_if (nw \<le> unat (zwr_word_id r)) (InterZoneBus (ZoneBusSrcWord bi i (zwr_word_id r) nw)))
       @ for_enum (bus_dst b) (\<lambda>i r.
           err_if (nz \<le> unat (zwr_zone_id r)) (InterZoneBus (ZoneBusDstZone bi i (zwr_zone_id r) nz))
           @ err_if (nw \<le> unat (zwr_word_id r)) (InterZoneBus (ZoneBusDstWord bi i (zwr_word_id r) nw)))
       @ for_each [0..<min (length (bus_src b)) (length (bus_dst b))] (\<lambda>i.
           err_if (zwr_zone_id (bus_src b ! i) = zwr_zone_id (bus_dst b ! i))
             (InterZoneBus (ZoneBusSameZone bi i (zwr_zone_id (bus_src b ! i)) (zwr_zone_id (bus_dst b ! i))))))"

definition normalize_pair :: "u32 \<times> u32 \<Rightarrow> u32 \<times> u32" where
  "normalize_pair = (\<lambda>(p, q). if p \<le> q then (p, q) else (q, p))"

text \<open>The loop over the pairs of a zone, with the set of normalized pairs seen so far.\<close>
fun check_pairs_from ::
  "nat \<Rightarrow> nat \<Rightarrow> (u32 \<times> u32) set \<Rightarrow> nat \<Rightarrow> (u32 \<times> u32) list \<Rightarrow> arch_spec_error list" where
  "check_pairs_from zi nw seen idx [] = []"
| "check_pairs_from zi nw seen idx ((p, q) # ps) =
     err_if (nw \<le> unat p) (EntanglingPair (PairWordRange zi idx p nw))
     @ err_if (nw \<le> unat q) (EntanglingPair (PairWordRange zi idx q nw))
     @ err_if (p = q) (EntanglingPair (PairSelf zi idx p))
     @ err_if (normalize_pair (p, q) \<in> seen) (EntanglingPair (PairDuplicate zi idx p q))
     @ check_pairs_from zi nw (insert (normalize_pair (p, q)) seen) (idx + 1) ps"

definition check_zone_entangling_pairs :: "nat \<Rightarrow> zone \<Rightarrow> nat \<Rightarrow> arch_spec_error list" where
  "check_zone_entangling_pairs zi z nw = check_pairs_from zi nw {} 0 (entangling_pairs z)"

definition check_modes :: "arch_spec \<Rightarrow> nat \<Rightarrow> nat \<Rightarrow> nat \<Rightarrow> arch_spec_error list" where
  "check_modes a nz nw spw =
     for_enum (modes a) (\<lambda>mi m.
       for_each (mode_zones m) (\<lambda>zid.
         err_if (nz \<le> unat zid) (ModeInvalid (ModeZone (mode_name m) mi zid nz)))
       @ for_enum (bitstring_order m) (\<lambda>li loc.
           err_if (nz \<le> unat (loc_zone_id loc))
             (ModeInvalid (BitstringZone (mode_name m) mi li (loc_zone_id loc) nz))
           @ err_if (nw \<le> unat (loc_word_id loc))
               (ModeInvalid (BitstringWord (mode_name m) mi li (loc_word_id loc) nw))
           @ err_if (spw \<le> unat (loc_site_id loc))
               (ModeInvalid (BitstringSite (mode_name m) mi li (loc_site_id loc) spw))))"

definition check_path :: "nat \<Rightarrow> nat \<Rightarrow> transport_path \<Rightarrow> arch_spec_error list outcome" where
  "check_path nz idx p =
     bind_outcome (lane_decode_u64 (path_lane p)) (\<lambda>lane. Returned
       (err_if (\<not> path_check_finite p) (PathInvalid (PathNotFinite idx))
        @ err_if (nz \<le> unat (lane_zone_id lane))
            (PathInvalid (PathZone idx (path_lane p) (lane_zone_id lane) nz))
        @ err_if (length (waypoints p) < 2)
            (PathInvalid (PathWaypoints idx (path_lane p) (length (waypoints p))))))"

definition check_paths :: "arch_spec \<Rightarrow> nat \<Rightarrow> arch_spec_error list outcome" where
  "check_paths a nz =
     (case paths a of None \<Rightarrow> Returned []
      | Some ps \<Rightarrow>
          bind_outcome (traverse_outcome (\<lambda>(idx, p). check_path nz idx p) (enumerate 0 ps))
            (\<lambda>es. Returned (concat es)))"

definition boxes_overlap :: "f64 \<times> f64 \<times> f64 \<times> f64 \<Rightarrow> f64 \<times> f64 \<times> f64 \<times> f64 \<Rightarrow> bool" where
  "boxes_overlap = (\<lambda>(ax_min, ax_max, ay_min, ay_max) (bx_min, bx_max, by_min, by_max).
     (flt ax_min bx_max \<and> flt bx_min ax_max) \<and> (flt ay_min by_max \<and> flt by_min ay_max))"

definition check_zone_overlap :: "arch_spec \<Rightarrow> arch_spec_error list" where
  "check_zone_overlap a =
     (let boxes = map (\<lambda>z. bounding_box (zone_grid z)) (zones a)
      in for_each [0..<length boxes] (\<lambda>i. for_each [i + 1..<length boxes] (\<lambda>j.
           err_if (boxes_overlap (boxes ! i) (boxes ! j))
             (Structure (OverlappingZones i j (boxes ! i) (boxes ! j))))))"

section \<open>Validation\<close>

definition check_zone_parts :: "arch_spec \<Rightarrow> nat \<Rightarrow> zone \<Rightarrow> arch_spec_error list" where
  "check_zone_parts a zi z =
     check_zone_words_with_site_buses zi z (length (words a))
     @ check_zone_sites_with_word_buses zi z (sites_per_word a)
     @ check_zone_site_buses zi z (sites_per_word a)
     @ check_zone_word_buses zi z (length (words a))
     @ check_zone_entangling_pairs zi z (length (words a))"

definition validate :: "arch_spec \<Rightarrow> (arch_spec_error list + unit) outcome" where
  "validate a =
     (let nw = length (words a); nz = length (zones a); spw = sites_per_word a
      in bind_outcome (check_paths a nz) (\<lambda>path_errors.
         let errors =
           check_minimum_counts a @ check_non_negative_grid_spacings a
           @ check_uniform_grid_dimensions a @ check_uniform_word_site_counts a
           @ check_word_site_indices a @ for_enum (zones a) (check_zone_parts a)
           @ check_zone_buses a nz nw @ check_modes a nz nw spw @ path_errors
           @ check_zone_overlap a
         in Returned (if errors = [] then Inr () else Inl errors)))"

text \<open>\<open>ArchSpec::from_components\<close>.\<close>
definition from_components ::
  "version \<Rightarrow> arch_word list \<Rightarrow> zone list \<Rightarrow> zoned_word_ref bus list \<Rightarrow> mode list \<Rightarrow>
   transport_path list option \<Rightarrow> bool \<Rightarrow> bool \<Rightarrow> f64 option \<Rightarrow> (arch_spec_error list + arch_spec) outcome" where
  "from_components v ws zs zbs ms ps ff ar br =
     (let spec = \<lparr>arch_version = v, words = ws, zones = zs, zone_buses = zbs, modes = ms, paths = ps,
                  feed_forward = ff, atom_reloading = ar, blockade_radius = br\<rparr>
      in bind_outcome (validate spec) (\<lambda>r. Returned
           (case r of Inl errors \<Rightarrow> Inl errors | Inr u \<Rightarrow> Inr spec)))"

section \<open>Well-formed architectures\<close>

definition spacings_wf :: "grid \<Rightarrow> bool" where
  "spacings_wf g \<longleftrightarrow> (\<forall>v \<in> set (x_spacing g) \<union> set (y_spacing g). \<not> flt v pos_zero)"

definition bus_wf :: "('r \<Rightarrow> bool) \<Rightarrow> 'r bus \<Rightarrow> bool" where
  "bus_wf ok b \<longleftrightarrow> length (bus_src b) = length (bus_dst b) \<and> (\<forall>r \<in> set (bus_src b) \<union> set (bus_dst b). ok r)"

definition pairs_wf :: "nat \<Rightarrow> (u32 \<times> u32) list \<Rightarrow> bool" where
  "pairs_wf nw ps \<longleftrightarrow> (\<forall>(p, q) \<in> set ps. unat p < nw \<and> unat q < nw \<and> p \<noteq> q)
     \<and> distinct (map normalize_pair ps)"

definition zone_wf :: "arch_spec \<Rightarrow> zone \<Rightarrow> bool" where
  "zone_wf a z \<longleftrightarrow>
     (\<forall>w \<in> set (words_with_site_buses z). unat w < length (words a))
     \<and> (\<forall>s \<in> set (sites_with_word_buses z). unat s < sites_per_word a)
     \<and> (\<forall>b \<in> set (site_buses z). bus_wf (\<lambda>r. unat (site_ref_index r) < sites_per_word a) b)
     \<and> (\<forall>b \<in> set (word_buses z). bus_wf (\<lambda>r. unat (word_ref_index r) < length (words a)) b)
     \<and> pairs_wf (length (words a)) (entangling_pairs z)"

definition zone_bus_wf :: "arch_spec \<Rightarrow> zoned_word_ref bus \<Rightarrow> bool" where
  "zone_bus_wf a b \<longleftrightarrow>
     bus_wf (\<lambda>r. unat (zwr_zone_id r) < length (zones a) \<and> unat (zwr_word_id r) < length (words a)) b
     \<and> (\<forall>i < length (bus_src b). zwr_zone_id (bus_src b ! i) \<noteq> zwr_zone_id (bus_dst b ! i))"

definition mode_wf :: "arch_spec \<Rightarrow> mode \<Rightarrow> bool" where
  "mode_wf a m \<longleftrightarrow> (\<forall>zid \<in> set (mode_zones m). unat zid < length (zones a))
     \<and> (\<forall>loc \<in> set (bitstring_order m). unat (loc_zone_id loc) < length (zones a)
          \<and> unat (loc_word_id loc) < length (words a) \<and> unat (loc_site_id loc) < sites_per_word a)"

definition path_wf :: "arch_spec \<Rightarrow> transport_path \<Rightarrow> bool" where
  "path_wf a p \<longleftrightarrow> path_check_finite p \<and> 2 \<le> length (waypoints p)
     \<and> (\<exists>lane. lane_decode_u64 (path_lane p) = Returned lane \<and> unat (lane_zone_id lane) < length (zones a))"

definition paths_of :: "arch_spec \<Rightarrow> transport_path list" where
  "paths_of a = (case paths a of None \<Rightarrow> [] | Some ps \<Rightarrow> ps)"

definition site_in_grid :: "grid \<Rightarrow> u32 \<times> u32 \<Rightarrow> bool" where
  "site_in_grid g = (\<lambda>(sx, sy). unat sx < num_x g \<and> unat sy < num_y g)"

definition arch_wf :: "arch_spec \<Rightarrow> bool" where
  "arch_wf a \<longleftrightarrow> zones a \<noteq> [] \<and> words a \<noteq> []
     \<and> (\<forall>z \<in> set (zones a). spacings_wf (zone_grid z) \<and> zone_wf a z
          \<and> (\<forall>w \<in> set (words a). \<forall>s \<in> set (sites w). site_in_grid (zone_grid z) s)
          \<and> num_x (zone_grid z) = num_x (zone_grid (hd (zones a)))
          \<and> num_y (zone_grid z) = num_y (zone_grid (hd (zones a))))
     \<and> (\<forall>w \<in> set (words a). length (sites w) = sites_per_word a)
     \<and> (\<forall>b \<in> set (zone_buses a). zone_bus_wf a b)
     \<and> (\<forall>m \<in> set (modes a). mode_wf a m)
     \<and> (\<forall>p \<in> set (paths_of a). path_wf a p)
     \<and> (\<forall>j < length (zones a). \<forall>i < j.
          \<not> boxes_overlap (bounding_box (zone_grid (zones a ! i))) (bounding_box (zone_grid (zones a ! j))))"

lemma negative_at_cases_Nil: "(case negative_at xs of None \<Rightarrow> [] | Some p \<Rightarrow> [f p]) = [] \<longleftrightarrow> (\<forall>v \<in> set xs. \<not> flt v pos_zero)"
proof (cases "negative_at xs")
  case None
  then have "\<forall>v \<in> set xs. \<not> flt v pos_zero" by (simp add: negative_at_def)
  with None show ?thesis by simp
next
  case (Some p)
  then have "\<exists>v \<in> set xs. flt v pos_zero" by (auto simp: negative_at_def position_Some_iff)
  with Some show ?thesis by simp
qed

lemma for_enum_Nil_set:
  assumes "\<And>i x. x \<in> set xs \<Longrightarrow> f i x = [] \<longleftrightarrow> P x"
  shows "for_enum xs f = [] \<longleftrightarrow> (\<forall>x \<in> set xs. P x)"
  using assms by (auto simp: all_set_conv_all_nth)

named_theorems check_nil \<open>when each structural check finds nothing\<close>

lemma check_minimum_counts_Nil [check_nil]:
  "check_minimum_counts a = [] \<longleftrightarrow> zones a \<noteq> [] \<and> words a \<noteq> []"
  by (simp add: check_minimum_counts_def)

lemma check_spacings_Nil [check_nil]:
  "check_non_negative_grid_spacings a = [] \<longleftrightarrow> (\<forall>z \<in> set (zones a). spacings_wf (zone_grid z))"
  unfolding check_non_negative_grid_spacings_def
  by (rule for_enum_Nil_set) (simp add: negative_at_cases_Nil spacings_wf_def ball_Un)

lemma check_dimensions_Nil [check_nil]:
  "check_uniform_grid_dimensions a = [] \<longleftrightarrow>
     (\<forall>z \<in> set (zones a). num_x (zone_grid z) = num_x (zone_grid (hd (zones a)))
        \<and> num_y (zone_grid z) = num_y (zone_grid (hd (zones a))))"
proof (cases "zones a")
  case (Cons z zs)
  then show ?thesis
    by (simp add: check_uniform_grid_dimensions_def Let_def del: for_enum_Nil)
      (rule for_enum_Nil_set, simp)
qed (simp add: check_uniform_grid_dimensions_def)

lemma check_site_counts_Nil [check_nil]:
  "check_uniform_word_site_counts a = [] \<longleftrightarrow> (\<forall>w \<in> set (words a). length (sites w) = sites_per_word a)"
proof (cases "words a")
  case (Cons w ws)
  then show ?thesis
    by (simp add: check_uniform_word_site_counts_def sites_per_word_def del: for_enum_Nil)
      (rule for_enum_Nil_set, simp)
qed (simp add: check_uniform_word_site_counts_def)

lemma check_site_indices_Nil [check_nil]:
  "check_word_site_indices a = [] \<longleftrightarrow>
     zones a = [] \<or> (\<forall>w \<in> set (words a). \<forall>s \<in> set (sites w). site_in_grid (zone_grid (hd (zones a))) s)"
  by (auto simp: check_word_site_indices_def Let_def site_in_grid_def all_set_conv_all_nth case_prod_unfold
      not_le split: list.splits)

lemma check_pairs_Nil:
  "check_pairs_from zi nw seen idx ps = [] \<longleftrightarrow>
     pairs_wf nw ps \<and> normalize_pair ` set ps \<inter> seen = {}"
  by (induction zi nw seen idx ps rule: check_pairs_from.induct) (auto simp: pairs_wf_def not_le)

lemma check_zone_parts_Nil [check_nil]: "check_zone_parts a zi z = [] \<longleftrightarrow> zone_wf a z"
  by (auto simp: check_zone_parts_def check_zone_words_with_site_buses_def
      check_zone_sites_with_word_buses_def check_zone_site_buses_def check_zone_word_buses_def
      check_zone_entangling_pairs_def check_pairs_Nil zone_wf_def bus_wf_def not_le
      all_set_conv_all_nth ball_Un)

lemma check_zone_buses_Nil [check_nil]:
  "check_zone_buses a (length (zones a)) (length (words a)) = [] \<longleftrightarrow> (\<forall>b \<in> set (zone_buses a). zone_bus_wf a b)"
proof -
  have refs: "for_enum rs (\<lambda>i r. err_if (nz \<le> unat (zwr_zone_id r)) (f i r) @ err_if (nw \<le> unat (zwr_word_id r)) (g i r)) = []
      \<longleftrightarrow> (\<forall>r \<in> set rs. unat (zwr_zone_id r) < nz \<and> unat (zwr_word_id r) < nw)" for rs nz nw f g
    by (rule for_enum_Nil_set) (simp add: not_le)
  show ?thesis
    unfolding check_zone_buses_def
    by (rule for_enum_Nil_set)
      (simp add: refs zone_bus_wf_def bus_wf_def ball_Un del: for_enum_Nil, auto)
qed

lemma check_modes_Nil [check_nil]:
  "check_modes a (length (zones a)) (length (words a)) (sites_per_word a) = [] \<longleftrightarrow> (\<forall>m \<in> set (modes a). mode_wf a m)"
  by (auto simp: check_modes_def mode_wf_def not_le all_set_conv_all_nth)

lemma check_zone_overlap_Nil [check_nil]:
  "check_zone_overlap a = [] \<longleftrightarrow>
     (\<forall>j < length (zones a). \<forall>i < j.
        \<not> boxes_overlap (bounding_box (zone_grid (zones a ! i))) (bounding_box (zone_grid (zones a ! j))))"
  by (auto simp: check_zone_overlap_def Let_def)

lemma check_path_Returned_Nil: "check_path nz i p = Returned [] \<longleftrightarrow>
    path_check_finite p \<and> 2 \<le> length (waypoints p)
    \<and> (\<exists>lane. lane_decode_u64 (path_lane p) = Returned lane \<and> unat (lane_zone_id lane) < nz)"
  by (auto simp: check_path_def not_le not_less)

lemma traverse_Nil_iff:
  "(\<exists>es. traverse_outcome f xs = Returned es \<and> concat es = []) \<longleftrightarrow> (\<forall>x \<in> set xs. f x = Returned [])"
proof (induction xs)
  case (Cons x xs)
  then show ?case by (cases "f x"; cases "traverse_outcome f xs") auto
qed simp

lemma check_paths_Returned_Nil:
  "check_paths a (length (zones a)) = Returned [] \<longleftrightarrow> (\<forall>p \<in> set (paths_of a). path_wf a p)"
proof (cases "paths a")
  case (Some ps)
  have "check_paths a (length (zones a)) = Returned [] \<longleftrightarrow>
      (\<forall>x \<in> set (enumerate 0 ps). (case x of (i, p) \<Rightarrow> check_path (length (zones a)) i p) = Returned [])"
    unfolding traverse_Nil_iff[symmetric] by (auto simp: check_paths_def Some)
  also have "\<dots> \<longleftrightarrow> (\<forall>p \<in> set ps. path_wf a p)"
    by (auto simp: set_enumerate check_path_Returned_Nil path_wf_def all_set_conv_all_nth)
  finally show ?thesis by (simp add: paths_of_def Some)
qed (simp add: check_paths_def paths_of_def)

lemma reorder_checks:
  "(dx \<and> dy \<Longrightarrow> s \<longleftrightarrow> s') \<Longrightarrow>
   (p \<and> (nz \<and> nw) \<and> sp \<and> (dx \<and> dy) \<and> n \<and> s \<and> zw \<and> zb \<and> m \<and> ov)
     = (nz \<and> nw \<and> (sp \<and> zw \<and> s' \<and> dx \<and> dy) \<and> n \<and> zb \<and> m \<and> p \<and> ov)"
  by blast

lemma validate_ok_iff: "validate a = Returned (Inr ()) \<longleftrightarrow> arch_wf a"
proof -
  have "validate a = Returned (Inr ()) \<longleftrightarrow>
      check_paths a (length (zones a)) = Returned []
      \<and> check_minimum_counts a = [] \<and> check_non_negative_grid_spacings a = []
      \<and> check_uniform_grid_dimensions a = [] \<and> check_uniform_word_site_counts a = []
      \<and> check_word_site_indices a = [] \<and> for_enum (zones a) (check_zone_parts a) = []
      \<and> check_zone_buses a (length (zones a)) (length (words a)) = []
      \<and> check_modes a (length (zones a)) (length (words a)) (sites_per_word a) = []
      \<and> check_zone_overlap a = []"
    unfolding validate_def Let_def by (cases "check_paths a (length (zones a))") auto
  also have "\<dots> \<longleftrightarrow> arch_wf a"
  proof -
    have parts: "for_enum (zones a) (check_zone_parts a) = [] \<longleftrightarrow> (\<forall>z \<in> set (zones a). zone_wf a z)"
      by (rule for_enum_Nil_set) (rule check_zone_parts_Nil)
    let ?dims = "\<lambda>z. num_x (zone_grid z) = num_x (zone_grid (hd (zones a)))
      \<and> num_y (zone_grid z) = num_y (zone_grid (hd (zones a)))"
    have same: "site_in_grid (zone_grid z) = site_in_grid (zone_grid (hd (zones a)))" if "?dims z" for z
      using that by (simp add: site_in_grid_def)
    have sites_iff: "(zones a = [] \<or> (\<forall>w \<in> set (words a). \<forall>s \<in> set (sites w). site_in_grid (zone_grid (hd (zones a))) s))
        \<longleftrightarrow> (\<forall>z \<in> set (zones a). \<forall>w \<in> set (words a). \<forall>s \<in> set (sites w). site_in_grid (zone_grid z) s)"
      if "\<forall>z \<in> set (zones a). ?dims z"
    proof -
      define g where "g = site_in_grid (zone_grid (hd (zones a)))"
      have "\<forall>z \<in> set (zones a). site_in_grid (zone_grid z) = g"
        unfolding g_def using that same by blast
      then show ?thesis
        unfolding g_def[symmetric]
        by (cases "zones a = []") (simp_all add: ex_in_conv cong: ball_cong)
    qed
    show ?thesis
      unfolding parts check_nil check_paths_Returned_Nil arch_wf_def ball_conj_distrib
      by (rule reorder_checks) (rule sites_iff, unfold ball_conj_distrib)
  qed
  finally show ?thesis .
qed

lemma validate_Panicked_iff:
  "validate a = Panicked \<longleftrightarrow> (\<exists>p \<in> set (paths_of a). lane_decode_u64 (path_lane p) = Panicked)"
proof -
  have "validate a = Panicked \<longleftrightarrow> check_paths a (length (zones a)) = Panicked"
    unfolding validate_def Let_def by auto
  also have "\<dots> \<longleftrightarrow> (\<exists>p \<in> set (paths_of a). lane_decode_u64 (path_lane p) = Panicked)"
    by (auto simp: check_paths_def paths_of_def check_path_def traverse_outcome_Panicked_iff set_enumerate
        in_set_conv_nth split: option.split)
  finally show ?thesis .
qed

section \<open>What validation guarantees\<close>

lemma arch_wf_site:
  "arch_wf a \<Longrightarrow> z \<in> set (zones a) \<Longrightarrow> w \<in> set (words a) \<Longrightarrow> s \<in> set (sites w) \<Longrightarrow>
   site_in_grid (zone_grid z) s"
  by (simp add: arch_wf_def)

lemma arch_wf_position:
  assumes "arch_wf a" "location_valid a loc"
  shows "location_position a loc \<noteq> None"
proof -
  have i: "unat (loc_zone_id loc) < length (zones a)" "unat (loc_word_id loc) < length (words a)"
    "unat (loc_site_id loc) < sites_per_word a"
    using assms(2) by (auto simp: location_valid_def dest: less_of_natD)
  define z where "z = zones a ! unat (loc_zone_id loc)"
  define w where "w = words a ! unat (loc_word_id loc)"
  have mem: "z \<in> set (zones a)" "w \<in> set (words a)" using i by (simp_all add: z_def w_def)
  then have len: "length (sites w) = sites_per_word a" using assms(1) by (simp add: arch_wf_def)
  obtain sx sy where s: "sites w ! unat (loc_site_id loc) = (sx, sy)" by fastforce
  then have "(sx, sy) \<in> set (sites w)" using i(3) len by (metis nth_mem)
  then have "unat sx < num_x (zone_grid z)" "unat sy < num_y (zone_grid z)"
    using arch_wf_site[OF assms(1) mem] by (auto simp: site_in_grid_def)
  then have "x_position (zone_grid z) (unat sx) \<noteq> None" "y_position (zone_grid z) (unat sy) \<noteq> None"
    by (simp_all only: x_position_None_iff y_position_None_iff not_le)
  then obtain x y where "x_position (zone_grid z) (unat sx) = Some x" "y_position (zone_grid z) (unat sy) = Some y"
    by blast
  then show ?thesis
    using i len s by (simp add: location_position_def list_get_in flip: z_def w_def)
qed

lemma arch_wf_zone: "arch_wf a \<Longrightarrow> lane_valid a l \<Longrightarrow> zone_wf a (zones a ! unat (lane_zone_id l))"
  by (auto simp: arch_wf_def lane_valid_def location_valid_def dest!: less_of_natD)

lemma arch_fits_u32:
  "arch_fits a \<Longrightarrow> w < num_zones a \<longleftrightarrow> unat w < length (zones a)"
  "arch_fits a \<Longrightarrow> w < num_words a \<longleftrightarrow> unat w < length (words a)"
  "arch_fits a \<Longrightarrow> w < num_sites a \<longleftrightarrow> unat w < sites_per_word a"
  by (simp_all add: arch_fits_def less_of_nat_iff)

lemma unat_ucast_u32 [simp]:
  "unat (ucast (w :: u16) :: u32) = unat w" "unat (ucast (b :: u8) :: u32) = unat b"
  by (simp_all add: unsigned_ucast_eq take_bit_nat_eq_self_iff)
    (use unsigned_less[of w, where ?'a = nat] unsigned_less[of b, where ?'a = nat] in simp_all)

lemma bus_wf_dst: "bus_wf ok b \<Longrightarrow> r \<in> set (bus_dst b) \<Longrightarrow> ok r"
  by (simp add: bus_wf_def)

lemma arch_wf_forward_dst:
  assumes "arch_wf a" "arch_fits a" "lane_valid a l"
    "lane_forward_dst a (zones a ! unat (lane_zone_id l)) l = Some d"
  shows "location_valid a d"
proof -
  let ?z = "zones a ! unat (lane_zone_id l)"
  have zwf: "zone_wf a ?z" using assms(1,3) by (rule arch_wf_zone)
  have o: "location_valid a (lane_origin l)" using assms(3) by (simp add: lane_valid_def)
  show ?thesis
  proof (cases "lane_move_type l")
    case SiteBus
    then obtain bus s where b: "list_get (site_buses ?z) (unat (lane_bus_id l)) = Some bus"
      "site_resolve_forward bus (ucast (lane_site_id l)) = Some s"
      "d = (lane_origin l)\<lparr>loc_site_id := ucast s\<rparr>"
      using assms(4) by (auto simp: lane_forward_dst_def bind_eq_Some_conv)
    then have "bus \<in> set (site_buses ?z)" by auto
    moreover have "s \<in> site_ref_index ` set (bus_dst bus)" using sb.fwd_in[OF b(2)] by simp
    ultimately have "unat s < sites_per_word a"
      using zwf by (auto simp: zone_wf_def dest!: bus_wf_dst)
    then show ?thesis
      using o b(3) by (simp add: location_valid_def arch_fits_u32(3)[OF assms(2)])
  next
    case WordBus
    then obtain bus w where b: "list_get (word_buses ?z) (unat (lane_bus_id l)) = Some bus"
      "word_resolve_forward bus (ucast (lane_word_id l)) = Some w"
      "d = (lane_origin l)\<lparr>loc_word_id := ucast w\<rparr>"
      using assms(4) by (auto simp: lane_forward_dst_def bind_eq_Some_conv)
    then have "bus \<in> set (word_buses ?z)" by auto
    moreover have "w \<in> word_ref_index ` set (bus_dst bus)" using wb.fwd_in[OF b(2)] by simp
    ultimately have "unat w < length (words a)"
      using zwf by (auto simp: zone_wf_def dest!: bus_wf_dst)
    then show ?thesis
      using o b(3) by (simp add: location_valid_def arch_fits_u32(2)[OF assms(2)])
  next
    case ZoneBus
    then obtain bus r where b: "list_get (zone_buses a) (unat (lane_bus_id l)) = Some bus"
      "zoned_resolve_forward bus (zoned_source l) = Some r"
      "d = (lane_origin l)\<lparr>loc_zone_id := ucast (zwr_zone_id r), loc_word_id := ucast (zwr_word_id r)\<rparr>"
      using assms(4) by (auto simp: lane_forward_dst_def bind_eq_Some_conv)
    then have "bus \<in> set (zone_buses a)" by auto
    moreover have "r \<in> set (bus_dst bus)" using zb.fwd_in[OF b(2)] by simp
    ultimately have "unat (zwr_zone_id r) < length (zones a)" "unat (zwr_word_id r) < length (words a)"
      using assms(1) by (auto simp: arch_wf_def zone_bus_wf_def dest!: bus_wf_dst)
    then show ?thesis
      using o b(3) by (simp add: location_valid_def arch_fits_u32(1,2)[OF assms(2)])
  qed
qed

lemma arch_wf_endpoints:
  assumes "arch_wf a" "arch_fits a" "lane_endpoints a l = Some (s, d)"
  shows "location_valid a s \<and> location_valid a d"
proof -
  obtain far where "lane_valid a l" "lane_forward_dst a (zones a ! unat (lane_zone_id l)) l = Some far"
    and e: "(s, d) = (case lane_direction l of Forward \<Rightarrow> (lane_origin l, far) | Backward \<Rightarrow> (far, lane_origin l))"
    using assms(3) by (auto simp: lane_endpoints_Some_iff)
  then have "location_valid a (lane_origin l)" "location_valid a far"
    using arch_wf_forward_dst[OF assms(1,2)] by (auto simp: lane_valid_def)
  with e show ?thesis by (cases "lane_direction l") auto
qed

section \<open>Properties\<close>

text \<open>C1. Validation accepts exactly the architectures that are well formed in the sense of the code:
  non-empty, with uniform grids and words, every index of buses, lists, pairs and modes in range, no
  pair repeated, inter-zone buses that cross zones, bounding boxes that do not overlap, and paths
  with finite waypoints, at least two, for a lane whose zone exists.  The bus, word and site of a path
  lane and the end points of a path are not looked at, grids may hold coordinates that are not
  finite, and nothing asks the sources and destinations of a bus to be disjoint or to form
  rectangles, although the documentation lists these rules.  Validation panics exactly when the lane
  of some transport path carries the unused move-type code.\<close>
theorem validate_spec:
  "(validate a = Returned (Inr ()) \<longleftrightarrow> arch_wf a)
   \<and> (validate a = Panicked \<longleftrightarrow> (\<exists>p \<in> set (paths_of a). lane_decode_u64 (path_lane p) = Panicked))"
  by (simp add: validate_ok_iff validate_Panicked_iff)

text \<open>C5. On a validated architecture whose ranges fit the address fields, both endpoints of every
  lane are valid locations with a physical position.\<close>
theorem validated_lanes_are_safe:
  assumes "validate a = Returned (Inr ())" "arch_fits a" "lane_endpoints a l = Some (s, d)"
  shows "check_location a s = None \<and> check_location a d = None
    \<and> location_position a s \<noteq> None \<and> location_position a d \<noteq> None"
  using arch_wf_endpoints[OF _ assms(2,3)] arch_wf_position[of a] assms(1)
  by (simp add: validate_ok_iff check_location_None_iff)

lemma example_validates: "validate example_arch = Returned (Inr ())"
proof -
  have box: "bounding_box grid_zero = (F64 0, F64 0x4024000000000000, F64 0, F64 0x4008000000000000)"
    "bounding_box grid_one = (F64 0x4034000000000000, F64 0x4041800000000000, F64 0, F64 0x4010000000000000)"
    by code_simp+
  have "spacings_wf grid_zero" "spacings_wf grid_one" by code_simp+
  moreover have "zone_wf example_arch gate_zone" "zone_wf example_arch storage_zone" by code_simp+
  moreover have "\<not> boxes_overlap (bounding_box grid_zero) (bounding_box grid_one)"
    unfolding box by code_simp
  moreover have "\<forall>b \<in> set (zone_buses example_arch). zone_bus_wf example_arch b" by code_simp
  moreover have "\<forall>m \<in> set (modes example_arch). mode_wf example_arch m" by code_simp
  moreover have "\<forall>z \<in> set (zones example_arch). \<forall>w \<in> set (words example_arch). \<forall>s \<in> set (sites w).
      site_in_grid (zone_grid z) s" by code_simp
  moreover have "zones example_arch = [gate_zone, storage_zone]" "paths_of example_arch = []"
    "\<forall>w \<in> set (words example_arch). length (sites w) = 2" "words example_arch \<noteq> []"
    by (simp_all add: example_arch_def paths_of_def)
  moreover have "zone_grid gate_zone = grid_zero" "zone_grid storage_zone = grid_one"
    by (simp_all add: gate_zone_def storage_zone_def)
  ultimately show ?thesis
    unfolding validate_ok_iff arch_wf_def
    by (simp add: less_Suc_eq numeral_2_eq_2) (simp add: grid_zero_def grid_one_def num_x_def num_y_def)
qed

theorem validated_lanes_are_safe_witness:
  "check_location example_arch \<lparr>loc_zone_id = 0, loc_word_id = 0, loc_site_id = 1\<rparr> = None"
proof -
  have "lane_endpoints example_arch (example_lane 0) =
    Some (\<lparr>loc_zone_id = 0, loc_word_id = 0, loc_site_id = 0\<rparr>, \<lparr>loc_zone_id = 0, loc_word_id = 0, loc_site_id = 1\<rparr>)"
    by code_simp
  from validated_lanes_are_safe[OF example_validates example_fits this] show ?thesis by blast
qed

end
