(* ===== verification/Opcode.thy ===== *)
theory Opcode
  imports Rust_Num
begin

text \<open>
  Opcodes: \<open>bytecode/opcode.rs\<close> and the decode errors of \<open>bytecode/encode.rs\<close>.  A
  packed opcode is the instruction code in the high byte and the device code in the low byte.
\<close>

datatype decode_error =
    UnknownOpcode u16
  | UnknownDeviceCode u8
  | InvalidTypeTag u16 u8

section \<open>Devices and instruction codes\<close>

datatype device_code =
    CpuDevice
  | LaneConstantsDevice
  | AtomArrangementDevice
  | QuantumGateDevice
  | MeasurementDevice
  | ArrayDevice
  | DetectorObservableDevice

definition device_byte :: "device_code \<Rightarrow> u8" where
  "device_byte d = (case d of
     CpuDevice \<Rightarrow> 0x00
   | LaneConstantsDevice \<Rightarrow> 0x0F
   | AtomArrangementDevice \<Rightarrow> 0x10
   | QuantumGateDevice \<Rightarrow> 0x11
   | MeasurementDevice \<Rightarrow> 0x12
   | ArrayDevice \<Rightarrow> 0x13
   | DetectorObservableDevice \<Rightarrow> 0x14)"

definition device_from_byte :: "u8 \<Rightarrow> decode_error + device_code" where
  "device_from_byte b =
     (if b = 0x00 then Inr CpuDevice
      else if b = 0x0F then Inr LaneConstantsDevice
      else if b = 0x10 then Inr AtomArrangementDevice
      else if b = 0x11 then Inr QuantumGateDevice
      else if b = 0x12 then Inr MeasurementDevice
      else if b = 0x13 then Inr ArrayDevice
      else if b = 0x14 then Inr DetectorObservableDevice
      else Inl (UnknownDeviceCode b))"

definition device_from_opcode :: "u32 \<Rightarrow> decode_error + device_code" where
  "device_from_opcode word = device_from_byte (ucast (word AND 0xFF))"

datatype cpu_code =
    ConstIntCode
  | ConstFloatCode
  | DupCode
  | PopCode
  | SwapCode
  | ReturnCode
  | HaltCode

definition cpu_byte :: "cpu_code \<Rightarrow> u8" where
  "cpu_byte c = (case c of ConstIntCode \<Rightarrow> 0x02 | ConstFloatCode \<Rightarrow> 0x03 | DupCode \<Rightarrow> 0x04
     | PopCode \<Rightarrow> 0x05 | SwapCode \<Rightarrow> 0x06 | ReturnCode \<Rightarrow> 0x64 | HaltCode \<Rightarrow> 0xFF)"

datatype lane_const_code =
    ConstLocCode
  | ConstLaneCode
  | ConstZoneCode

definition lane_const_byte :: "lane_const_code \<Rightarrow> u8" where
  "lane_const_byte c = (case c of ConstLocCode \<Rightarrow> 0x00 | ConstLaneCode \<Rightarrow> 0x01 | ConstZoneCode \<Rightarrow> 0x02)"

datatype atom_code =
    InitialFillCode
  | FillCode
  | MoveCode

definition atom_byte :: "atom_code \<Rightarrow> u8" where
  "atom_byte c = (case c of InitialFillCode \<Rightarrow> 0x00 | FillCode \<Rightarrow> 0x01 | MoveCode \<Rightarrow> 0x02)"

datatype gate_code =
    LocalRCode
  | LocalRzCode
  | GlobalRCode
  | GlobalRzCode
  | CZCode

definition gate_byte :: "gate_code \<Rightarrow> u8" where
  "gate_byte c = (case c of LocalRCode \<Rightarrow> 0x00 | LocalRzCode \<Rightarrow> 0x01 | GlobalRCode \<Rightarrow> 0x02
     | GlobalRzCode \<Rightarrow> 0x03 | CZCode \<Rightarrow> 0x04)"

datatype measurement_code =
    MeasureCode
  | AwaitMeasureCode

definition measurement_byte :: "measurement_code \<Rightarrow> u8" where
  "measurement_byte c = (case c of MeasureCode \<Rightarrow> 0x00 | AwaitMeasureCode \<Rightarrow> 0x01)"

datatype array_code =
    NewArrayCode
  | GetItemCode

definition array_byte :: "array_code \<Rightarrow> u8" where
  "array_byte c = (case c of NewArrayCode \<Rightarrow> 0x00 | GetItemCode \<Rightarrow> 0x01)"

datatype detector_code =
    SetDetectorCode
  | SetObservableCode

definition detector_byte :: "detector_code \<Rightarrow> u8" where
  "detector_byte c = (case c of SetDetectorCode \<Rightarrow> 0x00 | SetObservableCode \<Rightarrow> 0x01)"

section \<open>Packing and decoding\<close>

definition pack_opcode :: "u8 \<Rightarrow> u8 \<Rightarrow> u16" where
  "pack_opcode device inst = push_bit 8 (ucast inst) OR ucast device"

datatype opcode_category =
    CpuOp cpu_code
  | LaneConstOp lane_const_code
  | AtomOp atom_code
  | GateOp gate_code
  | MeasurementOp measurement_code
  | ArrayOp array_code
  | DetectorOp detector_code

definition decode_opcode :: "u32 \<Rightarrow> decode_error + opcode_category" where
  "decode_opcode word =
     (let dev_byte = ucast (word AND 0xFF) :: u8;
          inst = ucast (drop_bit 8 word AND 0xFF) :: u8;
          unknown = Inl (UnknownOpcode (ucast word))
      in if word AND 0xFFFF0000 \<noteq> 0 then unknown
         else case device_from_byte dev_byte of
           Inl e \<Rightarrow> Inl e
         | Inr CpuDevice \<Rightarrow>
             (if inst = 0x02 then Inr (CpuOp ConstIntCode)
              else if inst = 0x03 then Inr (CpuOp ConstFloatCode)
              else if inst = 0x04 then Inr (CpuOp DupCode)
              else if inst = 0x05 then Inr (CpuOp PopCode)
              else if inst = 0x06 then Inr (CpuOp SwapCode)
              else if inst = 0x64 then Inr (CpuOp ReturnCode)
              else if inst = 0xFF then Inr (CpuOp HaltCode)
              else unknown)
         | Inr LaneConstantsDevice \<Rightarrow>
             (if inst = 0x00 then Inr (LaneConstOp ConstLocCode)
              else if inst = 0x01 then Inr (LaneConstOp ConstLaneCode)
              else if inst = 0x02 then Inr (LaneConstOp ConstZoneCode)
              else unknown)
         | Inr AtomArrangementDevice \<Rightarrow>
             (if inst = 0x00 then Inr (AtomOp InitialFillCode)
              else if inst = 0x01 then Inr (AtomOp FillCode)
              else if inst = 0x02 then Inr (AtomOp MoveCode)
              else unknown)
         | Inr QuantumGateDevice \<Rightarrow>
             (if inst = 0x00 then Inr (GateOp LocalRCode)
              else if inst = 0x01 then Inr (GateOp LocalRzCode)
              else if inst = 0x02 then Inr (GateOp GlobalRCode)
              else if inst = 0x03 then Inr (GateOp GlobalRzCode)
              else if inst = 0x04 then Inr (GateOp CZCode)
              else unknown)
         | Inr MeasurementDevice \<Rightarrow>
             (if inst = 0x00 then Inr (MeasurementOp MeasureCode)
              else if inst = 0x01 then Inr (MeasurementOp AwaitMeasureCode)
              else unknown)
         | Inr ArrayDevice \<Rightarrow>
             (if inst = 0x00 then Inr (ArrayOp NewArrayCode)
              else if inst = 0x01 then Inr (ArrayOp GetItemCode)
              else unknown)
         | Inr DetectorObservableDevice \<Rightarrow>
             (if inst = 0x00 then Inr (DetectorOp SetDetectorCode)
              else if inst = 0x01 then Inr (DetectorOp SetObservableCode)
              else unknown))"

section \<open>Every opcode is decoded back, and nothing else decodes\<close>

text \<open>The device and instruction bytes of a category, as the source's tables pair them.\<close>
definition category_opcode :: "opcode_category \<Rightarrow> u16" where
  "category_opcode c = (case c of
     CpuOp k \<Rightarrow> pack_opcode (device_byte CpuDevice) (cpu_byte k)
   | LaneConstOp k \<Rightarrow> pack_opcode (device_byte LaneConstantsDevice) (lane_const_byte k)
   | AtomOp k \<Rightarrow> pack_opcode (device_byte AtomArrangementDevice) (atom_byte k)
   | GateOp k \<Rightarrow> pack_opcode (device_byte QuantumGateDevice) (gate_byte k)
   | MeasurementOp k \<Rightarrow> pack_opcode (device_byte MeasurementDevice) (measurement_byte k)
   | ArrayOp k \<Rightarrow> pack_opcode (device_byte ArrayDevice) (array_byte k)
   | DetectorOp k \<Rightarrow> pack_opcode (device_byte DetectorObservableDevice) (detector_byte k))"

lemma device_from_byte_code [simp]: "device_from_byte (device_byte d) = Inr d"
  by (cases d) (simp_all add: device_from_byte_def device_byte_def)

lemma device_from_byte_Inr_iff: "device_from_byte b = Inr d \<longleftrightarrow> b = device_byte d"
  by (cases d) (auto simp: device_from_byte_def device_byte_def split: if_splits)

lemma unpack_device: "(ucast (ucast (pack_opcode d i) AND (0xFF :: u32)) :: u8) = d"
  unfolding pack_opcode_def mask_literals(1) by (rule bit_word_eqI) (auto simp: bit_simps)

lemma unpack_inst: "(ucast (drop_bit 8 (ucast (pack_opcode d i)) AND (0xFF :: u32)) :: u8) = i"
  unfolding pack_opcode_def mask_literals(1)
  by (rule bit_word_eqI) (auto simp: bit_simps dest: bit_imp_le_length)

lemma opcode_high: "(0xFFFF0000 :: u32) = NOT (mask 16)"
  by (simp add: mask_eq_exp_minus_1)

lemma unpack_high: "(ucast (w :: u16) :: u32) AND 0xFFFF0000 = 0"
  unfolding opcode_high by (rule bit_word_eqI) (auto simp: bit_simps dest: bit_imp_le_length)

lemma repack:
  assumes "(w :: u32) AND 0xFFFF0000 = 0"
  shows "ucast (pack_opcode (ucast (w AND 0xFF)) (ucast (drop_bit 8 w AND 0xFF))) = w"
proof (rule bit_word_eqI)
  fix n assume "n < LENGTH(32)"
  have "bit (w AND NOT (mask 16)) n = False"
    using assms unfolding opcode_high by simp
  then have high: "16 \<le> n \<Longrightarrow> \<not> bit w n" using \<open>n < LENGTH(32)\<close> by (auto simp: bit_simps)
  consider "n < 8" | "8 \<le> n" "n < 16" | "16 \<le> n" by fastforce
  then show "bit (ucast (pack_opcode (ucast (w AND 0xFF)) (ucast (drop_bit 8 w AND 0xFF))) :: u32) n = bit w n"
    unfolding pack_opcode_def mask_literals(1) using high
    by cases (auto simp: bit_simps)
qed

lemma decode_category: "decode_opcode (ucast (category_opcode c)) = Inr c"
proof (cases c)
  case (CpuOp k)
  then show ?thesis
    by (cases k) (simp_all add: decode_opcode_def category_opcode_def Let_def unpack_device unpack_inst
        unpack_high cpu_byte_def)
next
  case (LaneConstOp k)
  then show ?thesis
    by (cases k) (simp_all add: decode_opcode_def category_opcode_def Let_def unpack_device unpack_inst
        unpack_high lane_const_byte_def)
next
  case (AtomOp k)
  then show ?thesis
    by (cases k) (simp_all add: decode_opcode_def category_opcode_def Let_def unpack_device unpack_inst
        unpack_high atom_byte_def)
next
  case (GateOp k)
  then show ?thesis
    by (cases k) (simp_all add: decode_opcode_def category_opcode_def Let_def unpack_device unpack_inst
        unpack_high gate_byte_def)
next
  case (MeasurementOp k)
  then show ?thesis
    by (cases k) (simp_all add: decode_opcode_def category_opcode_def Let_def unpack_device unpack_inst
        unpack_high measurement_byte_def)
next
  case (ArrayOp k)
  then show ?thesis
    by (cases k) (simp_all add: decode_opcode_def category_opcode_def Let_def unpack_device unpack_inst
        unpack_high array_byte_def)
next
  case (DetectorOp k)
  then show ?thesis
    by (cases k) (simp_all add: decode_opcode_def category_opcode_def Let_def unpack_device unpack_inst
        unpack_high detector_byte_def)
qed

lemma decode_opcode_Inr:
  assumes "decode_opcode w = Inr c"
  shows "w = ucast (category_opcode c)"
proof -
  have high: "w AND 0xFFFF0000 = 0"
    using assms by (auto simp: decode_opcode_def Let_def split: if_splits)
  obtain d where d: "device_from_byte (ucast (w AND 0xFF)) = Inr d"
    using assms by (auto simp: decode_opcode_def Let_def split: if_splits sum.splits)
  then have dev: "ucast (w AND 0xFF) = device_byte d" by (simp add: device_from_byte_Inr_iff)
  have "category_opcode c = pack_opcode (device_byte d) (ucast (drop_bit 8 w AND 0xFF))"
    using assms d high
    by (cases d) (auto simp: decode_opcode_def Let_def category_opcode_def cpu_byte_def lane_const_byte_def
        atom_byte_def gate_byte_def measurement_byte_def array_byte_def detector_byte_def split: if_splits)
  then show ?thesis using repack[OF high] by (simp add: dev)
qed

text \<open>The opcode table is a bijection: the packed opcode of each category decodes to it, and
  a word that decodes to a category is that category's opcode, so unassigned codes and words with
  upper bits set are errors.\<close>
theorem decode_opcode_iff: "decode_opcode w = Inr c \<longleftrightarrow> w = ucast (category_opcode c)"
  using decode_opcode_Inr decode_category by blast

end
