(* ===== verification/Instruction.thy ===== *)
theory Instruction
  imports Opcode Float64
begin

text \<open>
  Instructions and their fixed-width binary form: \<open>bytecode/instruction.rs\<close> and
  \<open>bytecode/encode.rs\<close>.  An instruction is four 32-bit words, written as sixteen
  little-endian bytes.  The locale \<open>fixed_width_codec\<close> is what a program file relies on:
  every item takes the same number of bytes and is read back.
\<close>

section \<open>Instructions\<close>

datatype cpu_instruction =
    ConstFloat f64
  | ConstInt i64
  | Pop
  | Dup
  | Swap
  | Return
  | Halt

datatype lane_const_instruction =
    ConstLoc u64
  | ConstLane u32 u32
  | ConstZone u32

datatype atom_instruction =
    InitialFill u32
  | Fill u32
  | Move u32

datatype gate_instruction =
    LocalR u32
  | LocalRz u32
  | GlobalR
  | GlobalRz
  | CZ

datatype measurement_instruction =
    Measure u32
  | AwaitMeasure

datatype array_instruction =
    NewArray u8 u16 u16
  | GetItem u16

datatype detector_instruction =
    SetDetector
  | SetObservable

datatype instruction =
    Cpu cpu_instruction
  | LaneConst lane_const_instruction
  | AtomArrangement atom_instruction
  | QuantumGate gate_instruction
  | Measurement measurement_instruction
  | Array array_instruction
  | DetectorObservable detector_instruction

definition opcode :: "instruction \<Rightarrow> u16" where
  "opcode i = (case i of
     Cpu c \<Rightarrow> pack_opcode (device_byte CpuDevice) (cpu_byte (case c of
         ConstFloat _ \<Rightarrow> ConstFloatCode | ConstInt _ \<Rightarrow> ConstIntCode | Pop \<Rightarrow> PopCode
       | Dup \<Rightarrow> DupCode | Swap \<Rightarrow> SwapCode | Return \<Rightarrow> ReturnCode | Halt \<Rightarrow> HaltCode))
   | LaneConst c \<Rightarrow> pack_opcode (device_byte LaneConstantsDevice) (lane_const_byte (case c of
         ConstLoc _ \<Rightarrow> ConstLocCode | ConstLane _ _ \<Rightarrow> ConstLaneCode | ConstZone _ \<Rightarrow> ConstZoneCode))
   | AtomArrangement c \<Rightarrow> pack_opcode (device_byte AtomArrangementDevice) (atom_byte (case c of
         InitialFill _ \<Rightarrow> InitialFillCode | Fill _ \<Rightarrow> FillCode | Move _ \<Rightarrow> MoveCode))
   | QuantumGate c \<Rightarrow> pack_opcode (device_byte QuantumGateDevice) (gate_byte (case c of
         LocalR _ \<Rightarrow> LocalRCode | LocalRz _ \<Rightarrow> LocalRzCode | GlobalR \<Rightarrow> GlobalRCode
       | GlobalRz \<Rightarrow> GlobalRzCode | CZ \<Rightarrow> CZCode))
   | Measurement c \<Rightarrow> pack_opcode (device_byte MeasurementDevice) (measurement_byte (case c of
         Measure _ \<Rightarrow> MeasureCode | AwaitMeasure \<Rightarrow> AwaitMeasureCode))
   | Array c \<Rightarrow> pack_opcode (device_byte ArrayDevice) (array_byte (case c of
         NewArray _ _ _ \<Rightarrow> NewArrayCode | GetItem _ \<Rightarrow> GetItemCode))
   | DetectorObservable c \<Rightarrow> pack_opcode (device_byte DetectorObservableDevice) (detector_byte (case c of
         SetDetector \<Rightarrow> SetDetectorCode | SetObservable \<Rightarrow> SetObservableCode)))"

definition device_of :: "instruction \<Rightarrow> device_code" where
  "device_of i = (case i of
     Cpu _ \<Rightarrow> CpuDevice
   | LaneConst _ \<Rightarrow> LaneConstantsDevice
   | AtomArrangement _ \<Rightarrow> AtomArrangementDevice
   | QuantumGate _ \<Rightarrow> QuantumGateDevice
   | Measurement _ \<Rightarrow> MeasurementDevice
   | Array _ \<Rightarrow> ArrayDevice
   | DetectorObservable _ \<Rightarrow> DetectorObservableDevice)"

section \<open>Encoding\<close>

definition encode :: "instruction \<Rightarrow> u32 \<times> u32 \<times> u32 \<times> u32" where
  "encode i =
     (let op = ucast (opcode i) :: u32 in
      case i of
        Cpu (ConstFloat f) \<Rightarrow>
          let bits = to_bits f in (op, ucast bits, ucast (drop_bit 32 bits), 0)
      | Cpu (ConstInt v) \<Rightarrow> (op, ucast v, ucast (drop_bit 32 v), 0)
      | LaneConst (ConstLoc v) \<Rightarrow> (op, ucast v, ucast (drop_bit 32 v), 0)
      | LaneConst (ConstLane d0 d1) \<Rightarrow> (op, d0, d1, 0)
      | LaneConst (ConstZone v) \<Rightarrow> (op, v, 0, 0)
      | Array (NewArray type_tag dim0 dim1) \<Rightarrow>
          (op, push_bit 24 (ucast type_tag) OR ucast dim0, ucast dim1, 0)
      | Array (GetItem ndims) \<Rightarrow> (op, ucast ndims, 0, 0)
      | AtomArrangement (InitialFill arity) \<Rightarrow> (op, arity, 0, 0)
      | AtomArrangement (Fill arity) \<Rightarrow> (op, arity, 0, 0)
      | AtomArrangement (Move arity) \<Rightarrow> (op, arity, 0, 0)
      | QuantumGate (LocalR arity) \<Rightarrow> (op, arity, 0, 0)
      | QuantumGate (LocalRz arity) \<Rightarrow> (op, arity, 0, 0)
      | Measurement (Measure arity) \<Rightarrow> (op, arity, 0, 0)
      | _ \<Rightarrow> (op, 0, 0, 0))"

definition decode :: "u32 \<Rightarrow> u32 \<Rightarrow> u32 \<Rightarrow> u32 \<Rightarrow> decode_error + instruction" where
  "decode word data0 data1 data2 =
     (let bits = ucast data0 OR push_bit 32 (ucast data1) :: u64 in
      case decode_opcode word of
        Inl e \<Rightarrow> Inl e
      | Inr (CpuOp c) \<Rightarrow> Inr (Cpu (case c of
            ConstFloatCode \<Rightarrow> ConstFloat (F64 bits) | ConstIntCode \<Rightarrow> ConstInt bits | PopCode \<Rightarrow> Pop
          | DupCode \<Rightarrow> Dup | SwapCode \<Rightarrow> Swap | ReturnCode \<Rightarrow> Return | HaltCode \<Rightarrow> Halt))
      | Inr (LaneConstOp c) \<Rightarrow> Inr (LaneConst (case c of
            ConstLocCode \<Rightarrow> ConstLoc bits | ConstLaneCode \<Rightarrow> ConstLane data0 data1
          | ConstZoneCode \<Rightarrow> ConstZone data0))
      | Inr (AtomOp c) \<Rightarrow> Inr (AtomArrangement (case c of
            InitialFillCode \<Rightarrow> InitialFill data0 | FillCode \<Rightarrow> Fill data0 | MoveCode \<Rightarrow> Move data0))
      | Inr (GateOp c) \<Rightarrow> Inr (QuantumGate (case c of
            LocalRCode \<Rightarrow> LocalR data0 | LocalRzCode \<Rightarrow> LocalRz data0 | GlobalRCode \<Rightarrow> GlobalR
          | GlobalRzCode \<Rightarrow> GlobalRz | CZCode \<Rightarrow> CZ))
      | Inr (MeasurementOp c) \<Rightarrow> Inr (Measurement (case c of
            MeasureCode \<Rightarrow> Measure data0 | AwaitMeasureCode \<Rightarrow> AwaitMeasure))
      | Inr (ArrayOp c) \<Rightarrow> Inr (Array (case c of
            NewArrayCode \<Rightarrow> NewArray (ucast (drop_bit 24 data0 AND 0xFF)) (ucast (data0 AND 0xFFFF))
                              (ucast (data1 AND 0xFFFF))
          | GetItemCode \<Rightarrow> GetItem (ucast data0)))
      | Inr (DetectorOp c) \<Rightarrow> Inr (DetectorObservable (case c of
            SetDetectorCode \<Rightarrow> SetDetector | SetObservableCode \<Rightarrow> SetObservable)))"

definition to_bytes :: "instruction \<Rightarrow> u8 list" where
  "to_bytes i = (let (w, d0, d1, d2) = encode i in le_bytes4 w @ le_bytes4 d0 @ le_bytes4 d1 @ le_bytes4 d2)"

definition u32_at :: "u8 list \<Rightarrow> nat \<Rightarrow> u32" where
  "u32_at bytes i = from_le_bytes4 (bytes ! i) (bytes ! (i + 1)) (bytes ! (i + 2)) (bytes ! (i + 3))"

definition from_bytes :: "u8 list \<Rightarrow> decode_error + instruction" where
  "from_bytes bytes = decode (u32_at bytes 0) (u32_at bytes 4) (u32_at bytes 8) (u32_at bytes 12)"

section \<open>Encoding and decoding are inverse\<close>

text \<open>The category of an instruction, with its opcode.\<close>
definition category_of :: "instruction \<Rightarrow> opcode_category" where
  "category_of i = (case i of
     Cpu c \<Rightarrow> CpuOp (case c of
         ConstFloat _ \<Rightarrow> ConstFloatCode | ConstInt _ \<Rightarrow> ConstIntCode | Pop \<Rightarrow> PopCode
       | Dup \<Rightarrow> DupCode | Swap \<Rightarrow> SwapCode | Return \<Rightarrow> ReturnCode | Halt \<Rightarrow> HaltCode)
   | LaneConst c \<Rightarrow> LaneConstOp (case c of
         ConstLoc _ \<Rightarrow> ConstLocCode | ConstLane _ _ \<Rightarrow> ConstLaneCode | ConstZone _ \<Rightarrow> ConstZoneCode)
   | AtomArrangement c \<Rightarrow> AtomOp (case c of
         InitialFill _ \<Rightarrow> InitialFillCode | Fill _ \<Rightarrow> FillCode | Move _ \<Rightarrow> MoveCode)
   | QuantumGate c \<Rightarrow> GateOp (case c of
         LocalR _ \<Rightarrow> LocalRCode | LocalRz _ \<Rightarrow> LocalRzCode | GlobalR \<Rightarrow> GlobalRCode
       | GlobalRz \<Rightarrow> GlobalRzCode | CZ \<Rightarrow> CZCode)
   | Measurement c \<Rightarrow> MeasurementOp (case c of
         Measure _ \<Rightarrow> MeasureCode | AwaitMeasure \<Rightarrow> AwaitMeasureCode)
   | Array c \<Rightarrow> ArrayOp (case c of
         NewArray _ _ _ \<Rightarrow> NewArrayCode | GetItem _ \<Rightarrow> GetItemCode)
   | DetectorObservable c \<Rightarrow> DetectorOp (case c of
         SetDetector \<Rightarrow> SetDetectorCode | SetObservable \<Rightarrow> SetObservableCode))"

lemma opcode_category: "opcode i = category_opcode (category_of i)"
  by (cases i) (simp_all add: opcode_def category_of_def category_opcode_def)

lemma decode_opcode_of: "decode_opcode (ucast (opcode i)) = Inr (category_of i)"
  unfolding opcode_category by (rule decode_category)

lemma encode_word: "fst (encode i) = ucast (opcode i)"
  by (simp add: encode_def Let_def split: instruction.split cpu_instruction.split
      lane_const_instruction.split atom_instruction.split gate_instruction.split
      measurement_instruction.split array_instruction.split detector_instruction.split)

lemma new_array_fields:
  "(ucast (drop_bit 24 (push_bit 24 (ucast (t :: u8)) OR ucast (d :: u16) :: u32) AND 0xFF) :: u8) = t"
  "(ucast ((push_bit 24 (ucast t) OR ucast d :: u32) AND 0xFFFF) :: u16) = d"
  "(ucast ((ucast (e :: u16) :: u32) AND 0xFFFF) :: u16) = e"
  unfolding mask_literals
  by (auto intro!: bit_word_eqI simp: bit_simps) (use bit_imp_le_length in fastforce)+

lemma ndims_field: "(ucast (ucast (n :: u16) :: u32) :: u16) = n"
  by (auto intro!: bit_word_eqI simp: bit_simps)

lemma decode_encode: "(case encode i of (w, d0, d1, d2) \<Rightarrow> decode w d0 d1 d2) = Inr i"
proof (cases i)
  case (Cpu c)
  then show ?thesis
    by (cases c) (simp_all add: encode_def decode_def Let_def decode_opcode_of category_of_def)
next
  case (LaneConst c)
  then show ?thesis
    by (cases c) (simp_all add: encode_def decode_def Let_def decode_opcode_of category_of_def)
next
  case (AtomArrangement c)
  then show ?thesis
    by (cases c) (simp_all add: encode_def decode_def Let_def decode_opcode_of category_of_def)
next
  case (QuantumGate c)
  then show ?thesis
    by (cases c) (simp_all add: encode_def decode_def Let_def decode_opcode_of category_of_def)
next
  case (Measurement c)
  then show ?thesis
    by (cases c) (simp_all add: encode_def decode_def Let_def decode_opcode_of category_of_def)
next
  case (Array c)
  then show ?thesis
    by (cases c) (simp_all only: encode_def decode_def Let_def decode_opcode_of category_of_def prod.case
        instruction.case array_instruction.case opcode_category.case array_code.case sum.case
        new_array_fields ndims_field)
next
  case (DetectorObservable c)
  then show ?thesis
    by (cases c) (simp_all add: encode_def decode_def Let_def decode_opcode_of category_of_def)
qed

lemma decode_category_of: "decode w d0 d1 d2 = Inr i \<Longrightarrow> decode_opcode w = Inr (category_of i)"
  by (auto simp: decode_def Let_def category_of_def split: sum.splits opcode_category.splits
      cpu_code.splits lane_const_code.splits atom_code.splits gate_code.splits measurement_code.splits
      array_code.splits detector_code.splits)

section \<open>Items of a fixed number of bytes\<close>

text \<open>Reading \<open>count\<close> items one after the other, stopping at the first error.\<close>
fun read_items :: "(u8 list \<Rightarrow> 'e + 'a) \<Rightarrow> nat \<Rightarrow> nat \<Rightarrow> u8 list \<Rightarrow> 'e + 'a list" where
  "read_items dec width 0 bytes = Inr []"
| "read_items dec width (Suc count) bytes =
     (case dec (take width bytes) of
        Inl e \<Rightarrow> Inl e
      | Inr x \<Rightarrow> (case read_items dec width count (drop width bytes) of
            Inl e \<Rightarrow> Inl e | Inr xs \<Rightarrow> Inr (x # xs)))"

locale fixed_width_codec =
  fixes enc :: "'a \<Rightarrow> u8 list" and dec :: "u8 list \<Rightarrow> 'e + 'a" and width :: nat
  assumes length_enc: "length (enc x) = width" and dec_enc: "dec (enc x) = Inr x"
begin

lemma enc_inj: "enc x = enc y \<Longrightarrow> x = y"
  by (metis dec_enc sum.inject(2))

lemma length_encs: "length (concat (map enc xs)) = length xs * width"
proof (induction xs)
  case (Cons x xs)
  have "length (concat (map enc (x # xs))) = length (enc x) + length (concat (map enc xs))"
    by (simp only: list.map concat.simps length_append)
  then show ?case by (simp only: Cons length_enc list.size mult_Suc add_0_right add_Suc_right)
qed simp

lemma take_drop_enc: "take width (enc x @ r) = enc x" "drop width (enc x @ r) = r"
  using length_enc[of x] by simp_all

lemma read_items_enc: "read_items dec width (length xs) (concat (map enc xs) @ rest) = Inr xs"
  by (induction xs) (simp_all add: take_drop_enc dec_enc del: take_append drop_append)

text \<open>Reading fewer items gives a prefix.\<close>
lemma read_items_take:
  "n \<le> length xs \<Longrightarrow> read_items dec width n (concat (map enc xs) @ rest) = Inr (take n xs)"
proof (induction xs arbitrary: n)
  case (Cons x xs)
  then show ?case by (cases n) (simp_all add: take_drop_enc dec_enc del: take_append drop_append)
qed simp

end

lemma to_bytes_words:
  assumes "encode i = (w, d0, d1, d2)"
  shows "u32_at (to_bytes i) 0 = w" "u32_at (to_bytes i) 4 = d0" "u32_at (to_bytes i) 8 = d1"
    "u32_at (to_bytes i) 12 = d2"
  by (simp_all add: to_bytes_def assms u32_at_def le_bytes4_def)

interpretation instr_codec: fixed_width_codec to_bytes from_bytes 16
proof
  fix i
  obtain w d0 d1 d2 where e: "encode i = (w, d0, d1, d2)" by (cases "encode i")
  then show "length (to_bytes i) = 16" by (simp add: to_bytes_def)
  show "from_bytes (to_bytes i) = Inr i"
    using decode_encode[of i] e by (simp add: from_bytes_def to_bytes_words[OF e])
qed

section \<open>Properties\<close>

text \<open>Every instruction has sixteen bytes, is read back from them, and two instructions have
  the same bytes only when they are equal; a word sequence that decodes carries the opcode of the
  instruction it gives, so unassigned opcodes never decode.\<close>
theorem instruction_bytes_roundtrip:
  "length (to_bytes i) = 16 \<and> from_bytes (to_bytes i) = Inr i
   \<and> (to_bytes i = to_bytes j \<longleftrightarrow> i = j)
   \<and> (case decode w d0 d1 d2 of Inl e \<Rightarrow> True | Inr k \<Rightarrow> w = ucast (opcode k))"
  using instr_codec.length_enc instr_codec.dec_enc instr_codec.enc_inj decode_category_of[of w d0 d1 d2]
  by (auto simp: opcode_category dest!: decode_opcode_Inr split: sum.split)

end
