(* ===== verification/Program.thy ===== *)
theory Program
  imports Instruction Version
begin

text \<open>
  The BLQD program file: \<open>bytecode/program.rs\<close>.  The reader walks a byte vector by offset
  and indexes it without further checks, so a read out of range is a panic here and the reader
  is shown to have none.  Its contract is stated over \<^emph>\<open>sections\<close>, the pairs of a type and a
  payload that a file lists after its header.
\<close>

section \<open>Programs, errors and the writer\<close>

record program =
  version_of :: version
  instructions :: "instruction list"

datatype program_error =
    BadMagic
  | Truncated nat nat
  | UnknownSectionType u32
  | InvalidCodeSectionLength nat
  | MissingMetadataSection
  | MissingCodeSection
  | Decode decode_error

definition magic :: "u8 list" where "magic = [0x42, 0x4C, 0x51, 0x44]"

definition section_type_metadata :: u32 where "section_type_metadata = 0"
definition section_type_code :: u32 where "section_type_code = 1"

definition to_binary :: "program \<Rightarrow> u8 list" where
  "to_binary p =
     (let code_payload_len = length (instructions p) * 16
      in magic @ le_bytes4 2
         @ le_bytes4 section_type_metadata @ le_bytes4 4 @ le_bytes4 (version_to_u32 (version_of p))
         @ le_bytes4 section_type_code @ le_bytes4 (of_nat code_payload_len)
         @ concat (map to_bytes (instructions p)))"

section \<open>The reader\<close>

text \<open>Indexing four bytes and slicing sixteen: both panic out of range.\<close>
definition read_u32 :: "u8 list \<Rightarrow> nat \<Rightarrow> u32 outcome" where
  "read_u32 bytes i = (if i + 3 < length bytes then Returned (u32_at bytes i) else Panicked)"

definition read_chunk :: "u8 list \<Rightarrow> nat \<Rightarrow> u8 list outcome" where
  "read_chunk bytes start =
     (if start + 16 \<le> length bytes then Returned (take 16 (drop start bytes)) else Panicked)"

fun read_instructions :: "u8 list \<Rightarrow> nat \<Rightarrow> nat \<Rightarrow> (program_error + instruction list) outcome" where
  "read_instructions bytes start 0 = Returned (Inr [])"
| "read_instructions bytes start (Suc count) =
     bind_outcome (read_chunk bytes start) (\<lambda>arr.
       case from_bytes arr of
         Inl e \<Rightarrow> Returned (Inl (Decode e))
       | Inr i \<Rightarrow> bind_outcome (read_instructions bytes (start + 16) count) (\<lambda>r.
           Returned (case r of Inl e \<Rightarrow> Inl e | Inr instrs \<Rightarrow> Inr (i # instrs))))"

type_synonym read_state = "version option \<times> instruction list option"

definition read_section :: "u8 list \<Rightarrow> u32 \<Rightarrow> nat \<Rightarrow> nat \<Rightarrow> read_state \<Rightarrow> (program_error + read_state) outcome" where
  "read_section bytes section_type section_length offset st =
     (if section_type = section_type_metadata then
        (if section_length < 4 then Returned (Inl (Truncated 4 section_length))
         else bind_outcome (read_u32 bytes offset) (\<lambda>v.
                Returned (Inr (Some (version_from_u32 v), snd st))))
      else if section_type = section_type_code then
        (if section_length mod 16 \<noteq> 0 then Returned (Inl (InvalidCodeSectionLength section_length))
         else bind_outcome (read_instructions bytes offset (section_length div 16)) (\<lambda>r.
                Returned (case r of Inl e \<Rightarrow> Inl e | Inr instrs \<Rightarrow> Inr (fst st, Some instrs))))
      else Returned (Inl (UnknownSectionType section_type)))"

fun read_sections :: "u8 list \<Rightarrow> nat \<Rightarrow> nat \<Rightarrow> read_state \<Rightarrow> (program_error + read_state) outcome" where
  "read_sections bytes 0 offset st = Returned (Inr st)"
| "read_sections bytes (Suc count) offset st =
     (if length bytes < offset + 8 then Returned (Inl (Truncated (offset + 8) (length bytes)))
      else bind_outcome (read_u32 bytes offset) (\<lambda>section_type.
           bind_outcome (read_u32 bytes (offset + 4)) (\<lambda>len.
             let section_length = unat len; offset = offset + 8 in
             if length bytes < offset + section_length
             then Returned (Inl (Truncated (offset + section_length) (length bytes)))
             else bind_outcome (read_section bytes section_type section_length offset st) (\<lambda>r.
               case r of
                 Inl e \<Rightarrow> Returned (Inl e)
               | Inr st \<Rightarrow> read_sections bytes count (offset + section_length) st))))"

definition from_binary :: "u8 list \<Rightarrow> (program_error + program) outcome" where
  "from_binary bytes =
     (if length bytes < 8 then Returned (Inl (Truncated 8 (length bytes)))
      else if take 4 bytes \<noteq> magic then Returned (Inl BadMagic)
      else bind_outcome (read_u32 bytes 4) (\<lambda>section_count.
           bind_outcome (read_sections bytes (unat section_count) 8 (None, None)) (\<lambda>r.
             Returned (case r of
               Inl e \<Rightarrow> Inl e
             | Inr (None, _) \<Rightarrow> Inl MissingMetadataSection
             | Inr (Some v, None) \<Rightarrow> Inl MissingCodeSection
             | Inr (Some v, Some instrs) \<Rightarrow> Inr \<lparr>version_of = v, instructions = instrs\<rparr>))))"

section \<open>Sections\<close>

type_synonym file_section = "u32 \<times> u8 list"

definition section_bytes :: "file_section \<Rightarrow> u8 list" where
  "section_bytes s = le_bytes4 (fst s) @ le_bytes4 (of_nat (length (snd s))) @ snd s"

text \<open>What one section contributes, and a list of them: the last of each type wins.\<close>
definition section_effect :: "file_section \<Rightarrow> read_state \<Rightarrow> read_state option" where
  "section_effect s st =
     (if fst s = section_type_metadata then
        (if 4 \<le> length (snd s) then Some (Some (version_from_u32 (u32_at (snd s) 0)), snd st) else None)
      else if fst s = section_type_code \<and> 16 dvd length (snd s) then
        (case read_items from_bytes 16 (length (snd s) div 16) (snd s) of
           Inl e \<Rightarrow> None | Inr instrs \<Rightarrow> Some (fst st, Some instrs))
      else None)"

fun section_effects :: "file_section list \<Rightarrow> read_state \<Rightarrow> read_state option" where
  "section_effects [] st = Some st"
| "section_effects (s # ss) st =
     (case section_effect s st of None \<Rightarrow> None | Some st' \<Rightarrow> section_effects ss st')"

text \<open>A byte vector lists the sections after the header; what follows them is not read.\<close>
definition file_lists :: "u8 list \<Rightarrow> file_section list \<Rightarrow> bool" where
  "file_lists bytes ss \<longleftrightarrow>
     length ss < 2 ^ 32 \<and> (\<forall>s \<in> set ss. length (snd s) < 2 ^ 32)
     \<and> (\<exists>rest. bytes = magic @ le_bytes4 (of_nat (length ss)) @ concat (map section_bytes ss) @ rest)"

lemma u32_at_le [simp]: "u32_at (le_bytes4 w @ r) 0 = w"
  by (simp add: u32_at_def le_bytes4_def)

lemma u32_at_drop: "u32_at (drop k xs) i = u32_at xs (k + i)" if "k \<le> length xs"
  using that by (simp add: u32_at_def add.assoc)

lemma u32_at_take: "i + 3 < n \<Longrightarrow> u32_at (take n xs) i = u32_at xs i"
  by (simp add: u32_at_def)

lemma split_word:
  assumes "4 \<le> length xs"
  obtains w r where "xs = le_bytes4 w @ r"
proof -
  obtain a b c d r where "xs = a # b # c # d # r"
    using assms by (cases xs; cases "tl xs"; cases "tl (tl xs)"; cases "tl (tl (tl xs))") auto
  then show ?thesis using that[of "u32_at xs 0" r] by (simp add: u32_at_def)
qed

lemma read_u32_in: "i + 3 < length bytes \<Longrightarrow> read_u32 bytes i = Returned (u32_at (drop i bytes) 0)"
  by (simp add: read_u32_def u32_at_drop)

text \<open>Within the bounds the loop over the code section is the bounded reader of items.\<close>
lemma read_instructions_items:
  "start + 16 * count \<le> length bytes \<Longrightarrow>
   read_instructions bytes start count =
     Returned (map_sum Decode (\<lambda>is. is) (read_items from_bytes 16 count (drop start bytes)))"
proof (induction count arbitrary: start)
  case (Suc count)
  have "read_chunk bytes start = Returned (take 16 (drop start bytes))"
    using Suc.prems by (simp add: read_chunk_def)
  moreover have "read_instructions bytes (start + 16) count =
      Returned (map_sum Decode (\<lambda>is. is) (read_items from_bytes 16 count (drop 16 (drop start bytes))))"
    using Suc.IH[of "start + 16"] Suc.prems by (simp add: add.commute)
  ultimately show ?case by (simp split: sum.split)
qed simp

lemma read_items_prefix:
  "width * count \<le> n \<Longrightarrow> read_items dec width count (take n xs) = read_items dec width count xs"
proof (induction count arbitrary: n xs)
  case (Suc count)
  then have "read_items dec width count (take (n - width) (drop width xs)) = read_items dec width count (drop width xs)"
    by simp
  moreover have "take width (take n xs) = take width xs" using Suc.prems by (simp add: min_def)
  ultimately show ?case by (simp only: read_items.simps drop_take)
qed simp

lemma read_section_effect:
  assumes "offset + len \<le> length bytes"
  shows "\<exists>r. read_section bytes t len offset st = Returned r
     \<and> (case r of Inl e \<Rightarrow> None | Inr st' \<Rightarrow> Some st') = section_effect (t, take len (drop offset bytes)) st"
proof -
  let ?p = "take len (drop offset bytes)"
  have len: "length ?p = len" using assms by simp
  have meta: "read_u32 bytes offset = Returned (u32_at ?p 0)" if "4 \<le> len"
    using assms that by (simp add: read_u32_in u32_at_take)
  have code: "read_instructions bytes offset (len div 16) =
      Returned (map_sum Decode (\<lambda>is. is) (read_items from_bytes 16 (len div 16) ?p))"
    using assms by (subst read_instructions_items) (simp_all add: read_items_prefix)
  show ?thesis
    using meta code unfolding read_section_def section_effect_def fst_conv snd_conv len
    by (auto simp: mod_eq_0_iff_dvd section_type_metadata_def section_type_code_def split: sum.splits)
qed

lemma effects_Some:
  "section_effects (s # ss) st = Some r \<longleftrightarrow> (\<exists>st'. section_effect s st = Some st' \<and> section_effects ss st' = Some r)"
  by (auto split: option.splits)

text \<open>The reader at an offset is the sequence of effects of the sections listed there.\<close>
lemma read_sections_total: "\<exists>r. read_sections bytes n offset st = Returned r"
proof (induction n arbitrary: offset st)
  case (Suc n)
  show ?case
  proof (cases "length bytes < offset + 8")
    case False
    define len where "len = unat (u32_at (drop (offset + 4) bytes) 0)"
    show ?thesis
    proof (cases "length bytes < offset + 8 + len")
      case False
      then obtain r where "read_section bytes (u32_at (drop offset bytes) 0) len (offset + 8) st = Returned r"
        using read_section_effect[of "offset + 8" len bytes "u32_at (drop offset bytes) 0" st]
        by (auto simp: not_less)
      then show ?thesis using Suc.IH False \<open>\<not> length bytes < offset + 8\<close>
        by (auto simp: read_u32_in Let_def len_def split: sum.split)
    qed (use \<open>\<not> length bytes < offset + 8\<close> in \<open>simp add: read_u32_in Let_def len_def\<close>)
  qed simp
qed simp

lemma read_sections_step:
  assumes "drop offset bytes = section_bytes s @ rest" "offset \<le> length bytes" "length (snd s) < 2 ^ 32"
  shows "read_sections bytes (Suc n) offset st = Returned (Inr r) \<longleftrightarrow>
     (\<exists>st'. section_effect s st = Some st'
        \<and> read_sections bytes n (offset + 8 + length (snd s)) st' = Returned (Inr r))"
proof -
  let ?len = "length (snd s)"
  have "length bytes = offset + 8 + ?len + length rest"
    using arg_cong[OF assms(1), of length] assms(2) by (simp add: section_bytes_def)
  then have bounds: "\<not> length bytes < offset + 8" "\<not> length bytes < offset + 8 + ?len" by simp_all
  have "drop (offset + 4) bytes = drop 4 (drop offset bytes)" by (simp add: add.commute)
  then have words: "read_u32 bytes offset = Returned (fst s)" "read_u32 bytes (offset + 4) = Returned (of_nat ?len)"
    using bounds assms(1) by (simp_all add: read_u32_in section_bytes_def)
  have len: "unat (of_nat ?len :: u32) = ?len" using assms(3) by (simp add: unsigned_of_nat take_bit_nat_eq_self)
  have "drop (offset + 8) bytes = drop 8 (drop offset bytes)" by (simp add: add.commute)
  then have "take ?len (drop (offset + 8) bytes) = snd s" using assms(1) by (simp add: section_bytes_def)
  then obtain q where "read_section bytes (fst s) ?len (offset + 8) st = Returned q"
    "(case q of Inl e \<Rightarrow> None | Inr st' \<Rightarrow> Some st') = section_effect s st"
    using read_section_effect[of "offset + 8" ?len bytes "fst s" st] bounds by (auto simp: not_less)
  then show ?thesis
    using bounds words len by (cases q) (auto simp: Let_def dest: sym[of "Some _"])
qed

lemma read_sections_split:
  assumes "read_sections bytes (Suc n) offset st = Returned (Inr r)" "offset \<le> length bytes"
  obtains s rest where "drop offset bytes = section_bytes s @ rest" "length (snd s) < 2 ^ 32"
proof -
  have b8: "offset + 8 \<le> length bytes" using assms by (simp add: not_less split: if_splits)
  obtain t r1 where r1: "drop offset bytes = le_bytes4 t @ r1"
    by (rule split_word[of "drop offset bytes"]) (use b8 in simp)
  have "8 \<le> length (drop offset bytes)" using b8 by simp
  then have "4 \<le> length r1" unfolding r1 by simp
  then obtain l r2 where r2: "r1 = le_bytes4 l @ r2" by (rule split_word)
  have d4: "drop (offset + 4) bytes = r1"
    using arg_cong[OF r1, of "drop 4"] by (simp add: add.commute)
  have "offset + 8 + unat l \<le> length bytes"
    using assms b8 d4 r1 r2 by (simp add: read_u32_in Let_def not_less split: if_splits)
  then have "unat l \<le> length r2"
    using arg_cong[OF r1, of length] by (simp add: r2)
  then have "drop offset bytes = section_bytes (t, take (unat l) r2) @ drop (unat l) r2"
    "length (snd (t, take (unat l) r2)) < 2 ^ 32"
    using r1 r2 unsigned_less[of l] by (simp_all add: section_bytes_def min_def)
  then show ?thesis by (rule that)
qed

lemma read_sections_iff:
  "offset \<le> length bytes \<Longrightarrow>
   read_sections bytes n offset st = Returned (Inr r) \<longleftrightarrow>
     (\<exists>ss rest. drop offset bytes = concat (map section_bytes ss) @ rest \<and> length ss = n
        \<and> (\<forall>s \<in> set ss. length (snd s) < 2 ^ 32) \<and> section_effects ss st = Some r)"
proof (induction n arbitrary: offset st)
  case (Suc n)
  have next_offset: "offset + 8 + length (snd s) \<le> length bytes"
    "drop (offset + 8 + length (snd s)) bytes = rest"
    if "drop offset bytes = section_bytes s @ rest" for s rest
  proof -
    have "length (drop offset bytes) = 8 + length (snd s) + length rest"
      unfolding that by (simp add: section_bytes_def)
    then show "offset + 8 + length (snd s) \<le> length bytes" using Suc.prems by simp
    have "drop (offset + 8 + length (snd s)) bytes = drop (8 + length (snd s)) (drop offset bytes)"
      by (simp add: ac_simps)
    then show "drop (offset + 8 + length (snd s)) bytes = rest"
      unfolding that by (simp add: section_bytes_def)
  qed
  show ?case
  proof
    assume r: "read_sections bytes (Suc n) offset st = Returned (Inr r)"
    then obtain s rest where s: "drop offset bytes = section_bytes s @ rest" "length (snd s) < 2 ^ 32"
      using Suc.prems by (rule read_sections_split)
    then obtain st' where st': "section_effect s st = Some st'"
      "read_sections bytes n (offset + 8 + length (snd s)) st' = Returned (Inr r)"
      using r Suc.prems read_sections_step by blast
    then obtain ss rest' where "rest = concat (map section_bytes ss) @ rest'" "length ss = n"
      "\<forall>s \<in> set ss. length (snd s) < 2 ^ 32" "section_effects ss st' = Some r"
      using Suc.IH[OF next_offset(1)[OF s(1)]] next_offset(2)[OF s(1)] by auto
    then show "\<exists>ss rest. drop offset bytes = concat (map section_bytes ss) @ rest \<and> length ss = Suc n
        \<and> (\<forall>s \<in> set ss. length (snd s) < 2 ^ 32) \<and> section_effects ss st = Some r"
      using s st' by (intro exI[of _ "s # ss"] exI[of _ rest']) simp
  next
    assume "\<exists>ss rest. drop offset bytes = concat (map section_bytes ss) @ rest \<and> length ss = Suc n
        \<and> (\<forall>s \<in> set ss. length (snd s) < 2 ^ 32) \<and> section_effects ss st = Some r"
    then obtain s ss rest where ss: "drop offset bytes = section_bytes s @ concat (map section_bytes ss) @ rest"
      "length ss = n" "length (snd s) < 2 ^ 32" "\<forall>s \<in> set ss. length (snd s) < 2 ^ 32"
      "section_effects (s # ss) st = Some r"
      by (auto simp: length_Suc_conv)
    then obtain st' where "section_effect s st = Some st'" "section_effects ss st' = Some r"
      unfolding effects_Some by blast
    then show "read_sections bytes (Suc n) offset st = Returned (Inr r)"
      using ss(2,4) next_offset(2)[OF ss(1)] Suc.IH[OF next_offset(1)[OF ss(1)]]
        read_sections_step[OF ss(1) Suc.prems ss(3)] by blast
  qed
qed auto

text \<open>A header, and what the reader does after it.\<close>
lemma length_magic [simp]: "length magic = 4" by (simp add: magic_def)

lemma split_header:
  assumes "\<not> length bytes < 8" "take 4 bytes = magic"
  obtains w r where "bytes = magic @ le_bytes4 w @ r"
proof -
  have "4 \<le> length (drop 4 bytes)" using assms(1) by simp
  then obtain w r where "drop 4 bytes = le_bytes4 w @ r" by (rule split_word)
  then show ?thesis using that append_take_drop_id[of 4 bytes] assms(2) by metis
qed

lemma from_binary_header:
  "from_binary (magic @ le_bytes4 w @ r) =
     bind_outcome (read_sections (magic @ le_bytes4 w @ r) (unat w) 8 (None, None)) (\<lambda>r.
       Returned (case r of
         Inl e \<Rightarrow> Inl e
       | Inr (None, _) \<Rightarrow> Inl MissingMetadataSection
       | Inr (Some v, None) \<Rightarrow> Inl MissingCodeSection
       | Inr (Some v, Some instrs) \<Rightarrow> Inr \<lparr>version_of = v, instructions = instrs\<rparr>))"
  by (simp add: from_binary_def read_u32_in)

lemma from_binary_total: "from_binary bytes \<noteq> Panicked"
proof (cases "length bytes < 8 \<or> take 4 bytes \<noteq> magic")
  case False
  then obtain w r where b: "bytes = magic @ le_bytes4 w @ r" by (meson split_header)
  obtain q where "read_sections bytes (unat w) 8 (None, None) = Returned q"
    using read_sections_total by blast
  then show ?thesis unfolding b by (simp add: from_binary_header)
qed (auto simp: from_binary_def)

lemma program_case:
  "(case q of (None, _) \<Rightarrow> Inl MissingMetadataSection
     | (Some v, None) \<Rightarrow> Inl MissingCodeSection
     | (Some v, Some instrs) \<Rightarrow> Inr \<lparr>version_of = v, instructions = instrs\<rparr>) = Inr p
   \<longleftrightarrow> q = (Some (version_of p), Some (instructions p))"
  by (cases p) (auto split: prod.split option.split)

lemma from_binary_header_iff:
  "from_binary (magic @ le_bytes4 w @ r) = Returned (Inr p) \<longleftrightarrow>
     (\<exists>ss rest. r = concat (map section_bytes ss) @ rest \<and> length ss = unat w
        \<and> (\<forall>s \<in> set ss. length (snd s) < 2 ^ 32)
        \<and> section_effects ss (None, None) = Some (Some (version_of p), Some (instructions p)))"
proof -
  let ?b = "magic @ le_bytes4 w @ r"
  obtain q where q: "read_sections ?b (unat w) 8 (None, None) = Returned q"
    using read_sections_total by blast
  have "from_binary ?b = Returned (Inr p) \<longleftrightarrow>
      read_sections ?b (unat w) 8 (None, None) = Returned (Inr (Some (version_of p), Some (instructions p)))"
    unfolding from_binary_header q bind_outcome_simps
    by (cases q) (simp_all add: program_case)
  then show ?thesis by (simp add: read_sections_iff)
qed

section \<open>Properties\<close>

text \<open>C37. Reading any byte vector returns, without an index out of range: the bounds checks of the
  reader cover every read.  It accepts a vector exactly when that is a header followed by the
  counted sections, each of a known type and well formed; the program is the last metadata section's
  version and the last code section's instructions, and bytes after the counted sections are
  ignored.\<close>
theorem from_binary_spec:
  "from_binary bytes \<noteq> Panicked
   \<and> (from_binary bytes = Returned (Inr p) \<longleftrightarrow>
        (\<exists>ss. file_lists bytes ss
           \<and> section_effects ss (None, None) = Some (Some (version_of p), Some (instructions p))))"
proof (intro conjI iffI)
  assume acc: "from_binary bytes = Returned (Inr p)"
  then obtain w r where b: "bytes = magic @ le_bytes4 w @ r"
    by (metis Inl_Inr_False from_binary_def outcome.inject split_header)
  obtain ss where ss: "\<exists>rest. r = concat (map section_bytes ss) @ rest" "length ss = unat w"
    "\<forall>s \<in> set ss. length (snd s) < 2 ^ 32"
    "section_effects ss (None, None) = Some (Some (version_of p), Some (instructions p))"
    using acc unfolding b from_binary_header_iff by blast
  moreover have "of_nat (length ss) = w" "length ss < 2 ^ 32"
    using unsigned_less[of w] by (simp_all add: ss(2))
  ultimately show "\<exists>ss. file_lists bytes ss
      \<and> section_effects ss (None, None) = Some (Some (version_of p), Some (instructions p))"
    unfolding file_lists_def b by blast
next
  assume "\<exists>ss. file_lists bytes ss
      \<and> section_effects ss (None, None) = Some (Some (version_of p), Some (instructions p))"
  then obtain ss rest where "bytes = magic @ le_bytes4 (of_nat (length ss)) @ concat (map section_bytes ss) @ rest"
    "length ss = unat (of_nat (length ss) :: u32)" "\<forall>s \<in> set ss. length (snd s) < 2 ^ 32"
    "section_effects ss (None, None) = Some (Some (version_of p), Some (instructions p))"
    by (auto simp: file_lists_def unsigned_of_nat take_bit_nat_eq_self)
  then show "from_binary bytes = Returned (Inr p)" using from_binary_header_iff by blast
qed (rule from_binary_total)

text \<open>C38. Writing a program and reading it back gives the program with its first
  \<open>n mod 2\<^sup>2\<^sup>8\<close> instructions: the length of the code section is cast to 32 bits, so the
  round trip is exact below \<open>2\<^sup>2\<^sup>8\<close> instructions and silently loses the others above it.\<close>
theorem program_roundtrip:
  "from_binary (to_binary p) =
     Returned (Inr (p\<lparr>instructions := take (length (instructions p) mod 2 ^ 28) (instructions p)\<rparr>))"
proof -
  define k where "k = length (instructions p) mod 2 ^ 28"
  let ?is = "instructions p"
  let ?code = "concat (map to_bytes (take k ?is))"
  have n: "k \<le> length ?is" "k * 16 < 2 ^ 32" by (simp_all add: k_def)
  have code: "length ?code = k * 16"
    using n(1) by (simp only: instr_codec.length_encs length_take min_absorb2)
  have "(length ?is * 16) mod (2 ^ 28 * 16) = k * 16" unfolding k_def by (rule mod_mult_mult2)
  then have "(of_nat (length ?is * 16) :: u32) = of_nat (k * 16)"
    by (simp add: word_of_nat_eq_iff take_bit_eq_mod del: of_nat_mult)
  then have len: "(of_nat (length ?is * 16) :: u32) = of_nat (length ?code)" by (simp only: code)
  have "concat (map to_bytes ?is) = ?code @ concat (map to_bytes (drop k ?is))"
    by (simp flip: concat_append map_append)
  then have bytes: "to_binary p = magic @ le_bytes4 2 @ concat (map section_bytes
      [(section_type_metadata, le_bytes4 (version_to_u32 (version_of p))), (section_type_code, ?code)])
      @ concat (map to_bytes (drop k ?is))"
    by (simp add: to_binary_def section_bytes_def len del: of_nat_mult)
  have items: "read_items from_bytes 16 k ?code = Inr (take k ?is)"
    using instr_codec.read_items_enc[of "take k ?is" "[]"]
    by (simp only: append_Nil2 length_take min_absorb2[OF n(1)])
  show ?thesis
    unfolding bytes k_def[symmetric] from_binary_header_iff
    by (intro exI conjI, rule refl)
      (use items n(2) in \<open>simp_all add: section_effect_def section_type_metadata_def
        section_type_code_def code del: length_concat add: u32_at_le[where r = "[]", simplified]\<close>)
qed

end
