(* ===== verification/Value.thy ===== *)
theory Value
  imports Instruction
begin

text \<open>
  Tagged values: \<open>bytecode/value.rs\<close>.  A value is a type tag and sixty-four raw bits; the
  validator's stack holds the same tags.
\<close>

definition tag_float :: u8 where "tag_float = 0x0"
definition tag_int :: u8 where "tag_int = 0x1"
definition tag_array_ref :: u8 where "tag_array_ref = 0x2"
definition tag_location :: u8 where "tag_location = 0x3"
definition tag_lane :: u8 where "tag_lane = 0x4"
definition tag_zone :: u8 where "tag_zone = 0x5"
definition tag_measure_future :: u8 where "tag_measure_future = 0x6"
definition tag_detector_ref :: u8 where "tag_detector_ref = 0x7"
definition tag_observable_ref :: u8 where "tag_observable_ref = 0x8"

lemmas tag_defs = tag_float_def tag_int_def tag_array_ref_def tag_location_def tag_lane_def tag_zone_def
  tag_measure_future_def tag_detector_ref_def tag_observable_ref_def

datatype cpu_value =
    FloatValue f64
  | IntValue i64

datatype array_value = ArrayRef u32

datatype device_value =
    LocationValue u32
  | LaneValue u64
  | ZoneValue u32
  | MeasureFuture u32
  | DetectorRef u32
  | ObservableRef u32

datatype tagged_value =
    CpuValue cpu_value
  | ArrayValue array_value
  | DeviceValue device_value

definition type_tag :: "tagged_value \<Rightarrow> u8" where
  "type_tag v = (case v of
     CpuValue (FloatValue _) \<Rightarrow> tag_float
   | CpuValue (IntValue _) \<Rightarrow> tag_int
   | ArrayValue (ArrayRef _) \<Rightarrow> tag_array_ref
   | DeviceValue (LocationValue _) \<Rightarrow> tag_location
   | DeviceValue (LaneValue _) \<Rightarrow> tag_lane
   | DeviceValue (ZoneValue _) \<Rightarrow> tag_zone
   | DeviceValue (MeasureFuture _) \<Rightarrow> tag_measure_future
   | DeviceValue (DetectorRef _) \<Rightarrow> tag_detector_ref
   | DeviceValue (ObservableRef _) \<Rightarrow> tag_observable_ref)"

definition raw_bits :: "tagged_value \<Rightarrow> u64" where
  "raw_bits v = (case v of
     CpuValue (FloatValue f) \<Rightarrow> to_bits f
   | CpuValue (IntValue i) \<Rightarrow> i
   | ArrayValue (ArrayRef w) \<Rightarrow> ucast w
   | DeviceValue (LocationValue w) \<Rightarrow> ucast w
   | DeviceValue (LaneValue w) \<Rightarrow> w
   | DeviceValue (ZoneValue w) \<Rightarrow> ucast w
   | DeviceValue (MeasureFuture w) \<Rightarrow> ucast w
   | DeviceValue (DetectorRef w) \<Rightarrow> ucast w
   | DeviceValue (ObservableRef w) \<Rightarrow> ucast w)"

definition from_tag_and_bits :: "u8 \<Rightarrow> u64 \<Rightarrow> decode_error + tagged_value" where
  "from_tag_and_bits tag bits =
     (if tag = tag_float then Inr (CpuValue (FloatValue (F64 bits)))
      else if tag = tag_int then Inr (CpuValue (IntValue bits))
      else if tag = tag_array_ref then Inr (ArrayValue (ArrayRef (ucast bits)))
      else if tag = tag_location then Inr (DeviceValue (LocationValue (ucast bits)))
      else if tag = tag_lane then Inr (DeviceValue (LaneValue bits))
      else if tag = tag_zone then Inr (DeviceValue (ZoneValue (ucast bits)))
      else if tag = tag_measure_future then Inr (DeviceValue (MeasureFuture (ucast bits)))
      else if tag = tag_detector_ref then Inr (DeviceValue (DetectorRef (ucast bits)))
      else if tag = tag_observable_ref then Inr (DeviceValue (ObservableRef (ucast bits)))
      else Inl (InvalidTypeTag 0 tag))"

text \<open>The number of raw bits that a value of each tag keeps.\<close>
definition kept_bits :: "u8 \<Rightarrow> nat" where
  "kept_bits tag = (if tag = tag_float \<or> tag = tag_int \<or> tag = tag_lane then 64 else 32)"

lemma cast_low [simp]: "ucast (ucast (w :: u64) :: u32) = (take_bit 32 w :: u64)"
  by (rule bit_word_eqI) (auto simp: bit_simps)

lemma take_bit_64 [simp]: "take_bit 64 (w :: u64) = w"
  by (rule bit_word_eqI) (simp add: bit_simps)

lemma cast_up_down [simp]: "ucast (ucast (w :: u32) :: u64) = w"
  by (rule bit_word_eqI) (auto simp: bit_simps)

lemma type_tag_range: "type_tag v \<le> 8"
  by (cases v) (auto simp: type_tag_def tag_defs split: cpu_value.split array_value.split device_value.split)

lemma small_tag: "tag \<le> (8 :: u8) \<Longrightarrow> tag \<in> {0, 1, 2, 3, 4, 5, 6, 7, 8}"
proof -
  assume "tag \<le> 8"
  then have "unat tag \<le> 8" by (simp add: word_le_nat_alt)
  then have "unat tag \<in> {..8}" by simp
  also have "{..8 :: nat} = {0, 1, 2, 3, 4, 5, 6, 7, 8}" by (auto simp: eval_nat_numeral)
  finally have "(of_nat (unat tag) :: u8) \<in> of_nat ` {0, 1, 2, 3, 4, 5, 6, 7, 8}" by blast
  then show ?thesis by simp
qed

text \<open>Tags and raw bits determine a value: it is rebuilt from them, and a pair of a tag and bits
  is read exactly when the tag is one of the nine, giving a value with that tag whose raw bits are
  the given ones cut to the width of the kind.  Only lanes and the two scalar kinds keep all
  sixty-four bits, so the zone and word of a packed location (its upper half) are lost.\<close>
theorem value_tag_roundtrip:
  "from_tag_and_bits (type_tag v) (raw_bits v) = Inr v
   \<and> (case from_tag_and_bits tag bits of
        Inl e \<Rightarrow> 8 < tag \<and> e = InvalidTypeTag 0 tag
      | Inr w \<Rightarrow> tag \<le> 8 \<and> type_tag w = tag \<and> raw_bits w = take_bit (kept_bits tag) bits)"
proof
  show "from_tag_and_bits (type_tag v) (raw_bits v) = Inr v"
    by (cases v) (auto simp: from_tag_and_bits_def type_tag_def raw_bits_def tag_defs
        split: cpu_value.split array_value.split device_value.split)
  consider "tag \<in> {0, 1, 2, 3, 4, 5, 6, 7, 8}" | "8 < tag" using small_tag linorder_not_less by blast
  then show "case from_tag_and_bits tag bits of
        Inl e \<Rightarrow> 8 < tag \<and> e = InvalidTypeTag 0 tag
      | Inr w \<Rightarrow> tag \<le> 8 \<and> type_tag w = tag \<and> raw_bits w = take_bit (kept_bits tag) bits"
  proof cases
    case 1
    then show ?thesis
      by (auto simp: from_tag_and_bits_def type_tag_def raw_bits_def tag_defs kept_bits_def)
  next
    case 2
    then have "tag \<notin> {0, 1, 2, 3, 4, 5, 6, 7, 8}" by (auto simp: word_less_nat_alt)
    with 2 show ?thesis by (simp add: from_tag_and_bits_def tag_defs)
  qed
qed

end
