(* ===== verification/Bc_Structure.thy ===== *)
theory Bc_Structure
  imports Program Value Arch_Groups
begin

text \<open>
  Static checks of a program: the first three layers of \<open>bytecode/validate.rs\<close>, the
  structural scan, the address constants and the device capabilities.  Every check is a loop over
  the instructions with their index, collecting errors.
\<close>

datatype validation_error =
    NewArrayZeroDim0 nat
  | NewArrayInvalidTypeTag nat u8
  | InitialFillNotFirst nat
  | StackUnderflow nat
  | TypeMismatch nat u8 u8
  | InvalidZone nat u32
  | LocationGroupValidation nat location_group_error
  | LaneGroupValidation nat lane_group_error
  | FeedForwardNotSupported nat
  | AtomReloadingNotSupported nat
  | EmptyProgram
  | MissingTerminator nat
  | UnreachableInstruction nat

definition max_type_tag :: u8 where "max_type_tag = 0x8"

section \<open>Structure\<close>

definition terminator :: "instruction \<Rightarrow> bool" where
  "terminator i \<longleftrightarrow> i = Cpu Return \<or> i = Cpu Halt"

text \<open>One pass of the first loop: the errors of an instruction and the flag after it.\<close>
definition structure_step :: "nat \<Rightarrow> instruction \<Rightarrow> bool \<Rightarrow> validation_error list \<times> bool" where
  "structure_step pc i seen_non_constant = (case i of
     Array (NewArray tt dim0 dim1) \<Rightarrow>
       (err_if (dim0 = 0) (NewArrayZeroDim0 pc)
        @ err_if (max_type_tag < tt) (NewArrayInvalidTypeTag pc tt), seen_non_constant)
   | AtomArrangement (InitialFill _) \<Rightarrow> (err_if seen_non_constant (InitialFillNotFirst pc), True)
   | Cpu (ConstFloat _) \<Rightarrow> ([], seen_non_constant)
   | Cpu (ConstInt _) \<Rightarrow> ([], seen_non_constant)
   | LaneConst _ \<Rightarrow> ([], seen_non_constant)
   | _ \<Rightarrow> ([], True))"

fun structure_errors :: "nat \<Rightarrow> bool \<Rightarrow> instruction list \<Rightarrow> validation_error list" where
  "structure_errors pc seen [] = []"
| "structure_errors pc seen (i # is) =
     (let (es, seen) = structure_step pc i seen in es @ structure_errors (Suc pc) seen is)"

fun unreachable_errors :: "nat \<Rightarrow> bool \<Rightarrow> instruction list \<Rightarrow> validation_error list" where
  "unreachable_errors pc found [] = []"
| "unreachable_errors pc found (i # is) =
     err_if found (UnreachableInstruction pc) @ unreachable_errors (Suc pc) (found \<or> terminator i) is"

definition validate_structure :: "program \<Rightarrow> validation_error list" where
  "validate_structure p =
     (let is = instructions p; unreachable = unreachable_errors 0 False is
      in structure_errors 0 False is
         @ (if unreachable = [] then
              (if is = [] then [EmptyProgram]
               else err_if (\<not> terminator (last is)) (MissingTerminator (length is - 1)))
            else unreachable))"

section \<open>Address constants\<close>

definition address_errors :: "arch_spec \<Rightarrow> nat \<Rightarrow> instruction \<Rightarrow> validation_error list outcome" where
  "address_errors a pc i = (case i of
     LaneConst (ConstLoc bits) \<Rightarrow>
       (let addr = location_decode bits
        in Returned (err_if (check_location a addr \<noteq> None) (LocationGroupValidation pc
             (InvalidLocation (loc_zone_id addr) (loc_word_id addr) (loc_site_id addr)))))
   | LaneConst (ConstLane d0 d1) \<Rightarrow>
       bind_outcome (lane_decode d0 d1) (\<lambda>addr.
         Returned (map (\<lambda>msg. LaneGroupValidation pc (InvalidLane msg)) (check_lane a addr)))
   | LaneConst (ConstZone bits) \<Rightarrow>
       (let addr = zone_decode bits
        in Returned (err_if (check_zone a addr \<noteq> None) (InvalidZone pc (za_zone_id addr))))
   | _ \<Rightarrow> Returned [])"

definition validate_addresses :: "program \<Rightarrow> arch_spec \<Rightarrow> validation_error list outcome" where
  "validate_addresses p a =
     bind_outcome (traverse_outcome (\<lambda>(pc, i). address_errors a pc i) (enumerate 0 (instructions p)))
       (\<lambda>ess. Returned (concat ess))"

section \<open>Capabilities\<close>

fun capability_errors :: "arch_spec \<Rightarrow> nat \<Rightarrow> u32 \<Rightarrow> instruction list \<Rightarrow> validation_error list" where
  "capability_errors a pc measure_count [] = []"
| "capability_errors a pc measure_count (i # is) =
     (case i of
        Measurement (Measure _) \<Rightarrow>
          (let measure_count = measure_count + 1
           in err_if (\<not> feed_forward a \<and> 1 < measure_count) (FeedForwardNotSupported pc)
              @ capability_errors a (Suc pc) measure_count is)
      | AtomArrangement (Fill _) \<Rightarrow>
          err_if (\<not> atom_reloading a) (AtomReloadingNotSupported pc)
          @ capability_errors a (Suc pc) measure_count is
      | _ \<Rightarrow> capability_errors a (Suc pc) measure_count is)"

definition validate_capabilities :: "program \<Rightarrow> arch_spec \<Rightarrow> validation_error list" where
  "validate_capabilities p a = capability_errors a 0 0 (instructions p)"

definition validate_arch_constraints :: "program \<Rightarrow> arch_spec \<Rightarrow> validation_error list outcome" where
  "validate_arch_constraints p a =
     bind_outcome (validate_addresses p a) (\<lambda>errors. Returned (errors @ validate_capabilities p a))"

section \<open>What the structural scan decides\<close>

text \<open>Instructions that may come before an initial fill.\<close>
definition inert :: "instruction \<Rightarrow> bool" where
  "inert i \<longleftrightarrow> (case i of
     Cpu (ConstFloat _) \<Rightarrow> True | Cpu (ConstInt _) \<Rightarrow> True | LaneConst _ \<Rightarrow> True
   | Array (NewArray _ _ _) \<Rightarrow> True | _ \<Rightarrow> False)"

definition array_ok :: "instruction \<Rightarrow> bool" where
  "array_ok i \<longleftrightarrow> (case i of Array (NewArray tt dim0 _) \<Rightarrow> dim0 \<noteq> 0 \<and> tt \<le> 8 | _ \<Rightarrow> True)"

definition initial_fill :: "instruction \<Rightarrow> bool" where
  "initial_fill i \<longleftrightarrow> (\<exists>n. i = AtomArrangement (InitialFill n))"

lemma structure_step_split:
  "structure_step pc i seen = (es, seen') \<Longrightarrow>
     (es = [] \<longleftrightarrow> array_ok i \<and> (initial_fill i \<longrightarrow> \<not> seen)) \<and> (seen' \<longleftrightarrow> seen \<or> \<not> inert i)"
  by (auto simp: structure_step_def array_ok_def initial_fill_def inert_def max_type_tag_def
      split: instruction.splits cpu_instruction.splits lane_const_instruction.splits
        atom_instruction.splits array_instruction.splits)

text \<open>Whatever comes before an initial fill is inert, and the flag is clear at the start.\<close>
definition fills_ok :: "bool \<Rightarrow> instruction list \<Rightarrow> bool" where
  "fills_ok seen is \<longleftrightarrow> (\<forall>pre i post. is = pre @ i # post \<longrightarrow> initial_fill i \<longrightarrow> \<not> seen \<and> list_all inert pre)"

lemma fills_ok_Nil [simp]: "fills_ok seen []"
  by (simp add: fills_ok_def)

lemma fills_ok_Cons [simp]:
  "fills_ok seen (i # is) \<longleftrightarrow> (initial_fill i \<longrightarrow> \<not> seen) \<and> fills_ok (seen \<or> \<not> inert i) is"
proof
  assume ok: "fills_ok seen (i # is)"
  have "fills_ok (seen \<or> \<not> inert i) is"
    unfolding fills_ok_def
  proof (intro allI impI)
    fix pre j post assume "is = pre @ j # post" "initial_fill j"
    then show "\<not> (seen \<or> \<not> inert i) \<and> list_all inert pre"
      using ok[unfolded fills_ok_def, rule_format, of "i # pre" j post] by simp
  qed
  then show "(initial_fill i \<longrightarrow> \<not> seen) \<and> fills_ok (seen \<or> \<not> inert i) is"
    using ok[unfolded fills_ok_def, rule_format, of "[]" i "is"] by simp
next
  assume ok: "(initial_fill i \<longrightarrow> \<not> seen) \<and> fills_ok (seen \<or> \<not> inert i) is"
  show "fills_ok seen (i # is)"
    unfolding fills_ok_def
  proof (intro allI impI)
    fix pre j post assume "i # is = pre @ j # post" "initial_fill j"
    then show "\<not> seen \<and> list_all inert pre"
      using ok by (cases pre) (auto simp: fills_ok_def)
  qed
qed

lemma structure_errors_Nil:
  "structure_errors pc seen is = [] \<longleftrightarrow> list_all array_ok is \<and> fills_ok seen is"
proof (induction "is" arbitrary: pc seen)
  case (Cons i "is")
  obtain es seen' where step: "structure_step pc i seen = (es, seen')" by force
  then show ?case using structure_step_split[OF step] by (auto simp: Cons.IH)
qed simp

lemma unreachable_set:
  "UnreachableInstruction k \<in> set (unreachable_errors pc found is) \<longleftrightarrow>
     (\<exists>j < length is. k = pc + j \<and> (found \<or> (\<exists>l<j. terminator (is ! l))))"
proof (induction "is" arbitrary: pc found)
  case (Cons i "is")
  show ?case
    unfolding unreachable_errors.simps set_append Un_iff Cons.IH length_Cons Ex_less_Suc2
    by (auto simp: less_Suc_eq_0_disj)
qed simp

lemma unreachable_only:
  "e \<in> set (unreachable_errors pc found is) \<Longrightarrow> \<exists>k. e = UnreachableInstruction k"
  by (induction "is" arbitrary: pc found) (auto split: if_splits)

lemma unreachable_Nil:
  "unreachable_errors pc False is = [] \<longleftrightarrow> (\<forall>i \<in> set (butlast is). \<not> terminator i)"
proof -
  have found: "unreachable_errors pc True is = [] \<longleftrightarrow> is = []" for pc "is" by (cases "is") simp_all
  show ?thesis
  proof (induction "is" arbitrary: pc)
    case (Cons i "is")
    then show ?case by (cases "terminator i") (auto simp: found)
  qed simp
qed

lemma structure_errors_kinds:
  "e \<in> set (structure_errors pc seen is) \<Longrightarrow>
     \<exists>k tt. e \<in> {NewArrayZeroDim0 k, NewArrayInvalidTypeTag k tt, InitialFillNotFirst k}"
proof (induction "is" arbitrary: pc seen)
  case (Cons i "is")
  obtain es seen' where step: "structure_step pc i seen = (es, seen')" by force
  have "e \<in> set es \<Longrightarrow> \<exists>k tt. e \<in> {NewArrayZeroDim0 k, NewArrayInvalidTypeTag k tt, InitialFillNotFirst k}"
    using step by (auto simp: structure_step_def split: if_splits
        instruction.splits cpu_instruction.splits lane_const_instruction.splits
        atom_instruction.splits array_instruction.splits)
  then show ?case using Cons by (auto simp: step)
qed simp

text \<open>C35. The structural scan accepts a program exactly when it ends with its only terminator, every
  new array has a first dimension and one of the nine type tags, and an initial fill is preceded by
  constants and new arrays alone; and the instructions it reports as unreachable are exactly those
  after a terminator.\<close>
theorem validate_structure_spec:
  "(validate_structure p = [] \<longleftrightarrow>
      (\<exists>body t. instructions p = body @ [t] \<and> terminator t \<and> (\<forall>i \<in> set body. \<not> terminator i))
      \<and> list_all array_ok (instructions p)
      \<and> (\<forall>pre i post. instructions p = pre @ i # post \<longrightarrow> initial_fill i \<longrightarrow> list_all inert pre))
   \<and> {k. UnreachableInstruction k \<in> set (validate_structure p)}
       = {k. k < length (instructions p) \<and> (\<exists>j<k. terminator (instructions p ! j))}"
proof
  let ?is = "instructions p"
  have ends: "(unreachable_errors 0 False ?is = [] \<and> ?is \<noteq> [] \<and> terminator (last ?is)) \<longleftrightarrow>
      (\<exists>body t. ?is = body @ [t] \<and> terminator t \<and> (\<forall>i \<in> set body. \<not> terminator i))"
    unfolding unreachable_Nil by (metis append_butlast_last_id butlast_snoc last_snoc snoc_eq_iff_butlast)
  show "validate_structure p = [] \<longleftrightarrow>
      (\<exists>body t. ?is = body @ [t] \<and> terminator t \<and> (\<forall>i \<in> set body. \<not> terminator i))
      \<and> list_all array_ok ?is
      \<and> (\<forall>pre i post. ?is = pre @ i # post \<longrightarrow> initial_fill i \<longrightarrow> list_all inert pre)"
    unfolding ends[symmetric]
    by (auto simp: validate_structure_def Let_def structure_errors_Nil fills_ok_def)
  have "UnreachableInstruction k \<in> set (validate_structure p) \<longleftrightarrow>
      UnreachableInstruction k \<in> set (unreachable_errors 0 False ?is)" for k
    using structure_errors_kinds[of "UnreachableInstruction k" 0 False ?is]
    by (auto simp: validate_structure_def Let_def)
  then show "{k. UnreachableInstruction k \<in> set (validate_structure p)}
       = {k. k < length ?is \<and> (\<exists>j<k. terminator (?is ! j))}"
    by (auto simp: unreachable_set)
qed

theorem validate_structure_spec_witness:
  "validate_structure \<lparr>version_of = \<lparr>major = 1, minor = 0\<rparr>, instructions =
     [LaneConst (ConstLoc 0), AtomArrangement (InitialFill 1), Cpu Halt]\<rparr> = []
   \<and> list_all inert [LaneConst (ConstLoc 0)]" (is "validate_structure ?p = [] \<and> _")
proof
  show ok: "validate_structure ?p = []" by code_simp
  have "instructions ?p = [LaneConst (ConstLoc 0)] @ AtomArrangement (InitialFill 1) # [Cpu Halt]" by simp
  moreover have "initial_fill (AtomArrangement (InitialFill 1))" by (simp add: initial_fill_def)
  ultimately show "list_all inert [LaneConst (ConstLoc 0)]"
    using validate_structure_spec[of ?p] ok by blast
qed

text \<open>A new array is not a constant, but the scan lets one come before an initial fill, which
  the check is meant to forbid for everything but constants.\<close>
theorem new_array_before_fill:
  "validate_structure \<lparr>version_of = v, instructions =
     [Array (NewArray 0 1 0), AtomArrangement (InitialFill 0), Cpu Halt]\<rparr> = []"
  by (simp add: validate_structure_def structure_step_def max_type_tag_def terminator_def)

section \<open>What the architecture checks decide\<close>

definition address_ok :: "arch_spec \<Rightarrow> instruction \<Rightarrow> bool" where
  "address_ok a i \<longleftrightarrow> (case i of
     LaneConst (ConstLoc bits) \<Rightarrow> check_location a (location_decode bits) = None
   | LaneConst (ConstLane d0 d1) \<Rightarrow>
       (case lane_decode d0 d1 of Returned l \<Rightarrow> check_lane a l = [] | Panicked \<Rightarrow> False)
   | LaneConst (ConstZone bits) \<Rightarrow> check_zone a (zone_decode bits) = None
   | _ \<Rightarrow> True)"

definition reserved_lane :: "instruction \<Rightarrow> bool" where
  "reserved_lane i \<longleftrightarrow> (case i of LaneConst (ConstLane d0 d1) \<Rightarrow> drop_bit 29 d1 AND 0x3 = 3 | _ \<Rightarrow> False)"

definition is_measure :: "instruction \<Rightarrow> bool" where
  "is_measure i \<longleftrightarrow> (\<exists>n. i = Measurement (Measure n))"

definition is_fill :: "instruction \<Rightarrow> bool" where
  "is_fill i \<longleftrightarrow> (\<exists>n. i = AtomArrangement (Fill n))"

lemma address_errors_Returned_Nil: "address_errors a pc i = Returned [] \<longleftrightarrow> address_ok a i"
  by (auto simp: address_errors_def address_ok_def Let_def
      split: instruction.split lane_const_instruction.split outcome.split)

lemma address_errors_Panicked: "address_errors a pc i = Panicked \<longleftrightarrow> reserved_lane i"
  by (auto simp: address_errors_def reserved_lane_def Let_def lane_decode_Panicked_iff
      split: instruction.split lane_const_instruction.split)

lemma traverse_concat_Nil:
  "bind_outcome (traverse_outcome f xs) (\<lambda>ess. Returned (concat ess)) = Returned []
     \<longleftrightarrow> (\<forall>x \<in> set xs. f x = Returned [])"
proof (induction xs)
  case (Cons x xs)
  then show ?case by (cases "f x"; cases "traverse_outcome f xs") auto
qed simp

lemma validate_addresses_Nil:
  "validate_addresses p a = Returned [] \<longleftrightarrow> list_all (address_ok a) (instructions p)"
  unfolding validate_addresses_def traverse_concat_Nil set_enumerate
  by (auto simp: address_errors_Returned_Nil list_all_length)

lemma validate_addresses_Panicked:
  "validate_addresses p a = Panicked \<longleftrightarrow> (\<exists>i \<in> set (instructions p). reserved_lane i)"
  unfolding validate_addresses_def
  by (auto simp: traverse_outcome_Panicked_iff set_enumerate address_errors_Panicked)
    (metis in_set_conv_nth)+

lemma capability_Nil:
  "measure_count \<in> {0, 1} \<or> feed_forward a \<Longrightarrow>
   capability_errors a pc measure_count is = [] \<longleftrightarrow>
     (feed_forward a \<or> unat measure_count + length (filter is_measure is) \<le> 1)
     \<and> (atom_reloading a \<or> \<not> list_ex is_fill is)"
proof (induction "is" arbitrary: pc measure_count)
  case (Cons i "is")
  consider n where "i = Measurement (Measure n)" | n where "i = AtomArrangement (Fill n)"
    | "\<not> is_measure i" "\<not> is_fill i" by (auto simp: is_measure_def is_fill_def)
  then show ?case
  proof cases
    case 1
    then show ?thesis
      using Cons.prems Cons.IH[of "measure_count + 1" "Suc pc"]
      by (auto simp: is_measure_def is_fill_def)
  next
    case 2
    then show ?thesis using Cons.prems Cons.IH[of measure_count "Suc pc"]
      by (auto simp: is_measure_def is_fill_def)
  next
    case 3
    then have "capability_errors a pc measure_count (i # is) = capability_errors a (Suc pc) measure_count is"
      by (auto simp: is_measure_def is_fill_def split: instruction.split measurement_instruction.split
          atom_instruction.split)
    with 3 Cons show ?thesis by simp
  qed
qed auto

text \<open>C36. With an architecture the checks accept a program exactly when every location, lane and
  zone constant is valid in it, at most one instruction measures unless the device feeds forward,
  and none refills unless atoms can be reloaded; and they panic, whatever the architecture, exactly
  when some lane constant has both move-type bits set.\<close>
theorem validate_arch_constraints_spec:
  "(validate_arch_constraints p a = Returned [] \<longleftrightarrow>
      list_all (address_ok a) (instructions p)
      \<and> (feed_forward a \<or> length (filter is_measure (instructions p)) \<le> 1)
      \<and> (atom_reloading a \<or> filter is_fill (instructions p) = []))
   \<and> (validate_arch_constraints p a = Panicked \<longleftrightarrow> list_ex reserved_lane (instructions p))"
proof
  have "validate_capabilities p a = [] \<longleftrightarrow>
      (feed_forward a \<or> length (filter is_measure (instructions p)) \<le> 1)
      \<and> (atom_reloading a \<or> filter is_fill (instructions p) = [])"
    by (simp add: validate_capabilities_def capability_Nil filter_empty_conv list_ex_iff)
  then show "validate_arch_constraints p a = Returned [] \<longleftrightarrow>
      list_all (address_ok a) (instructions p)
      \<and> (feed_forward a \<or> length (filter is_measure (instructions p)) \<le> 1)
      \<and> (atom_reloading a \<or> filter is_fill (instructions p) = [])"
    using validate_addresses_Nil[of p a] by (auto simp: validate_arch_constraints_def)
  show "validate_arch_constraints p a = Panicked \<longleftrightarrow> list_ex reserved_lane (instructions p)"
    by (auto simp: validate_arch_constraints_def validate_addresses_Panicked list_ex_iff)
qed

end
