(* ===== verification/Stack_Sim.thy ===== *)
theory Stack_Sim
  imports Bc_Structure
begin

text \<open>
  The stack simulator of \<open>bytecode/validate.rs\<close>: an abstract interpreter that runs a program
  over a stack of type tags, with the constants it knows, and collects underflows, type
  mismatches and the errors of the address groups that fills, moves and local gates consume.

  The vector that is the stack is a list with its last element, the top, first.  The element count
  of a new array is a product of two \<open>u16\<close> values and wraps as in a release build; a lane
  constant with the unused move-type code makes a move panic, so a run is an outcome.

  Against the simulator stands \<open>typed\<close>, one rule per instruction, with the rules of a correct
  execution; the simulator accepts exactly the programs that have one.
\<close>

section \<open>State and primitive operations\<close>

record sim_entry =
  entry_tag :: u8
  entry_value :: "u64 option"

record stack_sim =
  sim_stack :: "sim_entry list"
  sim_errors :: "validation_error list"
  sim_arch :: "arch_spec option"
  sim_pc :: nat

definition sim_new :: "arch_spec option \<Rightarrow> stack_sim" where
  "sim_new a = \<lparr>sim_stack = [], sim_errors = [], sim_arch = a, sim_pc = 0\<rparr>"

definition add_errors :: "validation_error list \<Rightarrow> stack_sim \<Rightarrow> stack_sim" where
  "add_errors es s = s\<lparr>sim_errors := sim_errors s @ es\<rparr>"

definition push_entry :: "u8 \<Rightarrow> u64 option \<Rightarrow> stack_sim \<Rightarrow> stack_sim" where
  "push_entry t v s = s\<lparr>sim_stack := \<lparr>entry_tag = t, entry_value = v\<rparr> # sim_stack s\<rparr>"

definition pop_any :: "stack_sim \<Rightarrow> stack_sim" where
  "pop_any s = (case sim_stack s of
     [] \<Rightarrow> add_errors [StackUnderflow (sim_pc s)] s
   | e # st \<Rightarrow> s\<lparr>sim_stack := st\<rparr>)"

definition pop_typed :: "u8 \<Rightarrow> stack_sim \<Rightarrow> stack_sim" where
  "pop_typed expected s = (case sim_stack s of
     [] \<Rightarrow> add_errors [StackUnderflow (sim_pc s)] s
   | e # st \<Rightarrow>
       (let s' = s\<lparr>sim_stack := st\<rparr>
        in if entry_tag e \<noteq> expected then add_errors [TypeMismatch (sim_pc s) expected (entry_tag e)] s'
           else s'))"

definition pop_typed_n :: "u8 \<Rightarrow> nat \<Rightarrow> stack_sim \<Rightarrow> stack_sim" where
  "pop_typed_n expected n = (pop_typed expected ^^ n)"

text \<open>\<open>pop_lane\<close> and \<open>pop_location\<close>, with the tag they expect.\<close>
definition pop_valued :: "u8 \<Rightarrow> stack_sim \<Rightarrow> u64 option \<times> stack_sim" where
  "pop_valued expected s = (case sim_stack s of
     [] \<Rightarrow> (None, add_errors [StackUnderflow (sim_pc s)] s)
   | e # st \<Rightarrow>
       (let s' = s\<lparr>sim_stack := st\<rparr>
        in if entry_tag e \<noteq> expected
           then (None, add_errors [TypeMismatch (sim_pc s) expected (entry_tag e)] s')
           else (entry_value e, s')))"

definition pop_lane :: "stack_sim \<Rightarrow> u64 option \<times> stack_sim" where
  "pop_lane = pop_valued tag_lane"

definition pop_location :: "stack_sim \<Rightarrow> u64 option \<times> stack_sim" where
  "pop_location = pop_valued tag_location"

text \<open>\<open>(0..arity).map(|_| self.pop()).collect()\<close>.\<close>
fun pop_values :: "(stack_sim \<Rightarrow> u64 option \<times> stack_sim) \<Rightarrow> nat \<Rightarrow> stack_sim \<Rightarrow> u64 option list \<times> stack_sim" where
  "pop_values pop 0 s = ([], s)"
| "pop_values pop (Suc n) s =
     (let (v, s) = pop s; (vs, s) = pop_values pop n s in (v # vs, s))"

definition push_location_group_errors :: "location_group_error list \<Rightarrow> stack_sim \<Rightarrow> stack_sim" where
  "push_location_group_errors es s = add_errors (map (LocationGroupValidation (sim_pc s)) es) s"

definition push_lane_group_errors :: "lane_group_error list \<Rightarrow> stack_sim \<Rightarrow> stack_sim" where
  "push_lane_group_errors es s = add_errors (map (LaneGroupValidation (sim_pc s)) es) s"

definition check_duplicate_locations_standalone :: "location_addr list \<Rightarrow> stack_sim \<Rightarrow> stack_sim" where
  "check_duplicate_locations_standalone locations s =
     push_location_group_errors
       (map (\<lambda>loc. DuplicateLocation (location_encode loc)) (dup_scan location_encode {} {} locations)) s"

definition lane_combined :: "lane_addr \<Rightarrow> u64" where
  "lane_combined l = (let (d0, d1) = lane_encode l in ucast d0 OR push_bit 32 (ucast d1))"

definition check_duplicate_lanes_standalone :: "lane_addr list \<Rightarrow> stack_sim \<Rightarrow> stack_sim" where
  "check_duplicate_lanes_standalone lanes s =
     push_lane_group_errors
       (map (\<lambda>lane. DuplicateLane (lane_encode lane)) (dup_scan lane_combined {} {} lanes)) s"

section \<open>Instruction handlers\<close>

definition push_const :: "u8 \<Rightarrow> u64 \<Rightarrow> stack_sim \<Rightarrow> stack_sim" where
  "push_const t bits = push_entry t (Some bits)"

definition sim_dup :: "stack_sim \<Rightarrow> stack_sim" where
  "sim_dup s = (case sim_stack s of
     [] \<Rightarrow> add_errors [StackUnderflow (sim_pc s)] s
   | e # st \<Rightarrow> s\<lparr>sim_stack := e # e # st\<rparr>)"

definition sim_swap :: "stack_sim \<Rightarrow> stack_sim" where
  "sim_swap s = (case sim_stack s of
     x # y # st \<Rightarrow> s\<lparr>sim_stack := y # x # st\<rparr>
   | _ \<Rightarrow> add_errors [StackUnderflow (sim_pc s)] s)"

definition pop_and_validate_locations :: "u32 \<Rightarrow> stack_sim \<Rightarrow> stack_sim" where
  "pop_and_validate_locations arity s =
     (let (loc_values, s) = pop_values pop_location (unat arity) s;
          locations = List.map_filter (map_option location_decode) loc_values
      in case sim_arch s of
           Some a \<Rightarrow> push_location_group_errors (check_locations a locations) s
         | None \<Rightarrow> check_duplicate_locations_standalone locations s)"

definition sim_fill :: "u32 \<Rightarrow> stack_sim \<Rightarrow> stack_sim" where
  "sim_fill arity = pop_and_validate_locations arity"

definition sim_move :: "u32 \<Rightarrow> stack_sim \<Rightarrow> stack_sim outcome" where
  "sim_move arity s =
     (let (lane_values, s) = pop_values pop_lane (unat arity) s
      in bind_outcome
           (traverse_outcome (\<lambda>bits. lane_decode (ucast bits) (ucast (drop_bit 32 bits)))
              (List.map_filter id lane_values))
           (\<lambda>lanes. Returned (case sim_arch s of
              Some a \<Rightarrow> push_lane_group_errors (check_lanes a lanes) s
            | None \<Rightarrow> check_duplicate_lanes_standalone lanes s)))"

definition sim_local_r :: "u32 \<Rightarrow> stack_sim \<Rightarrow> stack_sim" where
  "sim_local_r arity s = pop_and_validate_locations arity (pop_typed_n tag_float 2 s)"

definition sim_local_rz :: "u32 \<Rightarrow> stack_sim \<Rightarrow> stack_sim" where
  "sim_local_rz arity s = pop_and_validate_locations arity (pop_typed_n tag_float 1 s)"

definition sim_global_r :: "stack_sim \<Rightarrow> stack_sim" where
  "sim_global_r = pop_typed_n tag_float 2"

definition sim_global_rz :: "stack_sim \<Rightarrow> stack_sim" where
  "sim_global_rz = pop_typed_n tag_float 1"

definition sim_cz :: "stack_sim \<Rightarrow> stack_sim" where
  "sim_cz = pop_typed tag_zone"

definition sim_measure :: "u32 \<Rightarrow> stack_sim \<Rightarrow> stack_sim" where
  "sim_measure arity s =
     (push_entry tag_measure_future None ^^ unat arity) (pop_typed_n tag_zone (unat arity) s)"

definition sim_await_measure :: "stack_sim \<Rightarrow> stack_sim" where
  "sim_await_measure s = push_entry tag_array_ref None (pop_typed tag_measure_future s)"

definition array_count :: "u16 \<Rightarrow> u16 \<Rightarrow> u16" where
  "array_count dim0 dim1 = dim0 * (if dim1 = 0 then 1 else dim1)"

definition sim_new_array :: "u16 \<Rightarrow> u16 \<Rightarrow> stack_sim \<Rightarrow> stack_sim" where
  "sim_new_array dim0 dim1 s =
     push_entry tag_array_ref None ((pop_any ^^ unat (array_count dim0 dim1)) s)"

definition sim_get_item :: "u16 \<Rightarrow> stack_sim \<Rightarrow> stack_sim" where
  "sim_get_item ndims s =
     push_entry tag_float None (pop_typed tag_array_ref (pop_typed_n tag_int (unat ndims) s))"

definition sim_set_ref :: "u8 \<Rightarrow> stack_sim \<Rightarrow> stack_sim" where
  "sim_set_ref out_tag s = push_entry out_tag None (pop_typed tag_array_ref s)"

definition sim_return :: "stack_sim \<Rightarrow> stack_sim" where
  "sim_return = pop_any"

section \<open>The main loop\<close>

definition dispatch :: "instruction \<Rightarrow> stack_sim \<Rightarrow> stack_sim outcome" where
  "dispatch i s = (case i of
     Cpu (ConstFloat v) \<Rightarrow> Returned (push_const tag_float (to_bits v) s)
   | Cpu (ConstInt v) \<Rightarrow> Returned (push_const tag_int v s)
   | LaneConst (ConstLoc v) \<Rightarrow> Returned (push_const tag_location v s)
   | LaneConst (ConstLane d0 d1) \<Rightarrow>
       Returned (push_const tag_lane (ucast d0 OR push_bit 32 (ucast d1)) s)
   | LaneConst (ConstZone v) \<Rightarrow> Returned (push_const tag_zone (ucast v) s)
   | Cpu Pop \<Rightarrow> Returned (pop_any s)
   | Cpu Dup \<Rightarrow> Returned (sim_dup s)
   | Cpu Swap \<Rightarrow> Returned (sim_swap s)
   | AtomArrangement (InitialFill arity) \<Rightarrow> Returned (sim_fill arity s)
   | AtomArrangement (Fill arity) \<Rightarrow> Returned (sim_fill arity s)
   | AtomArrangement (Move arity) \<Rightarrow> sim_move arity s
   | QuantumGate (LocalR arity) \<Rightarrow> Returned (sim_local_r arity s)
   | QuantumGate (LocalRz arity) \<Rightarrow> Returned (sim_local_rz arity s)
   | QuantumGate GlobalR \<Rightarrow> Returned (sim_global_r s)
   | QuantumGate GlobalRz \<Rightarrow> Returned (sim_global_rz s)
   | QuantumGate CZ \<Rightarrow> Returned (sim_cz s)
   | Measurement (Measure arity) \<Rightarrow> Returned (sim_measure arity s)
   | Measurement AwaitMeasure \<Rightarrow> Returned (sim_await_measure s)
   | Array (NewArray _ dim0 dim1) \<Rightarrow> Returned (sim_new_array dim0 dim1 s)
   | Array (GetItem ndims) \<Rightarrow> Returned (sim_get_item ndims s)
   | DetectorObservable SetDetector \<Rightarrow> Returned (sim_set_ref tag_detector_ref s)
   | DetectorObservable SetObservable \<Rightarrow> Returned (sim_set_ref tag_observable_ref s)
   | Cpu Return \<Rightarrow> Returned (sim_return s)
   | Cpu Halt \<Rightarrow> Returned s)"

fun sim_loop :: "nat \<Rightarrow> instruction list \<Rightarrow> stack_sim \<Rightarrow> stack_sim outcome" where
  "sim_loop pc [] s = Returned s"
| "sim_loop pc (i # is) s = bind_outcome (dispatch i (s\<lparr>sim_pc := pc\<rparr>)) (sim_loop (Suc pc) is)"

definition sim_run :: "stack_sim \<Rightarrow> program \<Rightarrow> validation_error list outcome" where
  "sim_run s p = bind_outcome (sim_loop 0 (instructions p) s) (\<lambda>s. Returned (sim_errors s))"

definition simulate_stack :: "program \<Rightarrow> arch_spec option \<Rightarrow> validation_error list outcome" where
  "simulate_stack p a = sim_run (sim_new a) p"

section \<open>Typed executions\<close>

definition const_entry :: "instruction \<Rightarrow> sim_entry option" where
  "const_entry i = (case i of
     Cpu (ConstFloat v) \<Rightarrow> Some \<lparr>entry_tag = tag_float, entry_value = Some (to_bits v)\<rparr>
   | Cpu (ConstInt v) \<Rightarrow> Some \<lparr>entry_tag = tag_int, entry_value = Some v\<rparr>
   | LaneConst (ConstLoc v) \<Rightarrow> Some \<lparr>entry_tag = tag_location, entry_value = Some v\<rparr>
   | LaneConst (ConstLane d0 d1) \<Rightarrow>
       Some \<lparr>entry_tag = tag_lane, entry_value = Some (ucast d0 OR push_bit 32 (ucast d1))\<rparr>
   | LaneConst (ConstZone v) \<Rightarrow> Some \<lparr>entry_tag = tag_zone, entry_value = Some (ucast v)\<rparr>
   | _ \<Rightarrow> None)"

definition all_tagged :: "u8 \<Rightarrow> sim_entry list \<Rightarrow> bool" where
  "all_tagged t es \<longleftrightarrow> (\<forall>e \<in> set es. entry_tag e = t)"

definition unknown_entry :: "u8 \<Rightarrow> sim_entry" where
  "unknown_entry t = \<lparr>entry_tag = t, entry_value = None\<rparr>"

text \<open>Location entries whose addresses are distinct and, with an architecture, valid in it.\<close>
definition good_locations :: "arch_spec option \<Rightarrow> sim_entry list \<Rightarrow> bool" where
  "good_locations arch es \<longleftrightarrow> all_tagged tag_location es
     \<and> (let locs = map (location_decode \<circ> the \<circ> entry_value) es
        in distinct locs \<and> (case arch of None \<Rightarrow> True | Some a \<Rightarrow> \<forall>l \<in> set locs. check_location a l = None))"

text \<open>The lane addresses of lane entries, and when a group of lanes may move together.\<close>
definition entry_lanes :: "sim_entry list \<Rightarrow> lane_addr list outcome" where
  "entry_lanes es = traverse_outcome lane_decode_u64 (map (the \<circ> entry_value) es)"

definition movable_lanes :: "arch_spec \<Rightarrow> lane_addr list \<Rightarrow> bool" where
  "movable_lanes a lanes \<longleftrightarrow> (\<forall>l \<in> set lanes. check_lane a l = [])
     \<and> (length lanes \<le> 1 \<or> same_bus lanes \<and> None \<notin> lane_positions a lanes
        \<and> complete_grid {p. Some p \<in> lane_positions a lanes})"

definition good_lanes :: "arch_spec option \<Rightarrow> sim_entry list \<Rightarrow> bool" where
  "good_lanes arch es \<longleftrightarrow> all_tagged tag_lane es
     \<and> (case entry_lanes es of
          Panicked \<Rightarrow> False
        | Returned lanes \<Rightarrow>
            distinct lanes \<and> (case arch of None \<Rightarrow> True | Some a \<Rightarrow> movable_lanes a lanes))"

text \<open>One instruction, from the stack before it to the stack after it.\<close>
inductive typed :: "arch_spec option \<Rightarrow> instruction \<Rightarrow> sim_entry list \<Rightarrow> sim_entry list \<Rightarrow> bool"
  for arch where
  const: "const_entry i = Some e \<Longrightarrow> typed arch i st (e # st)"
| pop: "typed arch (Cpu Pop) (e # st) st"
| dup: "typed arch (Cpu Dup) (e # st) (e # e # st)"
| swap: "typed arch (Cpu Swap) (x # y # st) (y # x # st)"
| return: "typed arch (Cpu Return) (e # st) st"
| halt: "typed arch (Cpu Halt) st st"
| initial_fill: "length es = unat n \<Longrightarrow> good_locations arch es
    \<Longrightarrow> typed arch (AtomArrangement (InitialFill n)) (es @ st) st"
| fill: "length es = unat n \<Longrightarrow> good_locations arch es
    \<Longrightarrow> typed arch (AtomArrangement (Fill n)) (es @ st) st"
| move: "length es = unat n \<Longrightarrow> good_lanes arch es
    \<Longrightarrow> typed arch (AtomArrangement (Move n)) (es @ st) st"
| local_r: "length fs = 2 \<Longrightarrow> all_tagged tag_float fs \<Longrightarrow> length es = unat n \<Longrightarrow> good_locations arch es
    \<Longrightarrow> typed arch (QuantumGate (LocalR n)) (fs @ es @ st) st"
| local_rz: "length fs = 1 \<Longrightarrow> all_tagged tag_float fs \<Longrightarrow> length es = unat n \<Longrightarrow> good_locations arch es
    \<Longrightarrow> typed arch (QuantumGate (LocalRz n)) (fs @ es @ st) st"
| global_r: "length fs = 2 \<Longrightarrow> all_tagged tag_float fs \<Longrightarrow> typed arch (QuantumGate GlobalR) (fs @ st) st"
| global_rz: "length fs = 1 \<Longrightarrow> all_tagged tag_float fs \<Longrightarrow> typed arch (QuantumGate GlobalRz) (fs @ st) st"
| cz: "entry_tag e = tag_zone \<Longrightarrow> typed arch (QuantumGate CZ) (e # st) st"
| measure: "length zs = unat n \<Longrightarrow> all_tagged tag_zone zs
    \<Longrightarrow> typed arch (Measurement (Measure n)) (zs @ st)
          (replicate (unat n) (unknown_entry tag_measure_future) @ st)"
| await_measure: "entry_tag e = tag_measure_future
    \<Longrightarrow> typed arch (Measurement AwaitMeasure) (e # st) (unknown_entry tag_array_ref # st)"
| new_array: "length es = unat (array_count d0 d1)
    \<Longrightarrow> typed arch (Array (NewArray t d0 d1)) (es @ st) (unknown_entry tag_array_ref # st)"
| get_item: "length ns = unat n \<Longrightarrow> all_tagged tag_int ns \<Longrightarrow> entry_tag e = tag_array_ref
    \<Longrightarrow> typed arch (Array (GetItem n)) (ns @ e # st) (unknown_entry tag_float # st)"
| set_detector: "entry_tag e = tag_array_ref
    \<Longrightarrow> typed arch (DetectorObservable SetDetector) (e # st) (unknown_entry tag_detector_ref # st)"
| set_observable: "entry_tag e = tag_array_ref
    \<Longrightarrow> typed arch (DetectorObservable SetObservable) (e # st) (unknown_entry tag_observable_ref # st)"

inductive typed_run :: "arch_spec option \<Rightarrow> instruction list \<Rightarrow> sim_entry list \<Rightarrow> sim_entry list \<Rightarrow> bool"
  for arch where
  stop: "typed_run arch [] st st"
| step: "typed arch i st st' \<Longrightarrow> typed_run arch is st' st'' \<Longrightarrow> typed_run arch (i # is) st st''"

section \<open>Handlers\<close>

text \<open>The address entries on the stack carry their address: no group check skips an operand.\<close>
definition known :: "sim_entry list \<Rightarrow> bool" where
  "known st \<longleftrightarrow> (\<forall>e \<in> set st. entry_tag e \<in> {tag_location, tag_lane} \<longrightarrow> entry_value e \<noteq> None)"

fun error_pc :: "validation_error \<Rightarrow> nat option" where
  "error_pc (NewArrayZeroDim0 pc) = Some pc"
| "error_pc (NewArrayInvalidTypeTag pc _) = Some pc"
| "error_pc (InitialFillNotFirst pc) = Some pc"
| "error_pc (StackUnderflow pc) = Some pc"
| "error_pc (TypeMismatch pc _ _) = Some pc"
| "error_pc (InvalidZone pc _) = Some pc"
| "error_pc (LocationGroupValidation pc _) = Some pc"
| "error_pc (LaneGroupValidation pc _) = Some pc"
| "error_pc (FeedForwardNotSupported pc) = Some pc"
| "error_pc (AtomReloadingNotSupported pc) = Some pc"
| "error_pc EmptyProgram = None"
| "error_pc (MissingTerminator pc) = Some pc"
| "error_pc (UnreachableInstruction pc) = Some pc"

text \<open>An operation keeps the frame, appends errors of its own instruction, and when it appends
  none it takes the stack from one side of its relation to the other.\<close>
locale handler =
  fixes f :: "stack_sim \<Rightarrow> stack_sim"
    and R :: "arch_spec option \<Rightarrow> sim_entry list \<Rightarrow> sim_entry list \<Rightarrow> bool"
  assumes frame: "sim_arch (f s) = sim_arch s \<and> sim_pc (f s) = sim_pc s"
    and appends: "\<exists>es. sim_errors (f s) = sim_errors s @ es \<and> (\<forall>e \<in> set es. error_pc e = Some (sim_pc s))"
    and keeps_known: "known (sim_stack s) \<Longrightarrow> known (sim_stack (f s))"
    and clean: "known (sim_stack s) \<Longrightarrow>
      (sim_errors (f s) = sim_errors s \<and> sim_stack (f s) = st) \<longleftrightarrow> R (sim_arch s) (sim_stack s) st"
begin

lemma errors_grow: "sim_errors (f s) = sim_errors s @ drop (length (sim_errors s)) (sim_errors (f s))"
  using appends[of s] by auto

lemma new_error_pc: "e \<in> set (drop (length (sim_errors s)) (sim_errors (f s))) \<Longrightarrow> error_pc e = Some (sim_pc s)"
  using appends[of s] by auto

lemma clean_result:
  "known (sim_stack s) \<Longrightarrow> R (sim_arch s) (sim_stack s) st \<Longrightarrow> f s = s\<lparr>sim_stack := st\<rparr>"
  using clean[of s st] frame[of s] by (cases "f s", cases s) auto

end

lemma handler_comp:
  assumes f: "handler f R" and g: "handler g S"
  shows "handler (\<lambda>s. g (f s)) (\<lambda>a. R a OO S a)"
proof
  fix s st
  show "sim_arch (g (f s)) = sim_arch s \<and> sim_pc (g (f s)) = sim_pc s"
    using handler.frame[OF f, of s] handler.frame[OF g, of "f s"] by simp
  obtain es where es: "sim_errors (f s) = sim_errors s @ es" "\<forall>e \<in> set es. error_pc e = Some (sim_pc s)"
    using handler.appends[OF f, of s] by blast
  obtain es' where es': "sim_errors (g (f s)) = sim_errors (f s) @ es'"
    "\<forall>e \<in> set es'. error_pc e = Some (sim_pc s)"
    using handler.appends[OF g, of "f s"] handler.frame[OF f, of s] by auto
  show "\<exists>es. sim_errors (g (f s)) = sim_errors s @ es \<and> (\<forall>e \<in> set es. error_pc e = Some (sim_pc s))"
    using es es' by (intro exI[of _ "es @ es'"]) auto
  assume k: "known (sim_stack s)"
  show "known (sim_stack (g (f s)))"
    by (intro handler.keeps_known[OF g] handler.keeps_known[OF f] k)
  have split: "sim_errors (g (f s)) = sim_errors s \<longleftrightarrow>
      sim_errors (f s) = sim_errors s \<and> sim_errors (g (f s)) = sim_errors (f s)"
    using es es' by auto
  have g_iff: "sim_errors (g (f s)) = sim_errors (f s) \<and> sim_stack (g (f s)) = st \<longleftrightarrow>
      S (sim_arch s) (sim_stack (f s)) st"
    using handler.clean[OF g handler.keeps_known[OF f k], of st] handler.frame[OF f, of s] by simp
  have f_iff: "sim_errors (f s) = sim_errors s \<and> sim_stack (f s) = m \<longleftrightarrow> R (sim_arch s) (sim_stack s) m" for m
    by (rule handler.clean[OF f k])
  show "(sim_errors (g (f s)) = sim_errors s \<and> sim_stack (g (f s)) = st) \<longleftrightarrow>
      (R (sim_arch s) OO S (sim_arch s)) (sim_stack s) st"
  proof
    assume "sim_errors (g (f s)) = sim_errors s \<and> sim_stack (g (f s)) = st"
    then show "(R (sim_arch s) OO S (sim_arch s)) (sim_stack s) st"
      using split f_iff[of "sim_stack (f s)"] g_iff by (intro relcomppI[where b = "sim_stack (f s)"]) simp_all
  next
    assume "(R (sim_arch s) OO S (sim_arch s)) (sim_stack s) st"
    then obtain m where m: "R (sim_arch s) (sim_stack s) m" "S (sim_arch s) m st" by (elim relcomppE)
    then have "sim_errors (f s) = sim_errors s" "sim_stack (f s) = m" using f_iff[of m] by simp_all
    then show "sim_errors (g (f s)) = sim_errors s \<and> sim_stack (g (f s)) = st"
      using split g_iff m by simp
  qed
qed

lemma handler_funpow: "handler f R \<Longrightarrow> handler (f ^^ n) (\<lambda>a. R a ^^ n)"
proof (induction n)
  case 0
  show ?case by unfold_locales auto
next
  case (Suc n)
  have "handler (\<lambda>s. f ((f ^^ n) s)) (\<lambda>a. (R a ^^ n) OO R a)"
    using Suc by (intro handler_comp) blast+
  then show ?case by (simp add: comp_def)
qed

text \<open>Pops that test the entry they take, and their repetition.\<close>
definition pops :: "(sim_entry \<Rightarrow> bool) \<Rightarrow> sim_entry list \<Rightarrow> sim_entry list \<Rightarrow> bool" where
  "pops P st st' \<longleftrightarrow> (\<exists>e. P e \<and> st = e # st')"

lemma pops_funpow: "(pops P ^^ n) st st' \<longleftrightarrow> (\<exists>es. length es = n \<and> (\<forall>e \<in> set es. P e) \<and> st = es @ st')"
proof (induction n arbitrary: st')
  case 0
  show ?case by auto
next
  case (Suc n)
  have "(pops P ^^ Suc n) st st' \<longleftrightarrow> (\<exists>e. P e \<and> (pops P ^^ n) st (e # st'))"
    by (auto simp: relcompp_apply pops_def)
  also have "\<dots> \<longleftrightarrow> (\<exists>es e. length es = n \<and> (\<forall>e \<in> set es. P e) \<and> P e \<and> st = (es @ [e]) @ st')"
    by (auto simp: Suc.IH)
  also have "\<dots> \<longleftrightarrow> (\<exists>es. length es = Suc n \<and> (\<forall>e \<in> set es. P e) \<and> st = es @ st')"
    (is "?L \<longleftrightarrow> ?R")
  proof
    assume ?L
    then obtain es e where "length es = n" "\<forall>e \<in> set es. P e" "P e" "st = (es @ [e]) @ st'" by blast
    then show ?R by (intro exI[of _ "es @ [e]"]) auto
  next
    assume ?R
    then obtain es where "length es = Suc n" "\<forall>e \<in> set es. P e" "st = es @ st'" by blast
    then show ?L by (cases es rule: rev_cases) auto
  qed
  finally show ?case .
qed

lemma known_simps [simp]:
  "known []" "known (e # st) \<longleftrightarrow> (entry_tag e \<in> {tag_location, tag_lane} \<longrightarrow> entry_value e \<noteq> None) \<and> known st"
  "known (es @ st) \<longleftrightarrow> known es \<and> known st"
  by (auto simp: known_def)

lemma handler_pop_any: "handler pop_any (\<lambda>_. pops (\<lambda>_. True))"
  by unfold_locales (auto simp: pop_any_def add_errors_def pops_def split: list.split)

lemma handler_pop_typed: "handler (pop_typed t) (\<lambda>_. pops (\<lambda>e. entry_tag e = t))"
  by unfold_locales (auto simp: pop_typed_def add_errors_def pops_def Let_def split: list.split)

lemma handler_push: "v \<noteq> None \<or> t \<notin> {tag_location, tag_lane} \<Longrightarrow>
    handler (push_entry t v) (\<lambda>_ st st'. st' = \<lparr>entry_tag = t, entry_value = v\<rparr> # st)"
  by unfold_locales (auto simp: push_entry_def)

lemma handler_dup: "handler sim_dup (\<lambda>_ st st'. \<exists>e r. st = e # r \<and> st' = e # e # r)"
  by unfold_locales (auto simp: sim_dup_def add_errors_def split: list.split)

lemma handler_swap: "handler sim_swap (\<lambda>_ st st'. \<exists>x y r. st = x # y # r \<and> st' = y # x # r)"
  by unfold_locales (auto simp: sim_swap_def add_errors_def split: list.split)

section \<open>Groups of addresses\<close>

text \<open>A handler followed by a test of what it took.\<close>
lemma handler_test:
  assumes f: "handler f R"
    and pc: "\<And>s e. e \<in> set (g s) \<Longrightarrow> error_pc e = Some (sim_pc s)"
    and test: "\<And>s st. known (sim_stack s) \<Longrightarrow> R (sim_arch s) (sim_stack s) st \<Longrightarrow>
      g s = [] \<longleftrightarrow> Q (sim_arch s) (sim_stack s) st"
  shows "handler (\<lambda>s. add_errors (g s) (f s)) (\<lambda>a st st'. R a st st' \<and> Q a st st')"
proof
  fix s st
  show "sim_arch (add_errors (g s) (f s)) = sim_arch s \<and> sim_pc (add_errors (g s) (f s)) = sim_pc s"
    using handler.frame[OF f, of s] by (simp add: add_errors_def)
  obtain es where es: "sim_errors (f s) = sim_errors s @ es" "\<forall>e \<in> set es. error_pc e = Some (sim_pc s)"
    using handler.appends[OF f, of s] by blast
  then show "\<exists>es. sim_errors (add_errors (g s) (f s)) = sim_errors s @ es
      \<and> (\<forall>e \<in> set es. error_pc e = Some (sim_pc s))"
    using pc by (intro exI[of _ "es @ g s"]) (auto simp: add_errors_def)
  assume k: "known (sim_stack s)"
  show "known (sim_stack (add_errors (g s) (f s)))"
    using handler.keeps_known[OF f k] by (simp add: add_errors_def)
  have "sim_errors (add_errors (g s) (f s)) = sim_errors s \<longleftrightarrow> sim_errors (f s) = sim_errors s \<and> g s = []"
    using es by (auto simp: add_errors_def)
  moreover have "sim_stack (add_errors (g s) (f s)) = sim_stack (f s)" by (simp add: add_errors_def)
  ultimately show "(sim_errors (add_errors (g s) (f s)) = sim_errors s \<and> sim_stack (add_errors (g s) (f s)) = st)
      \<longleftrightarrow> R (sim_arch s) (sim_stack s) st \<and> Q (sim_arch s) (sim_stack s) st"
    using handler.clean[OF f k, of st] test[OF k, of st] by auto
qed

lemma handler_mono: "handler f R \<Longrightarrow> (\<And>a st st'. R a st st' \<longleftrightarrow> S a st st') \<Longrightarrow> handler f S"
  by (simp add: handler_def)

lemma handler_pop_typed_n:
  "handler (pop_typed_n t n) (\<lambda>_ st st'. \<exists>es. length es = n \<and> all_tagged t es \<and> st = es @ st')"
  unfolding pop_typed_n_def all_tagged_def
  by (rule handler_mono[OF handler_funpow[OF handler_pop_typed] pops_funpow])

lemma pop_valued_state: "snd (pop_valued t s) = pop_typed t s"
  by (simp add: pop_valued_def pop_typed_def Let_def split: list.split)

lemma pop_values_state: "snd (pop_values (pop_valued t) n s) = pop_typed_n t n s"
proof (induction n arbitrary: s)
  case (Suc n)
  then show ?case
    by (simp add: pop_typed_n_def funpow_swap1 case_prod_unfold Let_def pop_valued_state)
qed (simp add: pop_typed_n_def)

lemma pop_values_fst:
  "sim_stack s = es @ st \<Longrightarrow> all_tagged t es \<Longrightarrow>
   fst (pop_values (pop_valued t) (length es) s) = map entry_value es"
proof (induction es arbitrary: s)
  case (Cons e es)
  then have "pop_valued t s = (entry_value e, s\<lparr>sim_stack := es @ st\<rparr>)"
    by (simp add: pop_valued_def all_tagged_def)
  then show ?case
    using Cons.IH[of "s\<lparr>sim_stack := es @ st\<rparr>"] Cons.prems(2)
    by (simp add: all_tagged_def case_prod_unfold Let_def)
qed simp

lemma map_filter_values:
  "\<forall>e \<in> set es. entry_value e \<noteq> None \<Longrightarrow>
   List.map_filter (map_option f) (map entry_value es) = map (f \<circ> the \<circ> entry_value) es"
  by (induction es) (auto simp: List.map_filter_simps)

text \<open>The errors of a location group, with and without an architecture.\<close>
definition location_errors :: "arch_spec option \<Rightarrow> location_addr list \<Rightarrow> location_group_error list" where
  "location_errors arch locs = (case arch of
     Some a \<Rightarrow> check_locations a locs
   | None \<Rightarrow> map (\<lambda>loc. DuplicateLocation (location_encode loc)) (dup_scan location_encode {} {} locs))"

definition lane_errors :: "arch_spec option \<Rightarrow> lane_addr list \<Rightarrow> lane_group_error list" where
  "lane_errors arch lanes = (case arch of
     Some a \<Rightarrow> check_lanes a lanes
   | None \<Rightarrow> map (\<lambda>lane. DuplicateLane (lane_encode lane)) (dup_scan lane_combined {} {} lanes))"

context group_check begin

text \<open>Addresses that were decoded fit, whatever the architecture.\<close>
lemma distinct_keys: "\<forall>x \<in> set xs. fits x \<Longrightarrow> distinct (map key xs) \<longleftrightarrow> distinct xs"
  using key_inj by (auto simp: distinct_map inj_on_def)

lemma group_ok_decoded:
  "\<forall>x \<in> set xs. fits x \<Longrightarrow>
   for_each (first_scan key {} xs) check = [] \<and> dup_scan key {} {} xs = []
     \<longleftrightarrow> (\<forall>x \<in> set xs. check x = []) \<and> distinct xs"
  using first_scan_id[of key xs "{}"] distinct_keys[of xs] by (auto simp: dup_scan_Nil)

end

lemma location_errors_Nil:
  assumes "\<forall>l \<in> set locs. loc_fits l"
  shows "location_errors arch locs = [] \<longleftrightarrow>
     distinct locs \<and> (case arch of None \<Rightarrow> True | Some a \<Rightarrow> \<forall>l \<in> set locs. check_location a l = None)"
proof (cases arch)
  case None
  then show ?thesis
    using loc_group.distinct_keys[OF assms] by (simp add: location_errors_def dup_scan_Nil)
next
  case (Some a)
  then show ?thesis
    using loc_group.group_ok_decoded[OF assms, of "\<lambda>loc. err_if (check_location a loc \<noteq> None)
      (InvalidLocation (loc_zone_id loc) (loc_word_id loc) (loc_site_id loc))"]
    by (auto simp: location_errors_def check_locations_def)
qed

interpretation lane_u64_group: group_check lane_combined lane_fits
  by unfold_locales (use lane_u64_codec.enc_eq_iff in \<open>auto simp: lane_combined_def lane_encode_u64_def\<close>)

lemma lane_errors_Nil:
  assumes "\<forall>l \<in> set lanes. lane_fits l"
  shows "lane_errors arch lanes = [] \<longleftrightarrow>
     distinct lanes \<and> (case arch of None \<Rightarrow> True | Some a \<Rightarrow> movable_lanes a lanes)"
proof (cases arch)
  case None
  then show ?thesis
    using lane_u64_group.distinct_keys[OF assms] by (simp add: lane_errors_def dup_scan_Nil)
next
  case (Some a)
  have "for_each (first_scan lane_encode {} lanes) (\<lambda>lane. map InvalidLane (check_lane a lane)) = []
      \<and> dup_scan lane_encode {} {} lanes = [] \<longleftrightarrow> (\<forall>l \<in> set lanes. check_lane a l = []) \<and> distinct lanes"
    using lane_group.group_ok_decoded[OF assms, of "\<lambda>lane. map InvalidLane (check_lane a lane)"] by simp
  with Some show ?thesis
    using membership_Nil[of lanes a]
    by (cases "\<forall>l \<in> set lanes. lane_valid a l")
      (auto simp: lane_errors_def check_lanes_def movable_lanes_def consistency_Nil_iff geometry_Nil_iff
        check_lane_Nil_iff simp del: for_each_Nil)
qed

lemma handler_locations:
  "handler (pop_and_validate_locations n)
     (\<lambda>a st st'. \<exists>es. length es = unat n \<and> good_locations a es \<and> st = es @ st')"
proof -
  let ?locs = "\<lambda>s. List.map_filter (map_option location_decode) (fst (pop_values pop_location (unat n) s))"
  let ?g = "\<lambda>s. map (LocationGroupValidation (sim_pc s)) (location_errors (sim_arch s) (?locs s))"
  let ?R = "\<lambda>st st'. \<exists>es. length es = unat n \<and> all_tagged tag_location es \<and> st = es @ st'"
  have eq: "pop_and_validate_locations n = (\<lambda>s. add_errors (?g s) (pop_typed_n tag_location (unat n) s))"
    using handler.frame[OF handler_pop_typed_n]
    by (auto simp: fun_eq_iff pop_and_validate_locations_def Let_def case_prod_unfold pop_location_def
        pop_values_state push_location_group_errors_def check_duplicate_locations_standalone_def
        location_errors_def split: option.split)
  have locs: "?locs s = map (location_decode \<circ> the \<circ> entry_value) es"
    if "known (sim_stack s)" "sim_stack s = es @ st" "length es = unat n" "all_tagged tag_location es"
    for s :: stack_sim and es st
  proof -
    have "\<forall>e \<in> set es. entry_value e \<noteq> None" using that by (auto simp: known_def all_tagged_def)
    then show ?thesis
      using pop_values_fst[OF that(2,4)] that(3) by (simp add: pop_location_def map_filter_values)
  qed
  have fits: "\<forall>l \<in> set (map (location_decode \<circ> v) es). loc_fits l" for v and es :: "sim_entry list"
    by (simp add: location_decode_fits)
  have "handler (\<lambda>s. add_errors (?g s) (pop_typed_n tag_location (unat n) s))
      (\<lambda>a st st'. ?R st st' \<and> (\<exists>es. length es = unat n \<and> good_locations a es \<and> st = es @ st'))"
  proof (rule handler_test[OF handler_pop_typed_n])
    fix s :: stack_sim and st assume k: "known (sim_stack s)" and "?R (sim_stack s) st"
    then obtain es where es: "length es = unat n" "all_tagged tag_location es" "sim_stack s = es @ st" by blast
    have "?g s = [] \<longleftrightarrow> good_locations (sim_arch s) es"
      unfolding locs[OF k es(3,1,2)] using es(2) location_errors_Nil[OF fits, of "sim_arch s"]
      by (simp add: good_locations_def Let_def comp_assoc)
    then show "?g s = [] \<longleftrightarrow> (\<exists>es. length es = unat n \<and> good_locations (sim_arch s) es \<and> sim_stack s = es @ st)"
      using es(1,3) by auto
  qed auto
  then show ?thesis
    unfolding eq by (rule handler_mono) (auto simp: good_locations_def)
qed

text \<open>A move that panics counts as one that reports an error.\<close>
definition move_step :: "u32 \<Rightarrow> stack_sim \<Rightarrow> stack_sim" where
  "move_step n s = (case sim_move n s of Returned s' \<Rightarrow> s'
     | Panicked \<Rightarrow> add_errors [StackUnderflow (sim_pc s)] (pop_typed_n tag_lane (unat n) s))"

lemma entry_lanes_fits: "entry_lanes es = Returned lanes \<Longrightarrow> \<forall>l \<in> set lanes. lane_fits l"
proof -
  have "traverse_outcome lane_decode_u64 bs = Returned lanes \<Longrightarrow> \<forall>l \<in> set lanes. lane_fits l" for bs
    by (induction bs arbitrary: lanes) (auto simp: lane_u64_codec.dec_fits)
  then show "entry_lanes es = Returned lanes \<Longrightarrow> \<forall>l \<in> set lanes. lane_fits l"
    by (simp add: entry_lanes_def)
qed

lemma handler_move:
  "handler (move_step n) (\<lambda>a st st'. \<exists>es. length es = unat n \<and> good_lanes a es \<and> st = es @ st')"
proof -
  let ?vals = "\<lambda>s. List.map_filter id (fst (pop_values pop_lane (unat n) s))"
  let ?g = "\<lambda>s. case traverse_outcome lane_decode_u64 (?vals s) of
     Panicked \<Rightarrow> [StackUnderflow (sim_pc s)]
   | Returned lanes \<Rightarrow> map (LaneGroupValidation (sim_pc s)) (lane_errors (sim_arch s) lanes)"
  let ?R = "\<lambda>st st'. \<exists>es. length es = unat n \<and> all_tagged tag_lane es \<and> st = es @ st'"
  have dec: "(\<lambda>bits. lane_decode (ucast bits) (ucast (drop_bit 32 bits))) = lane_decode_u64"
    by (simp add: fun_eq_iff lane_decode_u64_def)
  have eq: "move_step n = (\<lambda>s. add_errors (?g s) (pop_typed_n tag_lane (unat n) s))"
    using handler.frame[OF handler_pop_typed_n]
    by (auto simp: fun_eq_iff move_step_def sim_move_def dec Let_def case_prod_unfold pop_lane_def
        pop_values_state push_lane_group_errors_def check_duplicate_lanes_standalone_def bind_outcome_def
        lane_errors_def split: option.split outcome.split)
  have vals: "?vals s = map (the \<circ> entry_value) es"
    if "known (sim_stack s)" "sim_stack s = es @ st" "length es = unat n" "all_tagged tag_lane es"
    for s :: stack_sim and es st
  proof -
    have "\<forall>e \<in> set es. entry_value e \<noteq> None" using that by (auto simp: known_def all_tagged_def)
    then show ?thesis
      using pop_values_fst[OF that(2,4)] that(3) map_filter_values[of es id]
      by (simp add: pop_lane_def option.map_id0)
  qed
  have "handler (\<lambda>s. add_errors (?g s) (pop_typed_n tag_lane (unat n) s))
      (\<lambda>a st st'. ?R st st' \<and> (\<exists>es. length es = unat n \<and> good_lanes a es \<and> st = es @ st'))"
  proof (rule handler_test[OF handler_pop_typed_n])
    fix s :: stack_sim and st assume k: "known (sim_stack s)" and "?R (sim_stack s) st"
    then obtain es where es: "length es = unat n" "all_tagged tag_lane es" "sim_stack s = es @ st" by blast
    have "?g s = [] \<longleftrightarrow> good_lanes (sim_arch s) es"
      unfolding vals[OF k es(3,1,2)] good_lanes_def entry_lanes_def[symmetric]
      using es(2) lane_errors_Nil[OF entry_lanes_fits, of es] by (simp split: outcome.split)
    then show "?g s = [] \<longleftrightarrow> (\<exists>es. length es = unat n \<and> good_lanes (sim_arch s) es \<and> sim_stack s = es @ st)"
      using es(1,3) by auto
  qed (auto split: outcome.splits)
  then show ?thesis
    unfolding eq by (rule handler_mono) (auto simp: good_lanes_def)
qed

section \<open>Every instruction is a handler of its typing rule\<close>

inductive_simps typed_simps:
  "typed a (Cpu c) st st'" "typed a (LaneConst c) st st'" "typed a (AtomArrangement c) st st'"
  "typed a (QuantumGate c) st st'" "typed a (Measurement c) st st'" "typed a (Array c) st st'"
  "typed a (DetectorObservable c) st st'"

text \<open>What an instruction does, with a panic as an error.\<close>
definition instr_step :: "instruction \<Rightarrow> stack_sim \<Rightarrow> stack_sim" where
  "instr_step i s = (case i of AtomArrangement (Move n) \<Rightarrow> move_step n s
     | _ \<Rightarrow> (case dispatch i s of Returned s' \<Rightarrow> s' | Panicked \<Rightarrow> s))"

lemma dispatch_step:
  "dispatch i s = Returned (instr_step i s)
   \<or> dispatch i s = Panicked \<and> sim_errors (instr_step i s) \<noteq> sim_errors s"
proof (cases "\<exists>n. i = AtomArrangement (Move n)")
  case True
  then obtain n where i: "i = AtomArrangement (Move n)" by blast
  obtain es where "sim_errors (pop_typed_n tag_lane (unat n) s) = sim_errors s @ es"
    using handler.appends[OF handler_pop_typed_n] by blast
  then show ?thesis
    by (cases "sim_move n s") (simp_all add: i dispatch_def instr_step_def move_step_def add_errors_def)
next
  case False
  then have "\<exists>s'. dispatch i s = Returned s'"
    by (auto simp: dispatch_def split: instruction.split cpu_instruction.split lane_const_instruction.split
        atom_instruction.split gate_instruction.split measurement_instruction.split array_instruction.split
        detector_instruction.split)
  then show ?thesis
    using False by (auto simp: instr_step_def split: instruction.split atom_instruction.split)
qed

lemma step_pure: "dispatch i = (\<lambda>s. Returned (g s)) \<Longrightarrow> instr_step i = g"
proof -
  assume d: "dispatch i = (\<lambda>s. Returned (g s))"
  then have "instr_step i s = g s" for s using dispatch_step[of i s] by simp
  then show "instr_step i = g" by (simp add: fun_eq_iff)
qed

lemma handler_pushes:
  "v \<noteq> None \<or> t \<notin> {tag_location, tag_lane} \<Longrightarrow> handler f R \<Longrightarrow>
   (\<And>a st st'. S a st st' \<longleftrightarrow> (\<exists>r. R a st r \<and> st' = \<lparr>entry_tag = t, entry_value = v\<rparr> # r)) \<Longrightarrow>
   handler (\<lambda>s. push_entry t v (f s)) S"
  by (rule handler_mono[OF handler_comp[OF _ handler_push]]) (auto simp: relcompp_apply)

lemma handler_id: "handler (\<lambda>s. s) (\<lambda>_ st st'. st' = st)"
  by unfold_locales auto

lemma push_funpow: "((\<lambda>st st'. st' = e # st) ^^ n) st st' \<longleftrightarrow> st' = replicate n e @ st"
  by (induction n arbitrary: st') (auto simp: relcompp_apply replicate_append_same)

lemma const_entry_cases:
  "const_entry (AtomArrangement c) = None" "const_entry (QuantumGate g) = None"
  "const_entry (Measurement m) = None" "const_entry (Array r) = None"
  "const_entry (DetectorObservable d) = None"
  "const_entry (Cpu Pop) = None" "const_entry (Cpu Dup) = None" "const_entry (Cpu Swap) = None"
  "const_entry (Cpu Return) = None" "const_entry (Cpu Halt) = None"
  by (simp_all add: const_entry_def)

lemmas typed_iffs = typed_simps const_entry_cases

lemma handler_cpu: "handler (instr_step (Cpu c)) (\<lambda>a. typed a (Cpu c))"
proof (cases c)
  case (ConstFloat f)
  have "instr_step (Cpu c) = (\<lambda>s. push_entry tag_float (Some (to_bits f)) s)"
    by (rule step_pure) (simp add: ConstFloat dispatch_def push_const_def fun_eq_iff)
  then show ?thesis
    by (simp add: ConstFloat) (rule handler_pushes[OF _ handler_id], auto simp: typed_iffs const_entry_def)
next
  case (ConstInt v)
  have "instr_step (Cpu c) = (\<lambda>s. push_entry tag_int (Some v) s)"
    by (rule step_pure) (simp add: ConstInt dispatch_def push_const_def fun_eq_iff)
  then show ?thesis
    by (simp add: ConstInt) (rule handler_pushes[OF _ handler_id], auto simp: typed_iffs const_entry_def)
next
  case Pop
  have "instr_step (Cpu c) = pop_any" by (rule step_pure) (simp add: Pop dispatch_def fun_eq_iff)
  then show ?thesis by (simp add: Pop) (rule handler_mono[OF handler_pop_any], auto simp: typed_iffs pops_def)
next
  case Dup
  have "instr_step (Cpu c) = sim_dup" by (rule step_pure) (simp add: Dup dispatch_def fun_eq_iff)
  then show ?thesis by (simp add: Dup) (rule handler_mono[OF handler_dup], auto simp: typed_iffs)
next
  case Swap
  have "instr_step (Cpu c) = sim_swap" by (rule step_pure) (simp add: Swap dispatch_def fun_eq_iff)
  then show ?thesis by (simp add: Swap) (rule handler_mono[OF handler_swap], auto simp: typed_iffs)
next
  case Return
  have "instr_step (Cpu c) = pop_any" by (rule step_pure) (simp add: Return dispatch_def sim_return_def fun_eq_iff)
  then show ?thesis by (simp add: Return) (rule handler_mono[OF handler_pop_any], auto simp: typed_iffs pops_def)
next
  case Halt
  have "instr_step (Cpu c) = (\<lambda>s. s)" by (rule step_pure) (simp add: Halt dispatch_def fun_eq_iff)
  then show ?thesis by (simp add: Halt) (rule handler_mono[OF handler_id], auto simp: typed_iffs)
qed

lemma handler_lane_const: "handler (instr_step (LaneConst c)) (\<lambda>a. typed a (LaneConst c))"
proof -
  obtain t v where e: "const_entry (LaneConst c) = Some \<lparr>entry_tag = t, entry_value = Some v\<rparr>"
    and "dispatch (LaneConst c) = (\<lambda>s. Returned (push_const t v s))"
    by (cases c) (auto simp: const_entry_def dispatch_def fun_eq_iff)
  then have "instr_step (LaneConst c) = (\<lambda>s. push_entry t (Some v) s)"
    by (intro step_pure) (simp add: push_const_def)
  then show ?thesis by (simp, intro handler_pushes[OF _ handler_id]) (auto simp: typed_simps e)
qed

lemma handler_atom: "handler (instr_step (AtomArrangement c)) (\<lambda>a. typed a (AtomArrangement c))"
proof (cases c)
  case (InitialFill n)
  have "instr_step (AtomArrangement c) = pop_and_validate_locations n"
    by (rule step_pure) (simp add: InitialFill dispatch_def sim_fill_def fun_eq_iff)
  then show ?thesis
    by (simp add: InitialFill) (rule handler_mono[OF handler_locations], auto simp: typed_iffs)
next
  case (Fill n)
  have "instr_step (AtomArrangement c) = pop_and_validate_locations n"
    by (rule step_pure) (simp add: Fill dispatch_def sim_fill_def fun_eq_iff)
  then show ?thesis
    by (simp add: Fill) (rule handler_mono[OF handler_locations], auto simp: typed_iffs)
next
  case (Move n)
  have "instr_step (AtomArrangement c) = move_step n" by (simp add: Move instr_step_def fun_eq_iff)
  then show ?thesis
    by (simp add: Move) (rule handler_mono[OF handler_move], auto simp: typed_iffs)
qed

lemma handler_gate: "handler (instr_step (QuantumGate c)) (\<lambda>a. typed a (QuantumGate c))"
proof (cases c)
  case (LocalR n)
  have "instr_step (QuantumGate c) = (\<lambda>s. pop_and_validate_locations n (pop_typed_n tag_float 2 s))"
    by (rule step_pure) (simp add: LocalR dispatch_def sim_local_r_def fun_eq_iff)
  then show ?thesis
    by (simp add: LocalR)
      (rule handler_mono[OF handler_comp[OF handler_pop_typed_n handler_locations]],
        auto simp: typed_iffs relcompp_apply)
next
  case (LocalRz n)
  have "instr_step (QuantumGate c) = (\<lambda>s. pop_and_validate_locations n (pop_typed_n tag_float 1 s))"
    by (rule step_pure) (simp add: LocalRz dispatch_def sim_local_rz_def fun_eq_iff)
  then show ?thesis
    by (simp add: LocalRz)
      (rule handler_mono[OF handler_comp[OF handler_pop_typed_n handler_locations]],
        auto simp: typed_iffs relcompp_apply)
next
  case GlobalR
  have "instr_step (QuantumGate c) = pop_typed_n tag_float 2"
    by (rule step_pure) (simp add: GlobalR dispatch_def sim_global_r_def fun_eq_iff)
  then show ?thesis
    by (simp add: GlobalR) (rule handler_mono[OF handler_pop_typed_n], auto simp: typed_iffs)
next
  case GlobalRz
  have "instr_step (QuantumGate c) = pop_typed_n tag_float 1"
    by (rule step_pure) (simp add: GlobalRz dispatch_def sim_global_rz_def fun_eq_iff)
  then show ?thesis
    by (simp add: GlobalRz) (rule handler_mono[OF handler_pop_typed_n], auto simp: typed_iffs)
next
  case CZ
  have "instr_step (QuantumGate c) = pop_typed tag_zone"
    by (rule step_pure) (simp add: CZ dispatch_def sim_cz_def fun_eq_iff)
  then show ?thesis
    by (simp add: CZ) (rule handler_mono[OF handler_pop_typed], auto simp: typed_iffs pops_def)
qed

lemma not_address_tags [simp]:
  "tag_measure_future \<noteq> tag_location" "tag_measure_future \<noteq> tag_lane"
  "tag_array_ref \<noteq> tag_location" "tag_array_ref \<noteq> tag_lane"
  "tag_float \<noteq> tag_location" "tag_float \<noteq> tag_lane"
  "tag_detector_ref \<noteq> tag_location" "tag_detector_ref \<noteq> tag_lane"
  "tag_observable_ref \<noteq> tag_location" "tag_observable_ref \<noteq> tag_lane"
  by (simp_all add: tag_defs)

lemma handler_measurement: "handler (instr_step (Measurement c)) (\<lambda>a. typed a (Measurement c))"
proof (cases c)
  case (Measure n)
  have "instr_step (Measurement c) =
      (\<lambda>s. (push_entry tag_measure_future None ^^ unat n) (pop_typed_n tag_zone (unat n) s))"
    by (rule step_pure) (simp add: Measure dispatch_def sim_measure_def fun_eq_iff)
  moreover have "handler (push_entry tag_measure_future None ^^ unat n)
      (\<lambda>_ st st'. st' = replicate (unat n) (unknown_entry tag_measure_future) @ st)"
    by (rule handler_mono[OF handler_funpow[OF handler_push]]) (simp_all add: push_funpow unknown_entry_def)
  ultimately show ?thesis
    by (simp add: Measure)
      (rule handler_mono[OF handler_comp[OF handler_pop_typed_n]], auto simp: typed_iffs relcompp_apply)
next
  case AwaitMeasure
  have "instr_step (Measurement c) = (\<lambda>s. push_entry tag_array_ref None (pop_typed tag_measure_future s))"
    by (rule step_pure) (simp add: AwaitMeasure dispatch_def sim_await_measure_def fun_eq_iff)
  then show ?thesis
    by (simp add: AwaitMeasure)
      (rule handler_pushes[OF _ handler_pop_typed], auto simp: typed_iffs pops_def unknown_entry_def)
qed

lemma handler_array: "handler (instr_step (Array c)) (\<lambda>a. typed a (Array c))"
proof (cases c)
  case (NewArray t d0 d1)
  have "instr_step (Array c) =
      (\<lambda>s. push_entry tag_array_ref None ((pop_any ^^ unat (array_count d0 d1)) s))"
    by (rule step_pure) (simp add: NewArray dispatch_def sim_new_array_def fun_eq_iff)
  then show ?thesis
    by (simp add: NewArray)
      (rule handler_pushes[OF _ handler_funpow[OF handler_pop_any]],
        auto simp: typed_iffs pops_funpow unknown_entry_def)
next
  case (GetItem n)
  have "instr_step (Array c) = (\<lambda>s. push_entry tag_float None (pop_typed tag_array_ref (pop_typed_n tag_int (unat n) s)))"
    by (rule step_pure) (simp add: GetItem dispatch_def sim_get_item_def fun_eq_iff)
  then show ?thesis
    by (simp add: GetItem)
      (rule handler_pushes[OF _ handler_comp[OF handler_pop_typed_n handler_pop_typed]],
        auto simp: typed_iffs pops_def unknown_entry_def relcompp_apply)
qed

lemma handler_detector: "handler (instr_step (DetectorObservable c)) (\<lambda>a. typed a (DetectorObservable c))"
proof (cases c)
  case SetDetector
  have "instr_step (DetectorObservable c) = (\<lambda>s. push_entry tag_detector_ref None (pop_typed tag_array_ref s))"
    by (rule step_pure) (simp add: SetDetector dispatch_def sim_set_ref_def fun_eq_iff)
  then show ?thesis
    by (simp add: SetDetector)
      (rule handler_pushes[OF _ handler_pop_typed], auto simp: typed_iffs pops_def unknown_entry_def)
next
  case SetObservable
  have "instr_step (DetectorObservable c) = (\<lambda>s. push_entry tag_observable_ref None (pop_typed tag_array_ref s))"
    by (rule step_pure) (simp add: SetObservable dispatch_def sim_set_ref_def fun_eq_iff)
  then show ?thesis
    by (simp add: SetObservable)
      (rule handler_pushes[OF _ handler_pop_typed], auto simp: typed_iffs pops_def unknown_entry_def)
qed

interpretation instr: handler "instr_step i" "\<lambda>a. typed a i" for i
  by (cases i)
    (simp_all add: handler_cpu handler_lane_const handler_atom handler_gate handler_measurement
      handler_array handler_detector)

section \<open>Runs\<close>

inductive_cases typed_run_ConsE: "typed_run a (i # is) st st'"

inductive_simps typed_run_simps [simp]: "typed_run a [] st st'" "typed_run a (i # is) st st'"

lemma sim_loop_errors:
  "sim_loop pc is s = Returned s' \<Longrightarrow>
   \<exists>es. sim_errors s' = sim_errors s @ es \<and> set (map error_pc es) \<subseteq> Some ` {pc..<pc + length is}
     \<and> sorted (map (the \<circ> error_pc) es)"
proof (induction "is" arbitrary: pc s)
  case (Cons i "is")
  let ?s = "instr_step i (s\<lparr>sim_pc := pc\<rparr>)"
  have "sim_loop (Suc pc) is ?s = Returned s'"
    using Cons.prems dispatch_step[of i "s\<lparr>sim_pc := pc\<rparr>"] by auto
  then obtain es where es: "sim_errors s' = sim_errors ?s @ es"
    "set (map error_pc es) \<subseteq> Some ` {Suc pc..<Suc pc + length is}" "sorted (map (the \<circ> error_pc) es)"
    using Cons.IH by blast
  obtain es0 where es0: "sim_errors ?s = sim_errors s @ es0" "\<forall>e \<in> set es0. error_pc e = Some pc"
    using instr.appends[of i "s\<lparr>sim_pc := pc\<rparr>"] by auto
  have "\<forall>x \<in> set es. pc \<le> the (error_pc x)" using es(2) by force
  moreover have "sorted (map (the \<circ> error_pc) es0)"
    using es0(2) by (induction es0) auto
  ultimately have "sorted (map (the \<circ> error_pc) (es0 @ es))"
    using es(3) es0(2) by (auto simp: sorted_append)
  moreover have "set (map error_pc (es0 @ es)) \<subseteq> Some ` {pc..<pc + length (i # is)}"
    using es(2) es0(2) by (auto 0 4)
  moreover have "sim_errors s' = sim_errors s @ (es0 @ es)" using es(1) es0(1) by simp
  ultimately show ?case by blast
qed simp

lemma sim_loop_clean:
  "known (sim_stack s) \<Longrightarrow>
   (\<exists>s'. sim_loop pc is s = Returned s' \<and> sim_errors s' = sim_errors s \<and> sim_stack s' = st)
     \<longleftrightarrow> typed_run (sim_arch s) is (sim_stack s) st"
proof (induction "is" arbitrary: pc s)
  case (Cons i "is")
  let ?t = "s\<lparr>sim_pc := pc\<rparr>"
  let ?s = "instr_step i ?t"
  have k: "known (sim_stack ?s)" using instr.keeps_known[of ?t i] Cons.prems by simp
  have arch: "sim_arch ?s = sim_arch s" using instr.frame[of i ?t] by simp
  obtain es0 where es0: "sim_errors ?s = sim_errors s @ es0" using instr.appends[of i ?t] by auto
  have clean: "sim_errors ?s = sim_errors s \<and> sim_stack ?s = m \<longleftrightarrow> typed (sim_arch s) i (sim_stack s) m" for m
    using instr.clean[of ?t i m] Cons.prems by simp
  have "(\<exists>s'. sim_loop pc (i # is) s = Returned s' \<and> sim_errors s' = sim_errors s \<and> sim_stack s' = st) \<longleftrightarrow>
      sim_errors ?s = sim_errors s
      \<and> (\<exists>s'. sim_loop (Suc pc) is ?s = Returned s' \<and> sim_errors s' = sim_errors ?s \<and> sim_stack s' = st)"
    (is "?L \<longleftrightarrow> ?R")
  proof
    assume ?L
    then obtain s' where s': "dispatch i ?t = Returned ?s" "sim_loop (Suc pc) is ?s = Returned s'"
      "sim_errors s' = sim_errors s" "sim_stack s' = st"
      using dispatch_step[of i ?t] by auto
    then obtain es where "sim_errors s' = sim_errors ?s @ es" using sim_loop_errors by blast
    then show ?R using s' es0 by auto
  next
    assume ?R
    then show ?L using dispatch_step[of i ?t] by auto
  qed
  also have "\<dots> \<longleftrightarrow> (\<exists>m. typed (sim_arch s) i (sim_stack s) m \<and> typed_run (sim_arch s) is m st)"
    using Cons.IH[OF k, of "Suc pc"] clean unfolding arch by metis
  finally show ?case by simp
qed auto

lemma simulate_clean:
  "simulate_stack p arch = Returned [] \<longleftrightarrow> (\<exists>st. typed_run arch (instructions p) [] st)"
proof -
  have "simulate_stack p arch = Returned [] \<longleftrightarrow>
      (\<exists>st s'. sim_loop 0 (instructions p) (sim_new arch) = Returned s' \<and> sim_errors s' = [] \<and> sim_stack s' = st)"
    by (auto simp: simulate_stack_def sim_run_def)
  also have "\<dots> \<longleftrightarrow> (\<exists>st. typed_run arch (instructions p) [] st)"
    using sim_loop_clean[of "sim_new arch" 0 "instructions p"] by (simp add: sim_new_def)
  finally show ?thesis .
qed

section \<open>Where stack entries come from\<close>

text \<open>What an operation can put on the stack beyond what is there, errors or not.\<close>
locale entry_source =
  fixes f :: "stack_sim \<Rightarrow> stack_sim" and fresh :: "sim_entry set"
  assumes entries: "set (sim_stack (f s)) \<subseteq> set (sim_stack s) \<union> fresh"
begin

lemma keeps: "\<forall>e \<in> set (sim_stack s). P e \<Longrightarrow> \<forall>e \<in> fresh. P e \<Longrightarrow> \<forall>e \<in> set (sim_stack (f s)). P e"
  using entries[of s] by blast

end

lemma source_comp: "entry_source f N \<Longrightarrow> entry_source g M \<Longrightarrow> entry_source (\<lambda>s. g (f s)) (N \<union> M)"
  by (simp add: entry_source_def) blast

lemma source_funpow: "entry_source f N \<Longrightarrow> entry_source (f ^^ n) N"
proof (induction n)
  case (Suc n)
  then show ?case using source_comp[of "f ^^ n" N f N] by (simp add: comp_def)
qed (simp add: entry_source_def)

lemma source_mono: "entry_source f N \<Longrightarrow> N \<subseteq> M \<Longrightarrow> entry_source f M"
  by (simp add: entry_source_def) blast

lemma source_pop_any: "entry_source pop_any {}"
  by unfold_locales (auto simp: pop_any_def add_errors_def split: list.split)

lemma source_pop_typed: "entry_source (pop_typed t) {}"
  by unfold_locales (auto simp: pop_typed_def add_errors_def Let_def split: list.split)

lemma source_pop_typed_n: "entry_source (pop_typed_n t n) {}"
  using source_funpow[OF source_pop_typed] by (simp add: pop_typed_n_def)

lemma source_push: "entry_source (push_entry t v) {\<lparr>entry_tag = t, entry_value = v\<rparr>}"
  by unfold_locales (auto simp: push_entry_def)

lemma source_locations: "entry_source (pop_and_validate_locations n) {}"
proof -
  have "sim_stack (pop_and_validate_locations n s) = sim_stack (pop_typed_n tag_location (unat n) s)" for s
    by (simp add: pop_and_validate_locations_def Let_def case_prod_unfold pop_location_def pop_values_state
        push_location_group_errors_def check_duplicate_locations_standalone_def add_errors_def split: option.split)
  then show ?thesis using source_pop_typed_n by (simp add: entry_source_def)
qed

lemma source_move: "entry_source (move_step n) {}"
proof -
  have "sim_stack (move_step n s) = sim_stack (pop_typed_n tag_lane (unat n) s)" for s
    by (simp add: move_step_def sim_move_def Let_def case_prod_unfold pop_lane_def pop_values_state
        push_lane_group_errors_def check_duplicate_lanes_standalone_def add_errors_def bind_outcome_def
        split: option.split outcome.split)
  then show ?thesis using source_pop_typed_n by (simp add: entry_source_def)
qed

text \<open>An instruction adds entries without a value, and a constant its own entry.\<close>
definition fresh_entries :: "instruction \<Rightarrow> sim_entry set" where
  "fresh_entries i = {e. entry_value e = None} \<union> set_option (const_entry i)"

lemma source_pushes: "entry_source f {} \<Longrightarrow> entry_source (\<lambda>s. (push_entry t v ^^ k) (f s)) {\<lparr>entry_tag = t, entry_value = v\<rparr>}"
  using source_comp[OF _ source_funpow[OF source_push]] by simp

lemma source_push_of: "entry_source f {} \<Longrightarrow> entry_source (\<lambda>s. push_entry t v (f s)) {\<lparr>entry_tag = t, entry_value = v\<rparr>}"
  using source_pushes[where k = 1] by simp

lemma source_stack: "entry_source sim_dup {}" "entry_source sim_swap {}"
  by unfold_locales (auto simp: sim_dup_def sim_swap_def add_errors_def split: list.split)

lemma source_gates: "entry_source (sim_local_r n) {}" "entry_source (sim_local_rz n) {}"
  using source_comp[OF source_pop_typed_n source_locations]
  by (simp_all add: sim_local_r_def sim_local_rz_def entry_source_def)

lemma source_measure: "entry_source (sim_measure n) {unknown_entry tag_measure_future}"
  using source_pushes[OF source_pop_typed_n] by (simp add: sim_measure_def unknown_entry_def entry_source_def)

lemma source_await: "entry_source sim_await_measure {unknown_entry tag_array_ref}"
  using source_push_of[OF source_pop_typed] by (simp add: sim_await_measure_def unknown_entry_def entry_source_def)

lemma source_new_array: "entry_source (sim_new_array d0 d1) {unknown_entry tag_array_ref}"
  using source_push_of[OF source_funpow[OF source_pop_any]]
  by (simp add: sim_new_array_def unknown_entry_def entry_source_def)

lemma source_get_item: "entry_source (sim_get_item n) {unknown_entry tag_float}"
  using source_push_of[OF source_comp[OF source_pop_typed_n source_pop_typed, simplified]]
  by (simp add: sim_get_item_def unknown_entry_def entry_source_def)

lemma source_set_ref: "entry_source (sim_set_ref t) {unknown_entry t}"
  using source_push_of[OF source_pop_typed] by (simp add: sim_set_ref_def unknown_entry_def entry_source_def)

lemmas source_entries = source_pop_any source_locations source_move source_stack source_gates
  source_pop_typed source_pop_typed_n source_measure source_await source_new_array source_get_item
  source_set_ref

lemmas source_dests = source_entries[THEN entry_source.entries, THEN subsetD]

lemma instr_step_entries: "e \<in> set (sim_stack (instr_step i s)) \<Longrightarrow> e \<in> set (sim_stack s) \<or> e \<in> fresh_entries i"
  by (cases i; rename_tac c; case_tac c)
    (auto simp: instr_step_def dispatch_def fresh_entries_def const_entry_def push_const_def push_entry_def
      sim_return_def sim_fill_def sim_global_r_def sim_global_rz_def sim_cz_def unknown_entry_def
      dest!: source_dests)

text \<open>Lane values come from constants, so a run panics only on a constant that has no address.\<close>
definition decodable :: "sim_entry \<Rightarrow> bool" where
  "decodable e \<longleftrightarrow> (entry_tag e = tag_lane \<longrightarrow>
     (\<forall>b. entry_value e = Some b \<longrightarrow> lane_decode_u64 b \<noteq> Panicked))"

lemma pop_values_from_stack:
  "Some b \<in> set (fst (pop_values (pop_valued t) n s)) \<Longrightarrow>
   \<exists>e \<in> set (sim_stack s). entry_tag e = t \<and> entry_value e = Some b"
proof (induction n arbitrary: s)
  case (Suc n)
  let ?s' = "snd (pop_valued t s)"
  have sub: "set (sim_stack ?s') \<subseteq> set (sim_stack s)"
    unfolding pop_valued_state using entry_source.entries[OF source_pop_typed] by blast
  have hd: "fst (pop_valued t s) = Some b \<Longrightarrow> \<exists>e \<in> set (sim_stack s). entry_tag e = t \<and> entry_value e = Some b"
    by (auto simp: pop_valued_def Let_def split: list.splits if_splits)
  have "fst (pop_valued t s) = Some b \<or> Some b \<in> set (fst (pop_values (pop_valued t) n ?s'))"
    using Suc.prems by (auto simp: case_prod_unfold Let_def)
  then show ?case using hd Suc.IH[of ?s'] sub by blast
qed simp

lemma set_map_filter_id: "b \<in> set (List.map_filter id vs) \<longleftrightarrow> Some b \<in> set vs"
  by (induction vs) (auto simp: List.map_filter_simps split: option.split)

lemma dispatch_no_panic:
  assumes "\<forall>e \<in> set (sim_stack s). decodable e"
  shows "dispatch i s \<noteq> Panicked"
proof (cases "\<exists>n. i = AtomArrangement (Move n)")
  case True
  then obtain n where i: "i = AtomArrangement (Move n)" by blast
  have "lane_decode_u64 b \<noteq> Panicked" if "b \<in> set (List.map_filter id (fst (pop_values pop_lane (unat n) s)))" for b
    using that assms pop_values_from_stack[of b tag_lane]
    by (fastforce simp: set_map_filter_id pop_lane_def decodable_def)
  then show ?thesis
    by (auto simp: i dispatch_def sim_move_def case_prod_unfold Let_def traverse_outcome_Panicked_iff
        lane_decode_u64_def)
next
  case False
  then show ?thesis
    by (auto simp: dispatch_def split: instruction.split cpu_instruction.split lane_const_instruction.split
        atom_instruction.split gate_instruction.split measurement_instruction.split array_instruction.split
        detector_instruction.split)
qed

lemma lane_decode_u64_join: "lane_decode_u64 (ucast d0 OR push_bit 32 (ucast d1)) = lane_decode d0 d1"
  unfolding lane_decode_u64_def low_half high_half ..

lemma fresh_decodable: "\<not> reserved_lane i \<Longrightarrow> e \<in> fresh_entries i \<Longrightarrow> decodable e"
  by (auto simp: fresh_entries_def decodable_def const_entry_def reserved_lane_def lane_decode_u64_join
      lane_decode_Panicked_iff tag_defs
      split: instruction.splits cpu_instruction.splits lane_const_instruction.splits)

lemma sim_loop_panics:
  "sim_loop pc is s = Panicked \<Longrightarrow> \<forall>e \<in> set (sim_stack s). decodable e \<Longrightarrow> list_ex reserved_lane is"
proof (induction "is" arbitrary: pc s)
  case (Cons i "is")
  let ?t = "s\<lparr>sim_pc := pc\<rparr>"
  show ?case
  proof (cases "reserved_lane i")
    case False
    have "dispatch i ?t = Returned (instr_step i ?t)"
      using dispatch_step[of i ?t] dispatch_no_panic[of ?t i] Cons.prems(2) by auto
    moreover have "\<forall>e \<in> set (sim_stack (instr_step i ?t)). decodable e"
      using instr_step_entries[of _ i ?t] fresh_decodable[OF False] Cons.prems(2) by fastforce
    ultimately show ?thesis using Cons by auto
  qed simp
qed simp

lemma typed_run_append:
  "typed_run arch (is @ js) st st'' \<longleftrightarrow> (\<exists>st'. typed_run arch is st st' \<and> typed_run arch js st' st'')"
proof (induction "is" arbitrary: st)
  case (Cons i "is")
  then show ?case by auto
qed simp

lemma simulate_split:
  assumes "simulate_stack p arch = Returned []" "instructions p = pre @ i # post"
  obtains s st where "sim_loop 0 pre (sim_new arch) = Returned s" "sim_errors s = []"
    "typed arch i (sim_stack s) st"
proof -
  obtain st where "typed_run arch (pre @ i # post) [] st"
    using assms simulate_clean by metis
  then obtain m st' where m: "typed_run arch pre [] m" "typed arch i m st'"
    by (auto simp: typed_run_append)
  then obtain s where "sim_loop 0 pre (sim_new arch) = Returned s" "sim_errors s = []" "sim_stack s = m"
    using sim_loop_clean[of "sim_new arch" 0 pre m] by (auto simp: sim_new_def)
  then show ?thesis using that m(2) by blast
qed

section \<open>Properties\<close>

text \<open>C4. The simulator reports nothing exactly for the programs that have a typed execution from the
  empty stack: every instruction finds the operands its rule asks for, of the right kinds, with
  distinct and (given an architecture) valid and jointly movable addresses.  The check is sound and
  complete, and no group check skips an operand.  The rules are those of the code: a return takes one
  value of any type, where the instruction reference gives it no operand, and an array keeps no
  element type, so that an item is always a float.\<close>
theorem simulate_stack_typed:
  "simulate_stack p arch = Returned [] \<longleftrightarrow> (\<exists>st. typed_run arch (instructions p) [] st)"
  by (rule simulate_clean)

text \<open>C34. The simulator panics only on a program with a lane constant whose two move-type bits are
  set, one on which the address check panics as well; otherwise its errors name instructions of the
  program, in program order.\<close>
theorem simulate_stack_errors:
  "case simulate_stack p arch of
     Panicked \<Rightarrow> list_ex reserved_lane (instructions p) \<and> validate_addresses p a = Panicked
   | Returned es \<Rightarrow> set (map error_pc es) \<subseteq> Some ` {..<length (instructions p)}
       \<and> sorted (map (the \<circ> error_pc) es)"
proof (cases "sim_loop 0 (instructions p) (sim_new arch)")
  case (Returned s)
  then show ?thesis
    using sim_loop_errors[OF Returned]
    by (auto simp: simulate_stack_def sim_run_def sim_new_def lessThan_atLeast0)
next
  case Panicked
  then have "list_ex reserved_lane (instructions p)"
    by (rule sim_loop_panics) (simp add: sim_new_def)
  then show ?thesis
    using Panicked by (simp add: simulate_stack_def sim_run_def validate_addresses_Panicked list_ex_iff)
qed

lemma typed_new_array_iff:
  "typed arch (Array (NewArray t d0 d1)) st st' \<longleftrightarrow>
     unat (array_count d0 d1) \<le> length st \<and> st' = unknown_entry tag_array_ref # drop (unat (array_count d0 d1)) st"
proof
  assume "unat (array_count d0 d1) \<le> length st \<and> st' = unknown_entry tag_array_ref # drop (unat (array_count d0 d1)) st"
  then show "typed arch (Array (NewArray t d0 d1)) st st'"
    using typed.new_array[of "take (unat (array_count d0 d1)) st" d0 d1 arch t "drop (unat (array_count d0 d1)) st"] by simp
qed (erule typed.cases; auto simp: const_entry_def)

lemma array_count_mod:
  "unat (array_count d0 d1) = (unat d0 * (if d1 = 0 then 1 else unat d1)) mod 2 ^ 16"
  by (simp add: array_count_def unat_mult_lem unat_word_ariths)

text \<open>C39. The element count of a new array is the product of its dimensions, the second taken as one
  when it is zero, modulo \<open>2 ^ 16\<close>: a program followed by the instruction is accepted exactly when
  the program is and leaves so many values, of any type, and they are replaced by one array
  reference.  As long as the product is below \<open>2 ^ 16\<close> this is the number of elements; beyond, a
  release build asks for fewer operands than the array has elements.\<close>
theorem new_array_operands:
  "let count = (unat d0 * (if d1 = 0 then 1 else unat d1)) mod 2 ^ 16
   in (simulate_stack \<lparr>version_of = v, instructions = is @ [Array (NewArray t d0 d1)]\<rparr> arch = Returned []
        \<longleftrightarrow> (\<exists>st. typed_run arch is [] st \<and> count \<le> length st))
    \<and> (typed_run arch (is @ [Array (NewArray t d0 d1)]) [] st'
        \<longleftrightarrow> (\<exists>st. typed_run arch is [] st \<and> count \<le> length st \<and> st' = unknown_entry tag_array_ref # drop count st))"
  unfolding Let_def array_count_mod[symmetric] by (simp add: simulate_clean typed_run_append typed_new_array_iff)

end
