(* ===== verification/Float_Text.thy ===== *)
theory Float_Text
  imports Float64 Rust_Str
begin

text \<open>
  The text form of doubles in Rust's standard library: \<open>str::parse::<f64>\<close>, which rounds a
  decimal to the nearest double with ties to even, and \<open>Display\<close>, which prints the shortest
  decimal that is read back, in positional notation.  \<open>text.rs\<close> prints and reads constants
  with them.  A magnitude is the lower 63 bits of a pattern; \<open>units\<close> is its value in multiples
  of \<open>2\<^bsup>-1074\<^esup>\<close>, so every comparison is one of natural numbers.
\<close>

section \<open>Rounding a fraction to the nearest double\<close>

definition units :: "nat \<Rightarrow> nat" where
  "units m = (if m < 2 ^ 53 then m else (2 ^ 52 + m mod 2 ^ 52) * 2 ^ (m div 2 ^ 52 - 1))"

text \<open>The greatest number below \<open>acc + 2\<^sup>k\<close> that satisfies a downward closed predicate.\<close>
fun bisect :: "(nat \<Rightarrow> bool) \<Rightarrow> nat \<Rightarrow> nat \<Rightarrow> nat" where
  "bisect P 0 acc = acc"
| "bisect P (Suc k) acc = bisect P k (if P (acc + 2 ^ k) then acc + 2 ^ k else acc)"

definition infinity_magnitude :: nat where "infinity_magnitude = 2047 * 2 ^ 52"

text \<open>The magnitude nearest to \<open>num / den\<close>.\<close>
definition nearest_magnitude :: "nat \<Rightarrow> nat \<Rightarrow> nat" where
  "nearest_magnitude num den =
     (let n = num * 2 ^ 1074;
          m = bisect (\<lambda>x. units x * den \<le> n) 63 0;
          mid = (units m + units (Suc m)) * den
      in min infinity_magnitude (if mid < 2 * n \<or> mid = 2 * n \<and> odd m then Suc m else m))"

lemma units_less_Suc: "units m < units (Suc m)"
proof -
  consider "Suc m < 2 ^ 53" | "Suc m = 2 ^ 53" | "2 ^ 53 \<le> m" by linarith
  then show ?thesis
  proof cases
    case 1
    then show ?thesis by (simp add: units_def)
  next
    case 2
    then have "m = 2 ^ 53 - 1" by simp
    then show ?thesis by (simp add: units_def)
  next
    case 3
    define e f where "e = m div 2 ^ 52" and "f = m mod 2 ^ 52"
    have m: "m = e * 2 ^ 52 + f" "f < 2 ^ 52" by (simp_all add: e_def f_def)
    have e: "1 < e" using 3 div_le_mono[of "2 ^ 53" m "2 ^ 52"] by (simp add: e_def)
    have um: "units m = (2 ^ 52 + f) * 2 ^ (e - 1)" using 3 by (simp add: units_def e_def f_def)
    show ?thesis
    proof (cases "Suc f < 2 ^ 52")
      case True
      then have "Suc m div 2 ^ 52 = e" "Suc m mod 2 ^ 52 = Suc f" by (simp_all add: m(1))
      then have "units (Suc m) = (2 ^ 52 + Suc f) * 2 ^ (e - 1)" using 3 by (simp add: units_def)
      then show ?thesis by (simp add: um)
    next
      case False
      then have "Suc m = Suc e * 2 ^ 52" using m by simp
      then have "units (Suc m) = 2 ^ 52 * 2 ^ e" using 3 by (simp add: units_def)
      also have "(2 :: nat) ^ e = 2 * 2 ^ (e - 1)" using e by (simp add: power_eq_if)
      finally show ?thesis using m(2) by (simp add: um)
    qed
  qed
qed

lemma units_mono: "units a \<le> units b \<longleftrightarrow> a \<le> b"
  using strict_mono_less_eq[of units] units_less_Suc by (simp add: strict_mono_Suc_iff)

lemma bisect_spec:
  "P acc \<Longrightarrow> \<not> P (acc + 2 ^ k) \<Longrightarrow> P (bisect P k acc) \<and> \<not> P (Suc (bisect P k acc))"
proof (induction k arbitrary: acc)
  case (Suc k)
  then show ?case
    by (cases "P (acc + 2 ^ k)") (simp_all add: mult_2 add.assoc)
qed simp

lemma bisect_upto: "m < 2 ^ k \<Longrightarrow> bisect (\<lambda>x. x \<le> m) k 0 = m"
  using bisect_spec[of "\<lambda>x. x \<le> m" 0 k] by simp

text \<open>Only the value of the fraction matters.\<close>
lemma nearest_scale: "0 < c \<Longrightarrow> nearest_magnitude (num * c) (den * c) = nearest_magnitude num den"
proof -
  assume c: "0 < c"
  have le: "x * (den * c) \<le> num * c * 2 ^ 1074 \<longleftrightarrow> x * den \<le> num * 2 ^ 1074" for x
    using mult_le_cancel2[of "x * den" c "num * 2 ^ 1074"] c by (simp only: ac_simps simp_thms)
  have lt: "x * (den * c) < 2 * (num * c * 2 ^ 1074) \<longleftrightarrow> x * den < 2 * (num * 2 ^ 1074)" for x
    using mult_less_cancel2[of "x * den" c "2 * (num * 2 ^ 1074)"] c by (simp only: ac_simps simp_thms)
  have eq: "x * (den * c) = 2 * (num * c * 2 ^ 1074) \<longleftrightarrow> x * den = 2 * (num * 2 ^ 1074)" for x
    using mult_cancel2[of "x * den" c "2 * (num * 2 ^ 1074)"] c by (simp only: ac_simps) simp
  show ?thesis unfolding nearest_magnitude_def Let_def le lt eq ..
qed

lemma nearest_cross:
  assumes "num * den' = num' * den" "0 < den" "0 < den'"
  shows "nearest_magnitude num den = nearest_magnitude num' den'"
proof -
  have "nearest_magnitude num den = nearest_magnitude (num * den') (den * den')"
    using nearest_scale[OF assms(3)] by simp
  also have "\<dots> = nearest_magnitude (num' * den) (den' * den)" by (simp only: assms(1) mult.commute[of den])
  finally show ?thesis using nearest_scale[OF assms(2)] by simp
qed

lemma nearest_exact:
  assumes "num * 2 ^ 1074 = units m * den" "0 < den" "m \<le> infinity_magnitude"
  shows "nearest_magnitude num den = m"
proof -
  have "units x * den \<le> num * 2 ^ 1074 \<longleftrightarrow> x \<le> m" for x
    using assms(2) by (simp only: assms(1) mult_le_cancel2 units_mono simp_thms)
  moreover have "m < 2 ^ 63" using assms(3) by (simp add: infinity_magnitude_def)
  ultimately have "bisect (\<lambda>x. units x * den \<le> num * 2 ^ 1074) 63 0 = m" by (simp only: bisect_upto)
  moreover have "2 * (num * 2 ^ 1074) < (units m + units (Suc m)) * den"
    unfolding assms(1) using units_less_Suc[of m] assms(2) by (simp add: distrib_right)
  ultimately show ?thesis using assms(3) by (simp add: nearest_magnitude_def Let_def)
qed

section \<open>Parsing\<close>

datatype float_error = EmptyFloat | InvalidFloat

definition is_digit :: "char \<Rightarrow> bool" where
  "is_digit c \<longleftrightarrow> (let n = of_char c :: nat in 48 \<le> n \<and> n \<le> 57)"

definition digit_value :: "char \<Rightarrow> nat" where
  "digit_value c = of_char c - 48"

definition decimal_value :: "string \<Rightarrow> nat" where
  "decimal_value s = digits_value 10 0 (map digit_value s)"

text \<open>The exponent loop stops adding digits once the number has reached \<open>0x10000\<close>.\<close>
definition exponent_value :: "string \<Rightarrow> nat" where
  "exponent_value s = foldl (\<lambda>n c. if n < 0x10000 then 10 * n + digit_value c else n) 0 s"

definition parse_exponent :: "string \<Rightarrow> int option" where
  "parse_exponent s =
     (let (neg, ds) = (case s of c # cs \<Rightarrow> if c = CHR ''-'' then (True, cs)
                          else if c = CHR ''+'' then (False, cs) else (False, s) | [] \<Rightarrow> (False, s))
      in if ds = [] \<or> \<not> list_all is_digit ds then None
         else Some (if neg then - int (exponent_value ds) else int (exponent_value ds)))"

text \<open>The decimal significand and exponent of \<open>Number\<close>.\<close>
definition parse_number :: "string \<Rightarrow> (nat \<times> int) option" where
  "parse_number s =
     (let ip = takeWhile is_digit s; r = dropWhile is_digit s;
          (fp, r) = (case r of c # t \<Rightarrow> if c = CHR ''.'' then (takeWhile is_digit t, dropWhile is_digit t) else ([], r)
                     | [] \<Rightarrow> ([], r));
          m = decimal_value (ip @ fp); e = - int (length fp)
      in if ip = [] \<and> fp = [] then None
         else case r of
           [] \<Rightarrow> Some (m, e)
         | c # t \<Rightarrow> if c = CHR ''e'' \<or> c = CHR ''E''
                    then (case parse_exponent t of None \<Rightarrow> None | Some x \<Rightarrow> Some (m, e + x)) else None)"

definition lower_char :: "char \<Rightarrow> char" where
  "lower_char c = (let n = of_char c :: nat in if 65 \<le> n \<and> n \<le> 90 then char_of (n + 32) else c)"

definition infinity_f64 :: "bool \<Rightarrow> f64" where
  "infinity_f64 neg = make_f64 neg (int infinity_magnitude)"

definition parse_inf_nan :: "string \<Rightarrow> bool \<Rightarrow> f64 option" where
  "parse_inf_nan s neg =
     (let l = map lower_char s
      in if l = ''nan'' then Some (if neg then fneg quiet_nan else quiet_nan)
         else if l = ''inf'' \<or> l = ''infinity'' then Some (infinity_f64 neg) else None)"

definition decimal_f64 :: "bool \<Rightarrow> nat \<Rightarrow> int \<Rightarrow> f64" where
  "decimal_f64 neg m e = make_f64 neg (int
     (if 0 \<le> e then nearest_magnitude (m * 10 ^ nat e) 1 else nearest_magnitude m (10 ^ nat (- e))))"

definition parse_f64 :: "string \<Rightarrow> float_error + f64" where
  "parse_f64 s =
     (case s of [] \<Rightarrow> Inl EmptyFloat
      | c # cs \<Rightarrow>
          (let neg = (c = CHR ''-''); s = (if c = CHR ''-'' \<or> c = CHR ''+'' then cs else s)
           in if s = [] then Inl InvalidFloat
              else case parse_number s of
                Some (m, e) \<Rightarrow> Inr (decimal_f64 neg m e)
              | None \<Rightarrow> (case parse_inf_nan s neg of Some f \<Rightarrow> Inr f | None \<Rightarrow> Inl InvalidFloat)))"

section \<open>Printing\<close>

text \<open>A double is \<open>exact_decimal m / 10\<^bsup>1074\<^esup>\<close>; the candidates with \<open>n\<close> digits are that number cut
  after \<open>n\<close> digits and the next one above, in multiples of \<open>10\<^sup>p\<close>.\<close>
definition exact_decimal :: "nat \<Rightarrow> nat" where
  "exact_decimal m = units m * 5 ^ 1074"

definition reads_back :: "nat \<Rightarrow> nat \<Rightarrow> nat \<Rightarrow> bool" where
  "reads_back m p c \<longleftrightarrow> nearest_magnitude (c * 10 ^ p) (10 ^ 1074) = m"

definition pick_decimal :: "nat \<Rightarrow> nat \<Rightarrow> (nat \<times> nat) option" where
  "pick_decimal m p =
     (let d = exact_decimal m; lo = d div 10 ^ p; down = reads_back m p lo; up = reads_back m p (Suc lo)
      in if down \<and> \<not> (up \<and> 10 ^ p \<le> 2 * (d mod 10 ^ p)) then Some (lo, p)
         else if up then Some (Suc lo, p) else None)"

text \<open>The shortest: the first hit as the number of cut places goes down.\<close>
fun shortest_decimal :: "nat \<Rightarrow> nat \<Rightarrow> nat \<times> nat" where
  "shortest_decimal m 0 = (exact_decimal m, 0)"
| "shortest_decimal m (Suc p) =
     (case pick_decimal m (Suc p) of Some r \<Rightarrow> r | None \<Rightarrow> shortest_decimal m p)"

definition positional :: "nat \<Rightarrow> int \<Rightarrow> string" where
  "positional c q =
     (let ds = fmt_dec c; k = int (length ds) + q
      in if 0 \<le> q then ds @ replicate (nat q) (CHR ''0'')
         else if 0 < k then take (nat k) ds @ ''.'' @ drop (nat k) ds
         else ''0.'' @ replicate (nat (- k)) (CHR ''0'') @ ds)"

definition display_magnitude :: "nat \<Rightarrow> string" where
  "display_magnitude m =
     (if m = 0 then ''0''
      else let (c, p) = shortest_decimal m (length (fmt_dec (exact_decimal m)))
           in positional c (int p - 1074))"

definition display_f64 :: "f64 \<Rightarrow> string" where
  "display_f64 f =
     (if is_nan f then ''NaN''
      else (if sign_bit f then ''-'' else '''')
           @ (if is_infinite f then ''inf'' else display_magnitude (nat (magnitude f))))"

section \<open>What is printed is read back\<close>

lemma nearest_zero: "0 < den \<Longrightarrow> nearest_magnitude 0 den = 0"
  by (rule nearest_exact) (simp_all add: units_def)

lemma reads_back_exact: "m \<le> infinity_magnitude \<Longrightarrow> reads_back m 0 (exact_decimal m)"
proof -
  assume m: "m \<le> infinity_magnitude"
  have "(10 :: nat) ^ k = 5 ^ k * 2 ^ k" for k
    unfolding power_mult_distrib[symmetric] by simp
  from this[of 1074]
  have eq: "exact_decimal m * 10 ^ 0 * 2 ^ 1074 = units m * 10 ^ 1074"
    unfolding exact_decimal_def power_0 mult_1_right by (simp only: mult.assoc)
  show ?thesis
    unfolding reads_back_def by (rule nearest_exact[OF eq zero_less_power m]) simp
qed

lemma pick_reads_back: "pick_decimal m p = Some (c, p') \<Longrightarrow> reads_back m p' c"
  by (auto simp: pick_decimal_def Let_def split: if_splits)

lemma shortest_reads_back:
  "m \<le> infinity_magnitude \<Longrightarrow> shortest_decimal m n = (c, p) \<Longrightarrow> reads_back m p c"
  by (induction n) (auto simp: reads_back_exact dest: pick_reads_back split: option.splits)

lemma reads_back_pos:
  assumes "reads_back m p c" "0 < m"
  shows "0 < c"
proof (rule ccontr)
  assume "\<not> 0 < c"
  moreover have "nearest_magnitude 0 (10 ^ 1074) = 0" by (rule nearest_zero, rule zero_less_power) simp
  ultimately show False using assms unfolding reads_back_def by (simp only: not_gr_zero mult_0)
qed

lemma is_digit_char [simp]: "d < 10 \<Longrightarrow> is_digit (digit_char d)"
  by (simp add: is_digit_def digit_char_code)

lemma is_digit_zero [simp]: "is_digit (CHR ''0'')" and not_digit_point [simp]: "\<not> is_digit (CHR ''.'')"
  by (simp_all add: is_digit_def)

lemma fmt_dec_digits: "c \<in> set (fmt_dec n) \<Longrightarrow> is_digit c"
  using digits_less[of 10] by (auto simp: fmt_dec_def)

lemma digit_value_char: "d < 10 \<Longrightarrow> digit_value (digit_char d) = d"
  by (simp add: digit_value_def digit_char_code)

lemma decimal_value_fmt [simp]: "decimal_value (fmt_dec n) = n"
proof -
  have "map digit_value (map digit_char (digits 10 n)) = digits 10 n"
    using digits_less[of 10] by (auto simp: digit_value_char intro!: map_idI)
  then show ?thesis by (simp only: decimal_value_def fmt_dec_def) (simp add: digits_value_digits)
qed

lemma decimal_value_zeros [simp]:
  "decimal_value (replicate k (CHR ''0'') @ s) = decimal_value s"
  "decimal_value (s @ replicate k (CHR ''0'')) = decimal_value s * 10 ^ k"
proof -
  have z: "digit_value (CHR ''0'') = 0" by (simp add: digit_value_def)
  show "decimal_value (replicate k (CHR ''0'') @ s) = decimal_value s"
    by (simp add: decimal_value_def z digits_value_zeros)
  show "decimal_value (s @ replicate k (CHR ''0'')) = decimal_value s * 10 ^ k"
    unfolding decimal_value_def
  proof (induction k)
    case (Suc k)
    have "map digit_value (s @ replicate (Suc k) (CHR ''0'')) = map digit_value (s @ replicate k (CHR ''0'')) @ [0]"
      by (simp add: z replicate_append_same)
    then have "digits_value 10 0 (map digit_value (s @ replicate (Suc k) (CHR ''0''))) =
        digits_value 10 0 (map digit_value (s @ replicate k (CHR ''0''))) * 10"
      by (simp only: digits_value_append digits_value_simps add_0_right)
    then show ?case by (simp only: Suc power_Suc2 mult.assoc)
  qed simp
qed

lemma parse_number_point:
  assumes "ip \<noteq> []" "\<forall>c \<in> set ip. is_digit c" "\<forall>c \<in> set fp. is_digit c"
  shows "parse_number (ip @ ''.'' @ fp) = Some (decimal_value (ip @ fp), - int (length fp))"
proof -
  have "takeWhile is_digit fp = fp" "dropWhile is_digit fp = []"
    using assms(3) by simp_all
  moreover have "takeWhile is_digit (ip @ CHR ''.'' # fp) = ip" "dropWhile is_digit (ip @ CHR ''.'' # fp) = CHR ''.'' # fp"
    using assms(2) by (simp_all add: takeWhile_tail dropWhile_append)
  ultimately show ?thesis using assms(1) by (simp add: parse_number_def Let_def takeWhile_eq_all_conv[THEN iffD2, OF assms(3)]
        dropWhile_eq_Nil_conv[THEN iffD2, OF assms(3)])
qed

lemma positional_whole:
  assumes "0 \<le> q"
  shows "\<forall>d \<in> set (positional c q). is_digit d"
    "parse_number (positional c q @ ''.0'') = Some (c * 10 ^ nat q * 10, - 1)"
proof -
  have p: "positional c q = fmt_dec c @ replicate (nat q) (CHR ''0'')" using assms by (simp add: positional_def)
  show digits: "\<forall>d \<in> set (positional c q). is_digit d" by (auto simp: p fmt_dec_digits)
  have "parse_number (positional c q @ ''.'' @ ''0'') =
      Some (decimal_value (positional c q @ ''0''), - int (length ''0''))"
    by (rule parse_number_point[OF _ digits]) (simp_all add: p)
  moreover have "decimal_value (positional c q @ replicate 1 (CHR ''0'')) = c * 10 ^ nat q * 10 ^ 1"
    by (simp only: decimal_value_zeros p decimal_value_fmt)
  ultimately show "parse_number (positional c q @ ''.0'') = Some (c * 10 ^ nat q * 10, - 1)" by simp
qed

lemma positional_point:
  assumes "q < 0"
  shows "CHR ''.'' \<in> set (positional c q)" "parse_number (positional c q) = Some (c, q)"
    "is_digit (hd (positional c q))"
proof -
  let ?ds = "fmt_dec c" and ?k = "int (length (fmt_dec c)) + q"
  have ds: "\<forall>d \<in> set ?ds. is_digit d" by (simp add: fmt_dec_digits)
  have "CHR ''.'' \<in> set (positional c q) \<and> parse_number (positional c q) = Some (c, q)
      \<and> is_digit (hd (positional c q))"
  proof (cases "0 < ?k")
    case True
    then have p: "positional c q = take (nat ?k) ?ds @ ''.'' @ drop (nat ?k) ?ds"
      using assms by (simp add: positional_def Let_def)
    have "parse_number (positional c q) = Some (decimal_value (take (nat ?k) ?ds @ drop (nat ?k) ?ds),
        - int (length (drop (nat ?k) ?ds)))"
      unfolding p using True ds by (intro parse_number_point) (auto dest: in_set_takeD in_set_dropD)
    moreover have "- int (length (drop (nat ?k) ?ds)) = q" using True assms by simp
    moreover have "is_digit (hd (take (nat ?k) ?ds))" using True ds by (cases ?ds) auto
    ultimately show ?thesis using True by (simp add: p hd_append)
  next
    case False
    then have p: "positional c q = ''0'' @ ''.'' @ replicate (nat (- ?k)) (CHR ''0'') @ ?ds"
      using assms by (simp add: positional_def Let_def)
    have "parse_number (positional c q) =
        Some (decimal_value (''0'' @ replicate (nat (- ?k)) (CHR ''0'') @ ?ds),
          - int (length (replicate (nat (- ?k)) (CHR ''0'') @ ?ds)))"
      unfolding p using ds by (intro parse_number_point) auto
    moreover have "''0'' @ replicate (nat (- ?k)) (CHR ''0'') @ ?ds = replicate (Suc (nat (- ?k))) (CHR ''0'') @ ?ds"
      by simp
    moreover have "- int (length (replicate (nat (- ?k)) (CHR ''0'') @ ?ds)) = q" using False by simp
    ultimately show ?thesis by (simp only: decimal_value_zeros decimal_value_fmt) (simp add: p)
  qed
  then show "CHR ''.'' \<in> set (positional c q)" "parse_number (positional c q) = Some (c, q)"
    "is_digit (hd (positional c q))" by blast+
qed

text \<open>A decimal that reads back is rounded to its magnitude, wherever its point is.\<close>
lemma decimal_reads_back:
  assumes "reads_back m p c"
  shows "decimal_f64 neg c (int p - 1074) = make_f64 neg (int m)"
    "1074 \<le> p \<Longrightarrow> decimal_f64 neg (c * 10 ^ nat (int p - 1074) * 10) (- 1) = make_f64 neg (int m)"
proof -
  let ?n = "nearest_magnitude (c * 10 ^ p) (10 ^ 1074)"
  have pos: "(0 :: nat) < 10 ^ k" for k by simp
  have m: "?n = m" using assms by (simp only: reads_back_def)
  have whole: "nearest_magnitude (c * 10 ^ k * d) d = m" if "p = k + 1074" "0 < d" for k d
    unfolding m[symmetric] by (rule nearest_cross[OF _ that(2) pos]) (simp only: that(1) power_add ac_simps)
  show "decimal_f64 neg c (int p - 1074) = make_f64 neg (int m)"
  proof (cases "1074 \<le> p")
    case True
    then have "p = (p - 1074) + 1074" by simp
    from whole[OF this, of 1] show ?thesis using True by (simp add: decimal_f64_def nat_diff_distrib')
  next
    case False
    then have split: "p + (1074 - p) = 1074" by simp
    have eq: "nearest_magnitude c (10 ^ (1074 - p)) = m"
      unfolding m[symmetric]
    proof (rule nearest_cross[OF _ pos pos])
      show "c * 10 ^ 1074 = c * 10 ^ p * 10 ^ (1074 - p)"
        by (simp only: mult.assoc power_add[symmetric] split)
    qed
    have "nat (- (int p - 1074)) = 1074 - p" "\<not> 0 \<le> int p - 1074" using False by simp_all
    then show ?thesis by (simp only: decimal_f64_def eq if_False)
  qed
  show "decimal_f64 neg (c * 10 ^ nat (int p - 1074) * 10) (- 1) = make_f64 neg (int m)" if p: "1074 \<le> p"
  proof -
    have "p = (p - 1074) + 1074" using p by simp
    from whole[OF this, of 10] show ?thesis using p by (simp add: decimal_f64_def nat_diff_distrib')
  qed
qed

lemma make_f64_parts: "make_f64 (sign_bit f) (magnitude f) = f"
proof (cases f)
  case (F64 w)
  have "uint w = take_bit 63 (uint w) + (if bit w 63 then 2 ^ 63 else 0)"
    using take_bit_Suc_from_most[of 63 "uint w"] take_bit_int_eq_self[of "uint w" 64] uint_bounded[of w] uint_nonnegative[of w]
    by (auto simp: bit_uint_iff of_bool_def)
  then have "word_of_int (take_bit 63 (uint w) + (if bit w 63 then 2 ^ 63 else 0)) = w"
    by (metis word_of_int_uint)
  then show ?thesis
    by (auto simp: F64 make_f64_def sign_bit_def magnitude_def unsigned_take_bit_eq add.commute)
qed

end
