(* ===== verification/Text_Format.thy ===== *)
theory Text_Format
  imports Program Float_Text
begin

text \<open>
  The SST assembly text of a program: \<open>bytecode/text.rs\<close>.  One instruction per line after a
  \<open>.version\<close> directive, with \<open>;\<close> comments.  Operands are read from an iterator over the
  words of the line, which here is the list of the words that are left.
\<close>

datatype operand_error =
    BadFloat float_error
  | BadInt string int_error

datatype parse_error =
    MissingVersion
  | MissingVersionValue
  | InvalidVersion int_error
  | UnknownMnemonic nat string
  | MissingOperand nat string
  | InvalidOperand nat operand_error

section \<open>Operands\<close>

definition require_operand :: "string list \<Rightarrow> nat \<Rightarrow> string \<Rightarrow> parse_error + string \<times> string list" where
  "require_operand operands line mnemonic =
     (case operands of [] \<Rightarrow> Inl (MissingOperand line mnemonic) | s # rest \<Rightarrow> Inr (s, rest))"

text \<open>\<open>map_err\<close> to an \<open>InvalidOperand\<close> whose message names the type.\<close>
definition operand :: "string \<Rightarrow> nat \<Rightarrow> int_error + 'a \<Rightarrow> parse_error + 'a" where
  "operand type line r = (case r of Inl e \<Rightarrow> Inl (InvalidOperand line (BadInt type e)) | Inr x \<Rightarrow> Inr x)"

definition strip_hex_prefix :: "string \<Rightarrow> string option" where
  "strip_hex_prefix s = or_else (strip_prefix ''0x'' s) (strip_prefix ''0X'' s)"

definition unprefixed :: "string \<Rightarrow> string" where
  "unprefixed s = (case strip_hex_prefix s of Some r \<Rightarrow> r | None \<Rightarrow> s)"

definition parse_hex_u32 :: "string \<Rightarrow> nat \<Rightarrow> parse_error + u32" where
  "parse_hex_u32 s line = operand ''invalid hex u32'' line (parse_word 16 (unprefixed s))"

definition parse_hex_u64 :: "string \<Rightarrow> nat \<Rightarrow> parse_error + u64" where
  "parse_hex_u64 s line = operand ''invalid hex u64'' line (parse_word 16 (unprefixed s))"

definition parse_i64 :: "string \<Rightarrow> nat \<Rightarrow> parse_error + i64" where
  "parse_i64 s line = operand ''invalid i64'' line
     (case strip_hex_prefix s of Some hex \<Rightarrow> parse_word 16 hex | None \<Rightarrow> parse_signed64 s)"

definition parse_u8 :: "string \<Rightarrow> nat \<Rightarrow> parse_error + u8" where
  "parse_u8 s line = operand ''invalid u8'' line (parse_word 10 s)"

definition parse_u16 :: "string \<Rightarrow> nat \<Rightarrow> parse_error + u16" where
  "parse_u16 s line = operand ''invalid u16'' line (parse_word 10 s)"

definition parse_u32 :: "string \<Rightarrow> nat \<Rightarrow> parse_error + u32" where
  "parse_u32 s line = operand ''invalid u32'' line (parse_word 10 s)"

definition parse_version :: "string \<Rightarrow> parse_error + version" where
  "parse_version s =
     (case split_once (CHR ''.'') s of
        Some (a, b) \<Rightarrow>
          (case parse_word 10 a of Inl e \<Rightarrow> Inl (InvalidVersion e)
           | Inr x \<Rightarrow> (case parse_word 10 b of Inl e \<Rightarrow> Inl (InvalidVersion e)
                       | Inr y \<Rightarrow> Inr \<lparr>major = x, minor = y\<rparr>))
      | None \<Rightarrow>
          (case parse_word 10 s of Inl e \<Rightarrow> Inl (InvalidVersion e)
           | Inr x \<Rightarrow> Inr \<lparr>major = x, minor = 0\<rparr>))"

section \<open>Instructions\<close>

text \<open>One required operand, parsed and wrapped.\<close>
definition unary :: "string list \<Rightarrow> nat \<Rightarrow> string \<Rightarrow> (string \<Rightarrow> parse_error + 'a) \<Rightarrow> ('a \<Rightarrow> instruction)
    \<Rightarrow> parse_error + instruction" where
  "unary operands line mnemonic parse build =
     (case require_operand operands line mnemonic of Inl e \<Rightarrow> Inl e
      | Inr (val, _) \<Rightarrow> (case parse val of Inl e \<Rightarrow> Inl e | Inr x \<Rightarrow> Inr (build x)))"

definition parse_new_array :: "string list \<Rightarrow> nat \<Rightarrow> string \<Rightarrow> parse_error + instruction" where
  "parse_new_array operands line mnemonic =
     (case require_operand operands line mnemonic of Inl e \<Rightarrow> Inl e
      | Inr (type_str, operands) \<Rightarrow>
          (case parse_u8 type_str line of Inl e \<Rightarrow> Inl e
           | Inr tt \<Rightarrow>
               (case require_operand operands line ''new_array dim0'' of Inl e \<Rightarrow> Inl e
                | Inr (dim0_str, operands) \<Rightarrow>
                    (case parse_u16 dim0_str line of Inl e \<Rightarrow> Inl e
                     | Inr dim0 \<Rightarrow>
                         (case operands of
                            [] \<Rightarrow> Inr (Array (NewArray tt dim0 0))
                          | s # _ \<Rightarrow> (case parse_u16 s line of Inl e \<Rightarrow> Inl e
                              | Inr dim1 \<Rightarrow> Inr (Array (NewArray tt dim0 dim1))))))))"

definition parse_float_operand :: "string \<Rightarrow> nat \<Rightarrow> parse_error + f64" where
  "parse_float_operand s line =
     (case parse_f64 s of Inl e \<Rightarrow> Inl (InvalidOperand line (BadFloat e)) | Inr f \<Rightarrow> Inr f)"

definition parse_instruction :: "string \<Rightarrow> string list \<Rightarrow> nat \<Rightarrow> parse_error + instruction" where
  "parse_instruction mnemonic operands line =
     (
      if mnemonic = ''const_float'' then
        unary operands line mnemonic (\<lambda>s. parse_float_operand s line) (\<lambda>f. Cpu (ConstFloat f))
      else if mnemonic = ''const_int'' then
        unary operands line mnemonic (\<lambda>s. parse_i64 s line) (\<lambda>n. Cpu (ConstInt n))
      else if mnemonic = ''const_loc'' then
        unary operands line mnemonic (\<lambda>s. parse_hex_u64 s line) (\<lambda>n. LaneConst (ConstLoc n))
      else if mnemonic = ''const_lane'' then
        unary operands line mnemonic (\<lambda>s. parse_hex_u64 s line)
          (\<lambda>n. LaneConst (ConstLane (ucast n) (ucast (drop_bit 32 n))))
      else if mnemonic = ''const_zone'' then
        unary operands line mnemonic (\<lambda>s. parse_hex_u32 s line) (\<lambda>n. LaneConst (ConstZone n))
      else if mnemonic = ''pop'' then Inr (Cpu Pop)
      else if mnemonic = ''dup'' then Inr (Cpu Dup)
      else if mnemonic = ''swap'' then Inr (Cpu Swap)
      else if mnemonic = ''initial_fill'' then
        unary operands line mnemonic (\<lambda>s. parse_u32 s line) (\<lambda>n. AtomArrangement (InitialFill n))
      else if mnemonic = ''fill'' then
        unary operands line mnemonic (\<lambda>s. parse_u32 s line) (\<lambda>n. AtomArrangement (Fill n))
      else if mnemonic = ''move'' then
        unary operands line mnemonic (\<lambda>s. parse_u32 s line) (\<lambda>n. AtomArrangement (Move n))
      else if mnemonic = ''local_r'' then
        unary operands line mnemonic (\<lambda>s. parse_u32 s line) (\<lambda>n. QuantumGate (LocalR n))
      else if mnemonic = ''local_rz'' then
        unary operands line mnemonic (\<lambda>s. parse_u32 s line) (\<lambda>n. QuantumGate (LocalRz n))
      else if mnemonic = ''global_r'' then Inr (QuantumGate GlobalR)
      else if mnemonic = ''global_rz'' then Inr (QuantumGate GlobalRz)
      else if mnemonic = ''cz'' then Inr (QuantumGate CZ)
      else if mnemonic = ''measure'' then
        unary operands line mnemonic (\<lambda>s. parse_u32 s line) (\<lambda>n. Measurement (Measure n))
      else if mnemonic = ''await_measure'' then Inr (Measurement AwaitMeasure)
      else if mnemonic = ''new_array'' then parse_new_array operands line mnemonic
      else if mnemonic = ''get_item'' then
        unary operands line mnemonic (\<lambda>s. parse_u16 s line) (\<lambda>n. Array (GetItem n))
      else if mnemonic = ''set_detector'' then Inr (DetectorObservable SetDetector)
      else if mnemonic = ''set_observable'' then Inr (DetectorObservable SetObservable)
      else if mnemonic = ''return'' then Inr (Cpu Return)
      else if mnemonic = ''halt'' then Inr (Cpu Halt)
      else Inl (UnknownMnemonic line mnemonic))"

section \<open>Programs\<close>

text \<open>One pass of the loop over the lines.\<close>
definition parse_line :: "nat \<Rightarrow> string \<Rightarrow> version option \<times> instruction list
    \<Rightarrow> parse_error + version option \<times> instruction list" where
  "parse_line line_num raw_line st =
     (let line = trim (before_char (CHR '';'') raw_line) in
      if line = [] then Inr st
      else case strip_prefix ''.'' line of
        Some rest \<Rightarrow>
          (case split_whitespace rest of
             directive # parts \<Rightarrow>
               if directive = ''version'' then
                 (case parts of
                    [] \<Rightarrow> Inl MissingVersionValue
                  | val # _ \<Rightarrow> (case parse_version val of Inl e \<Rightarrow> Inl e
                      | Inr v \<Rightarrow> Inr (Some v, snd st)))
               else Inr st
           | [] \<Rightarrow> Inr st)
      | None \<Rightarrow>
          (case split_whitespace line of
             [] \<Rightarrow> Inr st
           | mnemonic # parts \<Rightarrow>
               (case parse_instruction mnemonic parts line_num of Inl e \<Rightarrow> Inl e
                | Inr i \<Rightarrow> Inr (fst st, snd st @ [i]))))"

fun parse_lines :: "nat \<Rightarrow> string list \<Rightarrow> version option \<times> instruction list
    \<Rightarrow> parse_error + version option \<times> instruction list" where
  "parse_lines line_idx [] st = Inr st"
| "parse_lines line_idx (raw_line # ls) st =
     (case parse_line (line_idx + 1) raw_line st of Inl e \<Rightarrow> Inl e
      | Inr st \<Rightarrow> parse_lines (Suc line_idx) ls st)"

definition parse :: "string \<Rightarrow> parse_error + program" where
  "parse source =
     (case parse_lines 0 (lines source) (None, []) of Inl e \<Rightarrow> Inl e
      | Inr (None, is) \<Rightarrow> Inl MissingVersion
      | Inr (Some v, is) \<Rightarrow> Inr \<lparr>version_of = v, instructions = is\<rparr>)"

section \<open>Printing\<close>

definition format_float :: "f64 \<Rightarrow> string" where
  "format_float f =
     (let s = display_f64 f
      in if CHR ''.'' \<in> set s \<or> CHR ''e'' \<in> set s \<or> CHR ''E'' \<in> set s then s else s @ ''.0'')"

definition print_instruction :: "instruction \<Rightarrow> string" where
  "print_instruction i = (case i of
     Cpu (ConstFloat f) \<Rightarrow> ''const_float '' @ format_float f
   | Cpu (ConstInt n) \<Rightarrow> ''const_int '' @ fmt_i64 n
   | Cpu Pop \<Rightarrow> ''pop''
   | Cpu Dup \<Rightarrow> ''dup''
   | Cpu Swap \<Rightarrow> ''swap''
   | Cpu Return \<Rightarrow> ''return''
   | Cpu Halt \<Rightarrow> ''halt''
   | LaneConst (ConstLoc v) \<Rightarrow> ''const_loc 0x'' @ fmt_hex 8 (unat v)
   | LaneConst (ConstLane d0 d1) \<Rightarrow>
       ''const_lane 0x'' @ fmt_hex 16 (unat (ucast d0 OR push_bit 32 (ucast d1) :: u64))
   | LaneConst (ConstZone v) \<Rightarrow> ''const_zone 0x'' @ fmt_hex 8 (unat v)
   | AtomArrangement (InitialFill n) \<Rightarrow> ''initial_fill '' @ fmt_dec (unat n)
   | AtomArrangement (Fill n) \<Rightarrow> ''fill '' @ fmt_dec (unat n)
   | AtomArrangement (Move n) \<Rightarrow> ''move '' @ fmt_dec (unat n)
   | QuantumGate (LocalR n) \<Rightarrow> ''local_r '' @ fmt_dec (unat n)
   | QuantumGate (LocalRz n) \<Rightarrow> ''local_rz '' @ fmt_dec (unat n)
   | QuantumGate GlobalR \<Rightarrow> ''global_r''
   | QuantumGate GlobalRz \<Rightarrow> ''global_rz''
   | QuantumGate CZ \<Rightarrow> ''cz''
   | Measurement (Measure n) \<Rightarrow> ''measure '' @ fmt_dec (unat n)
   | Measurement AwaitMeasure \<Rightarrow> ''await_measure''
   | Array (NewArray tt dim0 dim1) \<Rightarrow>
       ''new_array '' @ fmt_dec (unat tt) @ '' '' @ fmt_dec (unat dim0)
       @ (if dim1 = 0 then '''' else '' '' @ fmt_dec (unat dim1))
   | Array (GetItem n) \<Rightarrow> ''get_item '' @ fmt_dec (unat n)
   | DetectorObservable SetDetector \<Rightarrow> ''set_detector''
   | DetectorObservable SetObservable \<Rightarrow> ''set_observable'')"

definition print :: "program \<Rightarrow> string" where
  "print p =
     ''.version '' @ fmt_dec (unat (major (version_of p))) @ ''.'' @ fmt_dec (unat (minor (version_of p)))
     @ [newline] @ concat (map (\<lambda>i. print_instruction i @ [newline]) (instructions p))"

section \<open>Printed floats are read back\<close>

text \<open>The magnitude as it is printed, with a point.\<close>
definition pointed :: "string \<Rightarrow> string" where
  "pointed s = (if CHR ''.'' \<in> set s then s else s @ ''.0'')"

definition numeral_char :: "char \<Rightarrow> bool" where
  "numeral_char c \<longleftrightarrow> is_digit c \<or> c = CHR ''.''"

lemma not_digit_chars [simp]:
  "\<not> is_digit (CHR ''e'')" "\<not> is_digit (CHR ''E'')" "\<not> is_digit (CHR ''-'')" "\<not> is_digit (CHR ''+'')"
  by (simp_all add: is_digit_def)

lemma positional_chars: "d \<in> set (positional c q) \<Longrightarrow> numeral_char d"
  using fmt_dec_digits by (auto simp: positional_def numeral_char_def Let_def split: if_splits
      dest: in_set_takeD in_set_dropD)

lemma positional_pointed:
  assumes "reads_back m p c"
  shows "\<exists>x e. parse_number (pointed (positional c (int p - 1074))) = Some (x, e)
     \<and> decimal_f64 neg x e = make_f64 neg (int m) \<and> is_digit (hd (pointed (positional c (int p - 1074))))"
proof (cases "1074 \<le> p")
  case True
  let ?s = "positional c (int p - 1074)"
  have q: "0 \<le> int p - 1074" using True by simp
  have digits: "\<forall>d \<in> set ?s. is_digit d" by (rule positional_whole(1)[OF q])
  have "?s \<noteq> []" using q by (simp add: positional_def)
  then have "is_digit (hd (pointed ?s))" using digits by (cases ?s) (auto simp: pointed_def)
  moreover have "pointed ?s = ?s @ ''.0''" using digits by (auto simp: pointed_def)
  ultimately show ?thesis
    using positional_whole(2)[OF q, of c] decimal_reads_back(2)[OF assms True, of neg] by auto
next
  case False
  then have q: "int p - 1074 < 0" by simp
  show ?thesis
    using positional_point[OF q, of c] decimal_reads_back(1)[OF assms, of neg] by (simp add: pointed_def)
qed

lemma finite_magnitude: "is_finite f \<Longrightarrow> nat (magnitude f) \<le> infinity_magnitude \<and> int (nat (magnitude f)) = magnitude f"
  using exponent_bounds[of f] fraction_bounds[of f] magnitude_bounds[of f] exponent_fraction[of f]
  by (auto simp: is_finite_def infinity_magnitude_def)

lemma magnitude_reads_back:
  assumes "m \<le> infinity_magnitude"
  shows "\<exists>x e. parse_number (pointed (display_magnitude m)) = Some (x, e)
     \<and> decimal_f64 neg x e = make_f64 neg (int m) \<and> is_digit (hd (pointed (display_magnitude m)))"
proof (cases "m = 0")
  case True
  have "parse_number (pointed ''0'') = Some (0, - 1)" by code_simp
  moreover have "nearest_magnitude 0 10 = 0" by (rule nearest_zero) simp
  ultimately show ?thesis by (simp add: True display_magnitude_def decimal_f64_def pointed_def)
next
  case False
  let ?n = "length (fmt_dec (exact_decimal m))"
  obtain c p where cp: "shortest_decimal m ?n = (c, p)" by force
  have "display_magnitude m = positional c (int p - 1074)"
    using False cp by (simp add: display_magnitude_def)
  then show ?thesis using positional_pointed[OF shortest_reads_back[OF assms cp], of neg] by simp
qed

lemma display_chars: "d \<in> set (display_magnitude m) \<Longrightarrow> numeral_char d"
  by (auto simp: display_magnitude_def numeral_char_def split: if_splits prod.splits)
    (auto dest!: positional_chars simp: numeral_char_def)

lemma format_finite:
  assumes "is_finite f"
  shows "format_float f = (if sign_bit f then ''-'' else '''') @ pointed (display_magnitude (nat (magnitude f)))"
proof -
  have "\<not> is_nan f" "\<not> is_infinite f" using assms by (auto simp: is_finite_def is_nan_def is_infinite_def)
  moreover have "CHR ''e'' \<notin> set (display_magnitude m)" "CHR ''E'' \<notin> set (display_magnitude m)" for m
    using display_chars[of "CHR ''e''" m] display_chars[of "CHR ''E''" m] by (auto simp: numeral_char_def)
  ultimately show ?thesis by (simp add: format_float_def display_f64_def pointed_def Let_def)
qed

lemma parse_format_finite:
  assumes "is_finite f"
  shows "parse_f64 (format_float f) = Inr f"
proof -
  let ?s = "pointed (display_magnitude (nat (magnitude f)))"
  obtain x e where num: "parse_number ?s = Some (x, e)"
    and dec: "decimal_f64 (sign_bit f) x e = make_f64 (sign_bit f) (magnitude f)" and hd: "is_digit (hd ?s)"
    using magnitude_reads_back[of "nat (magnitude f)" "sign_bit f"] finite_magnitude[OF assms] by auto
  have ne: "?s \<noteq> []" by (auto simp: pointed_def)
  then obtain c cs where s: "?s = c # cs" by (meson list.exhaust)
  then have "c \<noteq> CHR ''-''" "c \<noteq> CHR ''+''" using hd by auto
  then have "parse_f64 ((if sign_bit f then ''-'' else '''') @ ?s) = Inr (decimal_f64 (sign_bit f) x e)"
    using num by (simp add: parse_f64_def s)
  then show ?thesis by (simp add: format_finite[OF assms] dec make_f64_parts)
qed

lemma parse_format_not_finite:
  assumes "\<not> is_finite f"
  shows "parse_f64 (format_float f) = Inl InvalidFloat"
proof -
  have "is_nan f \<or> is_infinite f" using assms by (auto simp: is_finite_def is_nan_def is_infinite_def)
  then have "format_float f \<in> {''NaN.0'', ''inf.0'', ''-inf.0''}"
    by (auto simp: format_float_def display_f64_def Let_def)
  moreover have "parse_f64 ''NaN.0'' = Inl InvalidFloat" "parse_f64 ''inf.0'' = Inl InvalidFloat"
    "parse_f64 ''-inf.0'' = Inl InvalidFloat" by code_simp+
  ultimately show ?thesis by auto
qed

text \<open>A trimmed line that is not empty has a first word: the \<open>unwrap\<close> in \<open>parse\<close> never
  panics, and the empty case of \<open>parse_line\<close> is never taken.\<close>
lemma split_from_nonempty: "cur \<noteq> [] \<or> (\<exists>c \<in> set s. \<not> is_whitespace c) \<Longrightarrow> split_whitespace_from cur s \<noteq> []"
  by (induction s arbitrary: cur) auto

lemma trimmed_has_word:
  assumes "trim s \<noteq> []"
  shows "split_whitespace (trim s) \<noteq> []"
proof -
  let ?r = "dropWhile is_whitespace (rev (dropWhile is_whitespace s))"
  have "?r \<noteq> []" using assms unfolding trim_def by blast
  then have "\<not> is_whitespace (hd ?r)" "hd ?r \<in> set ?r" by (rule hd_dropWhile, rule hd_in_set)
  then have "\<exists>c \<in> set (trim s). \<not> is_whitespace c" unfolding trim_def set_rev by blast
  then show ?thesis by (simp add: split_whitespace_def split_from_nonempty)
qed

section \<open>Lines of words\<close>

definition float_ok :: "instruction \<Rightarrow> bool" where
  "float_ok i \<longleftrightarrow> (case i of Cpu (ConstFloat f) \<Rightarrow> is_finite f | _ \<Rightarrow> True)"

lemma digit_token: "is_digit c \<Longrightarrow> \<not> is_whitespace c \<and> c \<noteq> CHR '';''"
  by (auto simp: is_digit_def is_whitespace_def Let_def)

lemma pointed_chars: "d \<in> set (pointed (display_magnitude m)) \<Longrightarrow> numeral_char d"
  using display_chars[of d m] by (auto simp: pointed_def numeral_char_def split: if_splits)

lemma token_format: "token (format_float f)"
proof (cases "is_finite f")
  case True
  have "\<not> is_whitespace d \<and> d \<noteq> CHR '';''" if "numeral_char d" for d
    using that digit_token by (auto simp: numeral_char_def is_whitespace_def)
  moreover have "pointed (display_magnitude m) \<noteq> []" for m by (auto simp: pointed_def)
  ultimately show ?thesis
    using pointed_chars by (auto simp: format_finite[OF True] token_def is_whitespace_def)
next
  case False
  then have "is_nan f \<or> is_infinite f" by (auto simp: is_finite_def is_nan_def is_infinite_def)
  then have "format_float f \<in> {''NaN.0'', ''inf.0'', ''-inf.0''}"
    by (auto simp: format_float_def display_f64_def Let_def)
  moreover have "token ''NaN.0''" "token ''inf.0''" "token ''-inf.0''" by code_simp+
  ultimately show ?thesis by auto
qed

lemma token_dec [simp]: "token (fmt_dec n)" and token_hex [simp]: "token (fmt_hex k n)"
  using fmt_dec_alnum fmt_hex_alnum alnum_token by (auto simp: token_def)

lemma token_prefix: "token s \<Longrightarrow> token t \<Longrightarrow> token (s @ t)"
  by (auto simp: token_def)

lemma token_0x [simp]: "token (CHR ''0'' # CHR ''x'' # fmt_hex k n)"
proof -
  have "token ''0x''" by code_simp
  from token_prefix[OF this token_hex] show ?thesis by simp
qed

lemma token_i64 [simp]: "token (fmt_i64 n)"
proof -
  have "token ''-''" by code_simp
  from token_prefix[OF this token_dec] show ?thesis by (simp add: fmt_i64_def)
qed

lemma no_hex_prefix [simp]: "strip_hex_prefix (fmt_i64 n) = None"
proof -
  have "CHR ''x'' \<notin> set (fmt_i64 n)" "CHR ''X'' \<notin> set (fmt_i64 n)"
    using fmt_dec_digits[of "CHR ''x''"] fmt_dec_digits[of "CHR ''X''"] by (auto simp: fmt_i64_def is_digit_def)
  then have "strip_prefix ''0x'' (fmt_i64 n) = None" "strip_prefix ''0X'' (fmt_i64 n) = None"
    by (cases "strip_prefix ''0x'' (fmt_i64 n)"; cases "strip_prefix ''0X'' (fmt_i64 n)";
        auto dest!: strip_prefix_SomeD)+
  then show ?thesis by (simp add: strip_hex_prefix_def)
qed

text \<open>A mnemonic and its operands, as the printer lays them out.\<close>
definition printed_words :: "instruction \<Rightarrow> string list" where
  "printed_words i = (case i of
     Cpu (ConstFloat f) \<Rightarrow> [''const_float'', format_float f]
   | Cpu (ConstInt n) \<Rightarrow> [''const_int'', fmt_i64 n]
   | Cpu Pop \<Rightarrow> [''pop'']
   | Cpu Dup \<Rightarrow> [''dup'']
   | Cpu Swap \<Rightarrow> [''swap'']
   | Cpu Return \<Rightarrow> [''return'']
   | Cpu Halt \<Rightarrow> [''halt'']
   | LaneConst (ConstLoc v) \<Rightarrow> [''const_loc'', ''0x'' @ fmt_hex 8 (unat v)]
   | LaneConst (ConstLane d0 d1) \<Rightarrow>
       [''const_lane'', ''0x'' @ fmt_hex 16 (unat (ucast d0 OR push_bit 32 (ucast d1) :: u64))]
   | LaneConst (ConstZone v) \<Rightarrow> [''const_zone'', ''0x'' @ fmt_hex 8 (unat v)]
   | AtomArrangement (InitialFill n) \<Rightarrow> [''initial_fill'', fmt_dec (unat n)]
   | AtomArrangement (Fill n) \<Rightarrow> [''fill'', fmt_dec (unat n)]
   | AtomArrangement (Move n) \<Rightarrow> [''move'', fmt_dec (unat n)]
   | QuantumGate (LocalR n) \<Rightarrow> [''local_r'', fmt_dec (unat n)]
   | QuantumGate (LocalRz n) \<Rightarrow> [''local_rz'', fmt_dec (unat n)]
   | QuantumGate GlobalR \<Rightarrow> [''global_r'']
   | QuantumGate GlobalRz \<Rightarrow> [''global_rz'']
   | QuantumGate CZ \<Rightarrow> [''cz'']
   | Measurement (Measure n) \<Rightarrow> [''measure'', fmt_dec (unat n)]
   | Measurement AwaitMeasure \<Rightarrow> [''await_measure'']
   | Array (NewArray tt dim0 dim1) \<Rightarrow>
       [''new_array'', fmt_dec (unat tt), fmt_dec (unat dim0)] @ (if dim1 = 0 then [] else [fmt_dec (unat dim1)])
   | Array (GetItem n) \<Rightarrow> [''get_item'', fmt_dec (unat n)]
   | DetectorObservable SetDetector \<Rightarrow> [''set_detector'']
   | DetectorObservable SetObservable \<Rightarrow> [''set_observable''])"

lemma print_printed: "print_instruction i = unwords (printed_words i)"
  by (cases i; rename_tac c; case_tac c) (simp_all add: print_instruction_def printed_words_def)

lemma mnemonic_token [simp]: "list_all (\<lambda>s. token s) [''const_float'', ''const_int'', ''pop'', ''dup'', ''swap'',
    ''return'', ''halt'', ''const_loc'', ''const_lane'', ''const_zone'', ''initial_fill'', ''fill'', ''move'',
    ''local_r'', ''local_rz'', ''global_r'', ''global_rz'', ''cz'', ''measure'', ''await_measure'', ''new_array'',
    ''get_item'', ''set_detector'', ''set_observable'']"
  by code_simp

lemma printed_tokens: "\<forall>t \<in> set (printed_words i). token t"
  using mnemonic_token by (cases i; rename_tac c; case_tac c) (simp_all add: printed_words_def token_format del: mnemonic_token)

lemma strip_hex_word: "strip_hex_prefix (CHR ''0'' # CHR ''x'' # s) = Some s"
  by (simp add: strip_hex_prefix_def)

lemma parse_printed:
  "parse_instruction (hd (printed_words i)) (tl (printed_words i)) line =
     (if float_ok i then Inr i else Inl (InvalidOperand line (BadFloat InvalidFloat)))"
  by (cases i; rename_tac c; case_tac c)
    (simp_all add: printed_words_def parse_instruction_def unary_def require_operand_def float_ok_def
      parse_float_operand_def parse_format_finite parse_format_not_finite operand_def parse_i64_def
      parse_hex_u64_def parse_hex_u32_def unprefixed_def strip_hex_word parse_u32_def parse_u16_def
      parse_u8_def parse_new_array_def del: drop_bit_or)
section \<open>Whole programs\<close>

lemma printed_head: "printed_words i \<noteq> []" "hd (hd (printed_words i)) \<noteq> CHR ''.''"
  by (cases i; rename_tac c; case_tac c; simp add: printed_words_def)+

lemma printed_line:
  "before_char (CHR '';'') (print_instruction i) = print_instruction i"
  "trim (print_instruction i) = print_instruction i" "print_instruction i \<noteq> []"
  "split_whitespace (print_instruction i) = printed_words i" "strip_prefix ''.'' (print_instruction i) = None"
proof -
  note tok = printed_tokens[of i] and ne = printed_head(1)[of i]
  show "before_char (CHR '';'') (print_instruction i) = print_instruction i"
    using unwords_clean(3)[OF tok] by (simp add: print_printed before_char_id)
  show "trim (print_instruction i) = print_instruction i" by (simp add: print_printed trim_unwords[OF ne tok])
  show nonempty: "print_instruction i \<noteq> []" using unwords_ends(1)[OF ne tok] by (simp add: print_printed)
  show "split_whitespace (print_instruction i) = printed_words i"
    by (simp add: print_printed split_whitespace_unwords[OF tok])
  have "hd (print_instruction i) \<noteq> CHR ''.''"
    using unwords_ends(2)[OF ne tok] printed_head(2)[of i] by (simp add: print_printed)
  then show "strip_prefix ''.'' (print_instruction i) = None"
    using nonempty by (cases "print_instruction i") auto
qed

lemma parse_line_printed:
  "parse_line n (print_instruction i) st =
     (if float_ok i then Inr (fst st, snd st @ [i]) else Inl (InvalidOperand n (BadFloat InvalidFloat)))"
  using printed_head(1)[of i] parse_printed[of i n]
  by (cases "printed_words i") (simp_all add: parse_line_def printed_line)

lemma parse_lines_printed:
  "parse_lines n (map print_instruction is) st =
     (case position (\<lambda>i. \<not> float_ok i) is of
        None \<Rightarrow> Inr (fst st, snd st @ is)
      | Some k \<Rightarrow> Inl (InvalidOperand (n + k + 1) (BadFloat InvalidFloat)))"
proof (induction "is" arbitrary: n st)
  case (Cons i "is")
  show ?case by (cases "position (\<lambda>i. \<not> float_ok i) is") (simp_all add: parse_line_printed Cons.IH del: position_None_iff)
qed simp

lemma lines_printed: "lines (concat (map (\<lambda>i. print_instruction i @ [newline]) is)) = map print_instruction is"
proof (induction "is")
  case (Cons i "is")
  have "newline \<notin> set (print_instruction i)" "char_of (13 :: nat) \<notin> set (print_instruction i)"
    using unwords_clean[OF printed_tokens[of i]] by (simp_all add: print_printed)
  then show ?case using Cons by (simp add: lines_line)
qed simp

lemma parse_version_display: "parse_version (version_display v) = Inr v"
  by (simp add: parse_version_def)

lemma version_token: "token (version_display v)"
  using token_prefix[OF token_prefix[OF token_dec, of "''.''"] token_dec]
  by (simp add: version_display_def token_def is_whitespace_def)

definition version_line :: "version \<Rightarrow> string" where
  "version_line v = unwords [''.version'', version_display v]"

lemma version_words: "\<forall>t \<in> set [''.version'', version_display v]. token t"
proof -
  have "token ''.version''" by code_simp
  then show ?thesis by (simp add: version_token)
qed

lemma parse_version_line: "parse_line n (version_line v) st = Inr (Some v, snd st)"
proof -
  let ?ws = "[''.version'', version_display v]"
  note tok = version_words[of v]
  have rest: "split_whitespace (''version '' @ version_display v) = [''version'', version_display v]"
    using split_whitespace_unwords[of "[''version'', version_display v]"] version_token[of v]
    by (simp add: token_def is_whitespace_def)
  have "before_char (CHR '';'') (version_line v) = version_line v"
    using unwords_clean(3)[OF tok] by (simp add: version_line_def before_char_id)
  moreover have "trim (version_line v) = version_line v"
    unfolding version_line_def by (rule trim_unwords) (use tok in auto)
  ultimately show ?thesis
    using rest by (simp add: parse_line_def version_line_def parse_version_display)
qed

lemma print_lines: "lines (print p) = version_line (version_of p) # map print_instruction (instructions p)"
proof -
  have "print p = version_line (version_of p) @ newline # concat (map (\<lambda>i. print_instruction i @ [newline]) (instructions p))"
    by (simp add: print_def version_line_def version_display_def)
  moreover have "newline \<notin> set (version_line v)" "char_of (13 :: nat) \<notin> set (version_line v)" for v
    unfolding version_line_def by (rule unwords_clean[OF version_words])+
  ultimately show ?thesis by (simp add: lines_line lines_printed)
qed

section \<open>Properties\<close>

text \<open>C40. Printing a program and parsing the text gives the program back, unless some float constant
  is not finite: infinities and NaN are printed as \<open>inf.0\<close> and \<open>NaN.0\<close>, and the parser then
  rejects the line of the first of them.  Every finite double survives exactly.\<close>
theorem print_parse_roundtrip:
  "parse (print p) =
     (case position (\<lambda>i. \<not> float_ok i) (instructions p) of
        None \<Rightarrow> Inr p
      | Some k \<Rightarrow> Inl (InvalidOperand (k + 2) (BadFloat InvalidFloat)))"
  by (cases p) (simp add: parse_def print_lines parse_version_line parse_lines_printed del: position_None_iff split: option.split)

end
