(* ===== verification/Rust_Map.thy ===== *)
theory Rust_Map
  imports Prelude "HOL-Library.Multiset"
begin

text \<open>
  Hash maps whose values are vectors, filled with \<open>map.entry(key).or_default().push(x)\<close>, and the
  order in which a hash map is traversed.  That order is not specified by the language: it is a
  parameter of the model, a function that rearranges the entries in whatever way the hasher of the
  run would, and \<open>rearranges\<close> is all that is assumed of it.
\<close>

definition rearranges :: "('a list \<Rightarrow> 'a list) \<Rightarrow> bool" where
  "rearranges order \<longleftrightarrow> (\<forall>xs. mset (order xs) = mset xs)"

lemma rearranges_mset: "rearranges order \<Longrightarrow> mset (order xs) = mset xs"
  by (simp add: rearranges_def)

lemma rearranges_set: "rearranges order \<Longrightarrow> set (order xs) = set xs"
  using mset_eq_setD rearranges_mset by blast

lemma rearranges_length: "rearranges order \<Longrightarrow> length (order xs) = length xs"
  using mset_eq_length rearranges_mset by blast

lemma rearranges_distinct: "rearranges order \<Longrightarrow> distinct (order xs) \<longleftrightarrow> distinct xs"
  using mset_eq_imp_distinct_iff rearranges_mset by blast

lemma rearranges_rev [simp]: "rearranges rev"
  by (simp add: rearranges_def)

lemma rearranges_id [simp]: "rearranges (\<lambda>xs. xs)"
  by (simp add: rearranges_def)

text \<open>The entries of a table in the order of their first insertion.\<close>
fun push_at :: "'k \<Rightarrow> 'v \<Rightarrow> ('k \<times> 'v list) list \<Rightarrow> ('k \<times> 'v list) list" where
  "push_at k x [] = [(k, [x])]"
| "push_at k x ((k', vs) # m) = (if k' = k then (k', vs @ [x]) # m else (k', vs) # push_at k x m)"

definition push_map :: "'k \<Rightarrow> 'v \<Rightarrow> ('k \<rightharpoonup> 'v list) \<Rightarrow> ('k \<rightharpoonup> 'v list)" where
  "push_map k x m = m(k \<mapsto> (case m k of None \<Rightarrow> [] | Some vs \<Rightarrow> vs) @ [x])"

definition entry_list :: "'v list \<Rightarrow> 'v list option" where
  "entry_list vs = (if vs = [] then None else Some vs)"

lemma entry_list_simps [simp]: "entry_list [] = None" "entry_list (v # vs) = Some (v # vs)"
  "entry_list (vs @ [v]) = Some (vs @ [v])"
  by (simp_all add: entry_list_def)

lemma entry_list_Some_iff [simp]: "entry_list vs = Some ws \<longleftrightarrow> vs = ws \<and> vs \<noteq> []"
  by (auto simp: entry_list_def)

lemma map_of_push_at: "map_of (push_at k x m) = push_map k x (map_of m)"
  by (induction m rule: push_at.induct) (auto simp: push_map_def fun_eq_iff)

lemma keys_push_at: "fst ` set (push_at k x m) = insert k (fst ` set m)"
  by (induction k x m rule: push_at.induct) auto

lemma distinct_push_at: "distinct (map fst m) \<Longrightarrow> distinct (map fst (push_at k x m))"
  by (induction k x m rule: push_at.induct) (simp_all add: keys_push_at, blast)

text \<open>A table filled from a list answers a key with the elements that were pushed under it.\<close>
lemma fold_push_map:
  "foldl (\<lambda>m x. push_map (key x) (val x) m) Map.empty xs k = entry_list (map val (filter (\<lambda>x. key x = k) xs))"
proof (induction xs rule: rev_induct)
  case (snoc x xs)
  then show ?case by (auto simp: push_map_def entry_list_def)
qed simp

lemma map_of_rearranged:
  assumes "rearranges order" "distinct (map fst m)"
  shows "map_of (order m) = map_of m"
proof -
  have "mset (map fst (order m)) = mset (map fst m)"
    using rearranges_mset[OF assms(1), of m] by simp
  then have "distinct (map fst (order m))" using assms(2) mset_eq_imp_distinct_iff by blast
  then show ?thesis using assms rearranges_set[OF assms(1), of m] by (metis map_of_inject_set)
qed

end
