(* ===== verification/Float_Mul.thy ===== *)
theory Float_Mul
  imports Float64
begin

text \<open>
  Multiplication of \<open>f64\<close> with rounding to nearest even, and the cast of an unsigned integer to
  \<open>f64\<close>.  A product of significands is exact; it is rounded once, to the spacing of the doubles
  at its size or to the spacing of the subnormal numbers.
\<close>

text \<open>The magnitude bits of the double nearest to \<open>m * 2\<^sup>k\<close> units of \<open>2\<^bsup>-1074\<^esup>\<close>, where \<open>k\<close> may be negative.\<close>
definition round_scaled :: "int \<Rightarrow> int \<Rightarrow> int" where
  "round_scaled m k =
     (if m = 0 then 0
      else if 0 \<le> k then round_magnitude m (nat k)
      else let d = nat (- k); l = bitlen m
           in if l \<le> 53 + d then round_shift m d
              else min (2047 * 2 ^ 52) (round_shift m (l - 53) + int (l - 53 - d) * 2 ^ 52))"

definition fmul :: "f64 \<Rightarrow> f64 \<Rightarrow> f64" where
  "fmul a b =
     (let s = (sign_bit a \<noteq> sign_bit b)
      in if is_nan a \<or> is_nan b then quiet_nan
         else if is_infinite a \<or> is_infinite b
         then (if significand a = 0 \<or> significand b = 0 then quiet_nan else make_f64 s (2047 * 2 ^ 52))
         else make_f64 s (round_scaled (significand a * significand b) (int (scale a) + int (scale b) - 1074)))"

text \<open>\<open>n as f64\<close>.\<close>
definition f64_of_nat :: "nat \<Rightarrow> f64" where
  "f64_of_nat n = make_f64 False (round_scaled (int n) 1074)"

text \<open>0.1 times 3 is 0.30000000000000004; the least subnormal times one half is zero, times three
  quarters itself; and a product of large doubles is infinite.\<close>
lemma fmul_tenth_three: "fmul (F64 0x3FB999999999999A) (F64 0x4008000000000000) = F64 0x3FD3333333333334"
  by code_simp

lemma fmul_least_half: "fmul (F64 1) (F64 0x3FE0000000000000) = pos_zero"
  by code_simp

lemma fmul_least_three_quarters: "fmul (F64 1) (F64 0xBFE8000000000000) = F64 0x8000000000000001"
  by code_simp

lemma fmul_overflow: "fmul (F64 0x7FE0000000000000) (F64 0xC000000000000000) = F64 0xFFF0000000000000"
  by code_simp

lemma f64_of_zero: "f64_of_nat 0 = pos_zero"
  by code_simp

lemma fmul_zero_large: "fmul pos_zero (F64 0xFFE0000000000000) = neg_zero"
  by code_simp

lemma f64_of_three: "f64_of_nat 3 = F64 0x4008000000000000"
  by code_simp

end
