(* ===== verification/Float_Div.thy ===== *)
theory Float_Div
  imports Float_Mul
begin

text \<open>
  Division and square root of \<open>f64\<close>, correctly rounded as IEEE 754 asks.  Both compute a quotient
  or a root with more than 56 significant bits, append one bit that says whether anything was cut
  off, and round once.
\<close>

definition with_sticky :: "int \<Rightarrow> bool \<Rightarrow> int" where
  "with_sticky q exact = 2 * q + (if exact then 0 else 1)"

definition fdiv :: "f64 \<Rightarrow> f64 \<Rightarrow> f64" where
  "fdiv a b =
     (let s = (sign_bit a \<noteq> sign_bit b)
      in if is_nan a \<or> is_nan b then quiet_nan
         else if is_infinite a then (if is_infinite b then quiet_nan else make_f64 s (2047 * 2 ^ 52))
         else if is_infinite b then make_f64 s 0
         else if significand b = 0
         then (if significand a = 0 then quiet_nan else make_f64 s (2047 * 2 ^ 52))
         else let m = significand a * 2 ^ 120; q = m div significand b
              in make_f64 s (round_scaled (with_sticky q (q * significand b = m))
                   (int (scale a) - int (scale b) + 1074 - 121)))"

text \<open>The integer square root, two bits at a time.\<close>
fun isqrt :: "int \<Rightarrow> int" where
  "isqrt n = (if n \<le> 0 then 0 else let r = 2 * isqrt (n div 4) in if (r + 1) * (r + 1) \<le> n then r + 1 else r)"

declare isqrt.simps [simp del]

lemma isqrt_spec: "0 \<le> n \<Longrightarrow> 0 \<le> isqrt n \<and> isqrt n * isqrt n \<le> n \<and> n < (isqrt n + 1) * (isqrt n + 1)"
proof (induction n rule: isqrt.induct)
  case (1 n)
  show ?case
  proof (cases "n \<le> 0")
    case True
    then show ?thesis using 1(2) by (simp add: isqrt.simps)
  next
    case False
    define s where "s = isqrt (n div 4)"
    have IH: "0 \<le> s" "s * s \<le> n div 4" "n div 4 < (s + 1) * (s + 1)"
      using 1(1)[OF False] 1(2) by (auto simp: s_def)
    have e: "4 * ((s + 1) * (s + 1)) = (2 * s + 1 + 1) * (2 * s + 1 + 1)" "4 * (s * s) = 2 * s * (2 * s)"
      by (simp_all add: algebra_simps)
    have r: "n < (2 * s + 1 + 1) * (2 * s + 1 + 1)" "2 * s * (2 * s) \<le> n"
      unfolding e[symmetric] using IH(2,3) by linarith+
    have "isqrt n = (if (2 * s + 1) * (2 * s + 1) \<le> n then 2 * s + 1 else 2 * s)"
      using False by (simp only: isqrt.simps[of n] s_def Let_def if_False)
    moreover have "0 \<le> 2 * s + 1" "0 \<le> 2 * s" using IH(1) by simp_all
    ultimately show ?thesis using r by (metis not_le)
  qed
qed

definition fsqrt :: "f64 \<Rightarrow> f64" where
  "fsqrt a =
     (if is_nan a then quiet_nan
      else if significand a = 0 then a
      else if sign_bit a then quiet_nan
      else if is_infinite a then a
      else let shift = (if even (scale a) then 120 else 121);
               m = significand a * 2 ^ shift; r = isqrt m
           in make_f64 False (round_scaled (with_sticky r (r * r = m))
                ((int (scale a) - 1074 - int shift) div 2 - 1 + 1074)))"

definition fabs :: "f64 \<Rightarrow> f64" where
  "fabs a = F64 (to_bits a AND 0x7FFFFFFFFFFFFFFF)"

text \<open>One third, the square root of two, of a subnormal number, and a division by zero.\<close>
lemma fdiv_third: "fdiv (F64 0x3FF0000000000000) (F64 0x4008000000000000) = F64 0x3FD5555555555555"
  by code_simp

lemma fdiv_zero: "fdiv (F64 0xBFF0000000000000) pos_zero = F64 0xFFF0000000000000"
  by code_simp

lemma fsqrt_two: "fsqrt (F64 0x4000000000000000) = F64 0x3FF6A09E667F3BCD"
  by code_simp

lemma fsqrt_least: "fsqrt (F64 1) = F64 0x1E60000000000000"
  by code_simp

end
