(* ===== verification/Rust_Seq.thy ===== *)
theory Rust_Seq
  imports Prelude "HOL-Library.Multiset"
begin

text \<open>
  Slices and collections of the standard library that the search crate uses:
  \<open>binary_search_by_key\<close> with the loop of the library, and the laws that sorted vectors of
  entries with distinct keys give it.  \<open>sort_unstable_by_key\<close> is \<open>sort_key\<close>: the entries
  it may reorder have equal keys, and the callers reject those.
\<close>

section \<open>Binary search\<close>

function search_base :: "('a \<Rightarrow> 'k::linorder) \<Rightarrow> 'a list \<Rightarrow> 'k \<Rightarrow> nat \<Rightarrow> nat \<Rightarrow> nat" where
  "search_base key xs k base sz =
     (if sz \<le> 1 then base
      else let half = sz div 2; mid = base + half
           in search_base key xs k (if k < key (xs ! mid) then base else mid) (sz - half))"
  by pat_completeness auto
termination by (relation "measure (\<lambda>(key, xs, k, base, sz). sz)") auto

declare search_base.simps [simp del]

text \<open>\<open>xs.binary_search_by_key(&k, key).ok()\<close>.\<close>
definition binary_search :: "('a \<Rightarrow> 'k::linorder) \<Rightarrow> 'a list \<Rightarrow> 'k \<Rightarrow> nat option" where
  "binary_search key xs k =
     (if xs = [] then None
      else let i = search_base key xs k 0 (length xs) in if key (xs ! i) = k then Some i else None)"

text \<open>The loop ends at the last index whose key is not above the one searched for.\<close>
lemma search_base_spec:
  "sorted (map key xs) \<Longrightarrow> 0 < sz \<Longrightarrow> base + sz \<le> length xs \<Longrightarrow>
   (\<forall>j < length xs. base + sz \<le> j \<longrightarrow> k < key (xs ! j)) \<Longrightarrow>
   search_base key xs k base sz < length xs
   \<and> (\<forall>j < length xs. search_base key xs k base sz < j \<longrightarrow> k < key (xs ! j))
   \<and> (search_base key xs k base sz = base \<or> key (xs ! search_base key xs k base sz) \<le> k)"
proof (induction key xs k base sz rule: search_base.induct)
  case (1 key xs k base sz)
  show ?case
  proof (cases "sz \<le> 1")
    case True
    then have "sz = 1" using "1.prems" by simp
    then show ?thesis using "1.prems" by (simp add: search_base.simps[of key xs k base "Suc 0"])
  next
    case False
    let ?half = "sz div 2"
    let ?mid = "base + ?half"
    let ?base = "if k < key (xs ! ?mid) then base else ?mid"
    have step: "search_base key xs k base sz = search_base key xs k ?base (sz - ?half)"
      using False by (subst search_base.simps) (simp add: Let_def)
    have mono: "key (xs ! ?mid) \<le> key (xs ! j)" if "?mid \<le> j" "j < length xs" for j
      using "1.prems"(1) that by (simp add: sorted_iff_nth_mono)
    have "\<forall>j < length xs. ?base + (sz - ?half) \<le> j \<longrightarrow> k < key (xs ! j)"
    proof (intro allI impI)
      fix j assume j: "j < length xs" "?base + (sz - ?half) \<le> j"
      show "k < key (xs ! j)"
      proof (cases "k < key (xs ! ?mid)")
        case True
        then have "?mid \<le> j" using j(2) by simp
        with True mono[OF _ j(1)] show ?thesis by fastforce
      next
        case f: False
        then show ?thesis using j "1.prems"(4) False by simp
      qed
    qed
    moreover have "?base + (sz - ?half) \<le> length xs" "0 < sz - ?half" using "1.prems" False by auto
    ultimately have "search_base key xs k ?base (sz - ?half) < length xs
      \<and> (\<forall>j < length xs. search_base key xs k ?base (sz - ?half) < j \<longrightarrow> k < key (xs ! j))
      \<and> (search_base key xs k ?base (sz - ?half) = ?base \<or> key (xs ! search_base key xs k ?base (sz - ?half)) \<le> k)"
      using "1.IH"[OF False refl refl "1.prems"(1)] by blast
    then show ?thesis unfolding step by (auto split: if_splits)
  qed
qed

lemma binary_search_Some_iff:
  assumes "sorted (map key xs)" "distinct (map key xs)"
  shows "binary_search key xs k = Some i \<longleftrightarrow> i < length xs \<and> key (xs ! i) = k"
proof (cases "xs = []")
  case True
  then show ?thesis by (simp add: binary_search_def)
next
  case False
  let ?r = "search_base key xs k 0 (length xs)"
  have r: "?r < length xs" "\<forall>j < length xs. ?r < j \<longrightarrow> k < key (xs ! j)" "?r = 0 \<or> key (xs ! ?r) \<le> k"
    using search_base_spec[OF assms(1), of "length xs" 0 k] False by auto
  have inj: "key (xs ! i) = key (xs ! j) \<Longrightarrow> i < length xs \<Longrightarrow> j < length xs \<Longrightarrow> i = j" for i j
    using assms(2) by (auto simp: distinct_conv_nth)
  have "key (xs ! i) = k \<Longrightarrow> i < length xs \<Longrightarrow> key (xs ! ?r) = k"
  proof -
    assume i: "key (xs ! i) = k" "i < length xs"
    then have "i \<le> ?r" using r(2) by (metis less_irrefl linorder_not_less)
    then have "k \<le> key (xs ! ?r)" using assms(1) i r(1) by (auto simp: sorted_iff_nth_mono)
    moreover have "key (xs ! ?r) \<le> k" using r(3) i \<open>i \<le> ?r\<close> by auto
    ultimately show "key (xs ! ?r) = k" by simp
  qed
  then show ?thesis using False r(1) inj[of i ?r] by (auto simp: binary_search_def Let_def)
qed

text \<open>On entries with distinct sorted keys the search is the lookup of an association list.\<close>
lemma binary_search_map_of:
  assumes "sorted (map fst es)" "distinct (map fst es)"
  shows "map_option (\<lambda>i. snd (es ! i)) (binary_search fst es k) = map_of es k"
proof (cases "binary_search fst es k")
  case None
  then have "k \<notin> fst ` set es"
    using binary_search_Some_iff[OF assms, of k] by (force simp: in_set_conv_nth)
  then have "map_of es k = None" by (simp add: map_of_eq_None_iff)
  then show ?thesis by (simp add: None)
next
  case (Some i)
  then have "i < length es" "fst (es ! i) = k" using binary_search_Some_iff[OF assms] by blast+
  then have "(k, snd (es ! i)) \<in> set es" by (metis nth_mem prod.collapse)
  then show ?thesis by (simp add: Some assms(2))
qed

text \<open>Updating the value at the index found is an update of the lookup.\<close>
lemma map_of_update_nth:
  assumes "distinct (map fst es)" "i < length es"
  shows "map_of (es[i := (fst (es ! i), v)]) = (map_of es)(fst (es ! i) \<mapsto> v)"
  using assms
proof (induction es arbitrary: i)
  case (Cons e es)
  show ?case
  proof (cases i)
    case 0
    then show ?thesis by (cases e) (simp add: fun_eq_iff)
  next
    case (Suc j)
    then have "fst (es ! j) \<in> fst ` set es" using Cons.prems by simp
    moreover have "fst e \<notin> fst ` set es" using Cons.prems(1) by simp
    ultimately have "fst (es ! j) \<noteq> fst e" by metis
    then show ?thesis using Suc Cons by (cases e) (auto simp: fun_eq_iff)
  qed
qed simp

section \<open>Stable sorting with a comparator\<close>

text \<open>
  \<open>v.sort_by(cmp)\<close>, where \<open>before a b\<close> is \<open>cmp(a, b) == Less\<close>.  For a comparator that
  orders by a key the result is the stable sort by that key; for one that is not a total order (an
  \<open>f64\<close> that is NaN compared with \<open>partial_cmp\<close>) the library leaves the order open, and
  may panic; the model then takes the order of an insertion sort.
\<close>
fun insert_by :: "('a \<Rightarrow> 'a \<Rightarrow> bool) \<Rightarrow> 'a \<Rightarrow> 'a list \<Rightarrow> 'a list" where
  "insert_by before x [] = [x]"
| "insert_by before x (y # ys) = (if before y x then y # insert_by before x ys else x # y # ys)"

definition sort_by :: "('a \<Rightarrow> 'a \<Rightarrow> bool) \<Rightarrow> 'a list \<Rightarrow> 'a list" where
  "sort_by before xs = foldr (insert_by before) xs []"

lemma mset_insert_by [simp]: "mset (insert_by before x ys) = add_mset x (mset ys)"
  by (induction ys) auto

lemma mset_sort_by [simp]: "mset (sort_by before xs) = mset xs"
  by (induction xs) (auto simp: sort_by_def)

lemma set_sort_by [simp]: "set (sort_by before xs) = set xs"
  using mset_sort_by by (metis set_mset_mset)

lemma length_sort_by [simp]: "length (sort_by before xs) = length xs"
  using mset_sort_by by (metis size_mset)

lemma sort_by_key:
  fixes key :: "'a \<Rightarrow> 'k::linorder"
  assumes "\<And>x y. x \<in> set xs \<Longrightarrow> y \<in> set xs \<Longrightarrow> before x y \<longleftrightarrow> key x < key y"
  shows "sort_by before xs = sort_key key xs"
proof -
  have insert: "insert_by before x ys = insort_key key x ys"
    if "\<forall>y \<in> set ys. before y x \<longleftrightarrow> key y < key x" for x ys
    using that by (induction ys) auto
  show ?thesis using assms
  proof (induction xs)
    case (Cons x xs)
    then have "sort_by before xs = sort_key key xs" by simp
    then have "sort_by before (x # xs) = insert_by before x (sort_key key xs)" by (simp add: sort_by_def)
    then show ?case using insert[of "sort_key key xs" x] Cons.prems by simp
  qed (simp add: sort_by_def)
qed

text \<open>A comparator that never answers \<open>Less\<close> leaves the vector as it is.\<close>
lemma sort_by_const: "(\<And>x y. \<not> before x y) \<Longrightarrow> sort_by before xs = xs"
proof -
  assume "\<And>x y. \<not> before x y"
  then have "insert_by before x ys = x # ys" for x ys by (cases ys) auto
  then show ?thesis by (induction xs) (auto simp: sort_by_def)
qed

end
