(* ===== verification/Move_Set.thy ===== *)
theory Move_Set
  imports Addr Rust_Seq
begin

text \<open>
  Sets of lanes that move together: \<open>primitives/move_set.rs\<close> of the DSL core crate.  The lanes are
  kept as the sorted vector of their 64-bit forms without repetition, so that equality of the
  vectors is equality of the sets.
\<close>

datatype move_set = MoveSet (encoded_lanes: "u64 list")

definition move_set_from_encoded :: "u64 list \<Rightarrow> move_set" where
  "move_set_from_encoded encoded = MoveSet (remdups_adj (sort encoded))"

definition move_set_new :: "lane_addr list \<Rightarrow> move_set" where
  "move_set_new lanes = MoveSet (remdups_adj (sort (map lane_encode_u64 lanes)))"

definition move_set_decode :: "move_set \<Rightarrow> lane_addr list outcome" where
  "move_set_decode ms = traverse_outcome lane_decode_u64 (encoded_lanes ms)"

definition move_set_len :: "move_set \<Rightarrow> nat" where
  "move_set_len ms = length (encoded_lanes ms)"

definition move_set_is_empty :: "move_set \<Rightarrow> bool" where
  "move_set_is_empty ms \<longleftrightarrow> encoded_lanes ms = []"

section \<open>The vector is the set\<close>

lemma distinct_remdups_adj_sorted: "sorted xs \<Longrightarrow> distinct (remdups_adj xs)"
proof (induction xs rule: remdups_adj.induct)
  case (3 x y xs)
  then show ?case by (auto simp: order_le_less)
qed auto

lemma remdups_adj_sort: "remdups_adj (sort xs) = sorted_list_of_set (set xs)"
  using sorted_list_of_set.idem_if_sorted_distinct[of "remdups_adj (sort xs)"]
    distinct_remdups_adj_sorted[of "sort xs"] by simp

lemma move_set_new_set: "move_set_new ls = MoveSet (sorted_list_of_set (lane_encode_u64 ` set ls))"
  by (simp add: move_set_new_def remdups_adj_sort)

lemma move_set_from_encoded_set: "move_set_from_encoded es = MoveSet (sorted_list_of_set (set es))"
  by (simp add: move_set_from_encoded_def remdups_adj_sort)

lemma lane_encode_u64_norm: "lane_encode_u64 (lane_norm l) = lane_encode_u64 l"
  by (simp add: lane_encode_u64_def lane_encode_def lane_norm_def ucast_ucast_take_bit)

lemma lane_encode_u64_eq_iff: "lane_encode_u64 l = lane_encode_u64 l' \<longleftrightarrow> lane_norm l = lane_norm l'"
  using lane_u64_codec.enc_norm_eq lane_encode_u64_norm by metis

lemma move_set_decode_new:
  "\<exists>ds. move_set_decode (move_set_new ls) = Returned ds \<and> map lane_encode_u64 ds = encoded_lanes (move_set_new ls)
     \<and> set ds = lane_norm ` set ls"
proof -
  have *: "set es \<subseteq> lane_encode_u64 ` A \<Longrightarrow>
      \<exists>ds. traverse_outcome lane_decode_u64 es = Returned ds \<and> map lane_encode_u64 ds = es" for es A
  proof (induction es)
    case (Cons e es)
    then obtain l where "e = lane_encode_u64 l" by auto
    then have "lane_decode_u64 e = Returned (lane_norm l)" "lane_encode_u64 (lane_norm l) = e"
      by (simp_all add: lane_decode_u64_encode lane_encode_u64_norm)
    with Cons show ?case by auto
  qed simp
  let ?es = "encoded_lanes (move_set_new ls)"
  have es: "set ?es = lane_encode_u64 ` set ls" by (simp add: move_set_new_def)
  then obtain ds where ds: "traverse_outcome lane_decode_u64 ?es = Returned ds" "map lane_encode_u64 ds = ?es"
    using *[of ?es "set ls"] by blast
  have "list_all2 (\<lambda>e d. lane_decode_u64 e = Returned d) ?es ds"
    using ds(1) by (simp add: traverse_outcome_Returned_iff)
  then have norm: "d \<in> set ds \<Longrightarrow> lane_norm d = d" for d
    by (auto simp: list_all2_conv_all_nth in_set_conv_nth intro: lane_u64_codec.norm_fits[OF lane_u64_codec.dec_fits])
  have "lane_encode_u64 ` set ds = lane_encode_u64 ` lane_norm ` set ls"
    using arg_cong[OF ds(2), of set] es by (simp add: image_image lane_encode_u64_norm)
  moreover have "inj_on lane_encode_u64 (set ds \<union> lane_norm ` set ls)"
    using norm lane_u64_codec.fits_norm lane_u64_codec.norm_fits
    by (auto intro!: inj_onI simp: lane_encode_u64_eq_iff) 
  ultimately have "set ds = lane_norm ` set ls" by (simp add: inj_on_Un_image_eq_iff)
  with ds show ?thesis by (auto simp: move_set_decode_def)
qed

section \<open>Properties\<close>

text \<open>A move set stands for the set of its lanes: two collections of lanes give the same move
  set exactly when they hold the same lanes up to the widths of the packed form, whatever their
  order and repetitions, and decoding a move set never panics and lists each of its lanes once.\<close>
theorem move_set_canonical:
  "(move_set_new ls = move_set_new ls' \<longleftrightarrow> lane_norm ` set ls = lane_norm ` set ls')
   \<and> (case move_set_decode (move_set_new ls) of
        Panicked \<Rightarrow> False
      | Returned ds \<Rightarrow> set ds = lane_norm ` set ls \<and> distinct ds \<and> length ds = move_set_len (move_set_new ls))"
proof
  have "lane_encode_u64 ` set ls = lane_encode_u64 ` set ls' \<longleftrightarrow> lane_norm ` set ls = lane_norm ` set ls'"
    by (auto simp: image_iff set_eq_iff lane_encode_u64_eq_iff) (metis lane_encode_u64_eq_iff)+
  then show "move_set_new ls = move_set_new ls' \<longleftrightarrow> lane_norm ` set ls = lane_norm ` set ls'"
    using sorted_list_of_set.sorted_key_list_of_set_inject[of "lane_encode_u64 ` set ls" "lane_encode_u64 ` set ls'"]
    by (auto simp: move_set_new_set)
  obtain ds where ds: "move_set_decode (move_set_new ls) = Returned ds"
      "map lane_encode_u64 ds = encoded_lanes (move_set_new ls)" "set ds = lane_norm ` set ls"
    using move_set_decode_new by blast
  have "distinct (map lane_encode_u64 ds)" unfolding ds(2) by (simp add: move_set_new_set)
  then have "distinct ds" by (simp add: distinct_map)
  then show "case move_set_decode (move_set_new ls) of
        Panicked \<Rightarrow> False
      | Returned ds \<Rightarrow> set ds = lane_norm ` set ls \<and> distinct ds \<and> length ds = move_set_len (move_set_new ls)"
    using ds by (simp add: move_set_len_def flip: ds(2))
qed

end
