(* ===== verification/Lane_Index.thy ===== *)
theory Lane_Index
  imports Arch_Validate Rust_Map Float_Div Move_Set
begin

text \<open>
  The lane index of the search: \<open>primitives/lane_index.rs\<close>.  It registers the lanes of the site
  and word buses of every zone, with their endpoints and the positions of these, and answers the
  lookups of the search.  \<open>lanes_by_triplet\<close> is the one table the search traverses: it is kept as
  its entries in the order the hash map is traversed in (the parameter \<open>order\<close>).  The cube root
  of the standard library has no specified rounding and is the parameter \<open>cbrt\<close> of the timing
  model.
\<close>

type_synonym lane_group = "move_type \<times> u32 \<times> u32 \<times> direction"

record lane_index =
  li_arch :: arch_spec
  li_groups :: "(lane_group \<times> lane_addr list) list"
  li_by_src :: "lane_group \<rightharpoonup> (u64 \<rightharpoonup> lane_addr)"
  li_outgoing :: "u64 \<rightharpoonup> lane_addr list"
  li_endpoints :: "u64 \<rightharpoonup> location_addr \<times> location_addr"
  li_positions :: "(u64, f64 \<times> f64) fmap"
  li_durations :: "u64 \<rightharpoonup> f64"
  li_fastest :: "f64 option"

section \<open>The timing model\<close>

definition flair_max_ramp_us :: f64 where "flair_max_ramp_us = F64 0x3FC999999999999A"
definition flair_max_jerk :: f64 where "flair_max_jerk = F64 0x3F3A36E2EB1C432D"
definition flair_max_accel :: f64 where "flair_max_accel = F64 0x3F589374BC6A7EFA"

abbreviation one_f64 :: f64 where "one_f64 \<equiv> F64 0x3FF0000000000000"
abbreviation two_f64 :: f64 where "two_f64 \<equiv> F64 0x4000000000000000"
abbreviation three_f64 :: f64 where "three_f64 \<equiv> F64 0x4008000000000000"
abbreviation four_f64 :: f64 where "four_f64 \<equiv> F64 0x4010000000000000"

definition const_jerk_min_duration_us :: "(f64 \<Rightarrow> f64) \<Rightarrow> f64 \<Rightarrow> f64" where
  "const_jerk_min_duration_us cbrt max_dist =
     (let max_dist_um = fabs max_dist
      in if flt max_dist_um (F64 0x3E45798EE2308C3A) then pos_zero
         else let t1 = fdiv flair_max_accel flair_max_jerk;
                  a = fmul flair_max_jerk t1;
                  b = fmul (fmul (fmul three_f64 flair_max_jerk) t1) t1;
                  c = fsub (fmul (fmul (fmul (fmul two_f64 flair_max_jerk) t1) t1) t1) max_dist_um
              in if fle pos_zero c
                 then fmul four_f64 (cbrt (fdiv max_dist_um (fmul two_f64 flair_max_jerk)))
                 else let discriminant = fsub (fmul b b) (fmul (fmul four_f64 a) c);
                          t2 = fdiv (fadd (fneg b) (fsqrt discriminant)) (fmul two_f64 a)
                      in fadd (fmul four_f64 t1) (fmul two_f64 t2))"

text \<open>\<open>windows(2)\<close>: the consecutive pairs.\<close>
definition segments :: "'a list \<Rightarrow> ('a \<times> 'a) list" where
  "segments xs = zip xs (tl xs)"

definition segment_duration :: "(f64 \<Rightarrow> f64) \<Rightarrow> (f64 \<times> f64) \<times> (f64 \<times> f64) \<Rightarrow> f64" where
  "segment_duration cbrt = (\<lambda>((x0, y0), (x1, y1)).
     let dx = fsub x1 x0; dy = fsub y1 y0
     in const_jerk_min_duration_us cbrt (fsqrt (fadd (fmul dx dx) (fmul dy dy))))"

definition compute_lane_duration_us :: "(f64 \<Rightarrow> f64) \<Rightarrow> (f64 \<times> f64) list \<Rightarrow> f64" where
  "compute_lane_duration_us cbrt wps =
     (if length wps \<le> 1 then pos_zero
      else let ramp = fdiv one_f64 flair_max_ramp_us
           in fadd (fadd ramp (Float64.fsum (map (segment_duration cbrt) (segments wps)))) ramp)"

text \<open>The durations of the transport paths, and the least of them.\<close>
definition register_path ::
  "(f64 \<Rightarrow> f64) \<Rightarrow> (u64 \<rightharpoonup> f64) \<times> f64 option \<Rightarrow> transport_path \<Rightarrow> (u64 \<rightharpoonup> f64) \<times> f64 option" where
  "register_path cbrt = (\<lambda>(durations, fastest) tp.
     let duration = compute_lane_duration_us cbrt (waypoints tp)
     in if flt pos_zero duration
        then (durations(path_lane tp \<mapsto> duration),
              Some (case fastest of None \<Rightarrow> duration | Some f \<Rightarrow> fmin f duration))
        else (durations, fastest))"

definition path_durations :: "(f64 \<Rightarrow> f64) \<Rightarrow> arch_spec \<Rightarrow> (u64 \<rightharpoonup> f64) \<times> f64 option" where
  "path_durations cbrt a =
     (case paths a of None \<Rightarrow> (Map.empty, None)
      | Some ps \<Rightarrow> foldl (register_path cbrt) (Map.empty, None) ps)"

section \<open>Construction\<close>

text \<open>The lanes in the order the loops of \<open>new\<close> visit them.\<close>
definition site_bus_lanes :: "u32 \<Rightarrow> zone \<Rightarrow> lane_addr list" where
  "site_bus_lanes zone_id z =
     concat (map (\<lambda>(i, bus).
       concat (map (\<lambda>dir.
         concat (map (\<lambda>word_id.
           map (\<lambda>r. \<lparr>lane_direction = dir, lane_move_type = SiteBus, lane_zone_id = zone_id,
                     lane_word_id = word_id, lane_site_id = ucast (site_ref_index r), lane_bus_id = of_nat i\<rparr>)
             (bus_src bus)) (words_with_site_buses z))) [Forward, Backward])) (enumerate 0 (site_buses z)))"

definition word_bus_lanes :: "u32 \<Rightarrow> zone \<Rightarrow> lane_addr list" where
  "word_bus_lanes zone_id z =
     concat (map (\<lambda>(i, bus).
       concat (map (\<lambda>dir.
         concat (map (\<lambda>r.
           map (\<lambda>site_id. \<lparr>lane_direction = dir, lane_move_type = WordBus, lane_zone_id = zone_id,
                     lane_word_id = ucast (word_ref_index r), lane_site_id = site_id, lane_bus_id = of_nat i\<rparr>)
             (sites_with_word_buses z)) (bus_src bus))) [Forward, Backward])) (enumerate 0 (word_buses z)))"

definition candidate_lanes :: "arch_spec \<Rightarrow> lane_addr list" where
  "candidate_lanes a =
     concat (map (\<lambda>(i, z). site_bus_lanes (of_nat i) z @ word_bus_lanes (of_nat i) z) (enumerate 0 (zones a)))"

definition lane_key :: "lane_addr \<Rightarrow> lane_group" where
  "lane_key l = (lane_move_type l, lane_bus_id l, lane_zone_id l, lane_direction l)"

definition cache_position ::
  "arch_spec \<Rightarrow> location_addr \<Rightarrow> (u64, f64 \<times> f64) fmap \<Rightarrow> (u64, f64 \<times> f64) fmap" where
  "cache_position a loc m =
     (case fmlookup m (location_encode loc) of
        Some _ \<Rightarrow> m
      | None \<Rightarrow> (case location_position a loc of
                  Some pos \<Rightarrow> fmupd (location_encode loc) pos m
                | None \<Rightarrow> m))"

definition register_lane :: "arch_spec \<Rightarrow> lane_index \<Rightarrow> lane_addr \<Rightarrow> lane_index" where
  "register_lane a idx l =
     (case lane_endpoints a l of
        None \<Rightarrow> idx
      | Some (src, dst) \<Rightarrow>
          let key = lane_key l; src_enc = location_encode src
          in idx\<lparr>li_endpoints := (li_endpoints idx)(lane_encode_u64 l \<mapsto> (src, dst)),
                 li_groups := push_at key l (li_groups idx),
                 li_by_src := (li_by_src idx)(key \<mapsto>
                   (case li_by_src idx key of None \<Rightarrow> Map.empty | Some m \<Rightarrow> m)(src_enc \<mapsto> l)),
                 li_outgoing := push_map src_enc l (li_outgoing idx),
                 li_positions := cache_position a dst (cache_position a src (li_positions idx))\<rparr>)"

definition empty_index :: "arch_spec \<Rightarrow> lane_index" where
  "empty_index a = \<lparr>li_arch = a, li_groups = [], li_by_src = Map.empty, li_outgoing = Map.empty,
     li_endpoints = Map.empty, li_positions = fmempty, li_durations = Map.empty, li_fastest = None\<rparr>"

type_synonym group_order = "(lane_group \<times> lane_addr list) list \<Rightarrow> (lane_group \<times> lane_addr list) list"

definition lane_index_new :: "group_order \<Rightarrow> (f64 \<Rightarrow> f64) \<Rightarrow> arch_spec \<Rightarrow> lane_index" where
  "lane_index_new order cbrt a =
     (let idx = foldl (register_lane a) (empty_index a) (candidate_lanes a);
          (durations, fastest) = path_durations cbrt a
      in idx\<lparr>li_groups := order (li_groups idx),
             li_durations := durations, li_fastest := fastest,
             li_outgoing := (\<lambda>k. map_option (sort_key lane_encode_u64) (li_outgoing idx k))\<rparr>)"

section \<open>Lookups\<close>

definition num_locations :: "lane_index \<Rightarrow> nat" where
  "num_locations idx = fcard (fmdom (li_positions idx))"

definition lanes_for :: "lane_index \<Rightarrow> move_type \<Rightarrow> u32 \<Rightarrow> u32 \<Rightarrow> direction \<Rightarrow> lane_addr list" where
  "lanes_for idx mt bus_id zone_id dir =
     (case map_of (li_groups idx) (mt, bus_id, zone_id, dir) of Some v \<Rightarrow> v | None \<Rightarrow> [])"

definition lane_for_source ::
  "lane_index \<Rightarrow> move_type \<Rightarrow> u32 \<Rightarrow> u32 \<Rightarrow> direction \<Rightarrow> location_addr \<Rightarrow> lane_addr option" where
  "lane_for_source idx mt bus_id zone_id dir src =
     Option.bind (li_by_src idx (mt, bus_id, zone_id, dir)) (\<lambda>m. m (location_encode src))"

definition outgoing_lanes :: "lane_index \<Rightarrow> location_addr \<Rightarrow> lane_addr list" where
  "outgoing_lanes idx src = (case li_outgoing idx (location_encode src) of Some v \<Rightarrow> v | None \<Rightarrow> [])"

definition index_endpoints :: "lane_index \<Rightarrow> lane_addr \<Rightarrow> (location_addr \<times> location_addr) option" where
  "index_endpoints idx l = li_endpoints idx (lane_encode_u64 l)"

definition index_position :: "lane_index \<Rightarrow> location_addr \<Rightarrow> (f64 \<times> f64) option" where
  "index_position idx loc = fmlookup (li_positions idx) (location_encode loc)"

definition bus_groups :: "lane_index \<Rightarrow> lane_group list" where
  "bus_groups idx = map fst (li_groups idx)"

definition lanes_for_all_zones :: "lane_index \<Rightarrow> move_type \<Rightarrow> u32 \<Rightarrow> direction \<Rightarrow> lane_addr list" where
  "lanes_for_all_zones idx mt bus_id dir =
     concat (map snd (filter (\<lambda>((m, b, _, d), _). m = mt \<and> b = bus_id \<and> d = dir) (li_groups idx)))"

text \<open>The keys without their zone, each at its first occurrence.\<close>
fun first_occurrences :: "'a set \<Rightarrow> 'a list \<Rightarrow> 'a list" where
  "first_occurrences seen [] = []"
| "first_occurrences seen (x # xs) =
     (if x \<in> seen then first_occurrences seen xs else x # first_occurrences (insert x seen) xs)"

definition bus_groups_no_zone :: "lane_index \<Rightarrow> (move_type \<times> u32 \<times> direction) list" where
  "bus_groups_no_zone idx = first_occurrences {} (map (\<lambda>(mt, b, z, d). (mt, b, d)) (bus_groups idx))"

definition lane_duration_us :: "lane_index \<Rightarrow> lane_addr \<Rightarrow> f64 option" where
  "lane_duration_us idx l = li_durations idx (lane_encode_u64 l)"

definition fastest_lane_duration_us :: "lane_index \<Rightarrow> f64 option" where
  "fastest_lane_duration_us idx = li_fastest idx"


section \<open>The lanes that are registered\<close>

definition registered_lanes :: "arch_spec \<Rightarrow> lane_addr list" where
  "registered_lanes a = filter (\<lambda>l. lane_endpoints a l \<noteq> None) (candidate_lanes a)"

lemma site_bus_lanes_set:
  "l \<in> set (site_bus_lanes zid z) \<longleftrightarrow> lane_move_type l = SiteBus \<and> lane_zone_id l = zid
     \<and> lane_word_id l \<in> set (words_with_site_buses z)
     \<and> (\<exists>i < length (site_buses z). lane_bus_id l = of_nat i
          \<and> (\<exists>r \<in> set (bus_src (site_buses z ! i)). lane_site_id l = ucast (site_ref_index r)))"
  (is "_ \<longleftrightarrow> ?R")
proof
  assume ?R
  then obtain i r where "lane_move_type l = SiteBus" "lane_zone_id l = zid"
    "lane_word_id l \<in> set (words_with_site_buses z)" "i < length (site_buses z)" "lane_bus_id l = of_nat i"
    "r \<in> set (bus_src (site_buses z ! i))" "lane_site_id l = ucast (site_ref_index r)" by auto
  then show "l \<in> set (site_bus_lanes zid z)"
    by (cases l; cases "lane_direction l") (force simp: site_bus_lanes_def set_enumerate)+
qed (fastforce simp: site_bus_lanes_def set_enumerate)

lemma word_bus_lanes_set:
  "l \<in> set (word_bus_lanes zid z) \<longleftrightarrow> lane_move_type l = WordBus \<and> lane_zone_id l = zid
     \<and> lane_site_id l \<in> set (sites_with_word_buses z)
     \<and> (\<exists>i < length (word_buses z). lane_bus_id l = of_nat i
          \<and> (\<exists>r \<in> set (bus_src (word_buses z ! i)). lane_word_id l = ucast (word_ref_index r)))"
  (is "_ \<longleftrightarrow> ?R")
proof
  assume ?R
  then obtain i r where "lane_move_type l = WordBus" "lane_zone_id l = zid"
    "lane_site_id l \<in> set (sites_with_word_buses z)" "i < length (word_buses z)" "lane_bus_id l = of_nat i"
    "r \<in> set (bus_src (word_buses z ! i))" "lane_word_id l = ucast (word_ref_index r)" by auto
  then show "l \<in> set (word_bus_lanes zid z)"
    by (cases l; cases "lane_direction l") (force simp: word_bus_lanes_def set_enumerate)+
qed (fastforce simp: word_bus_lanes_def set_enumerate)

lemma candidate_lanes_set:
  "set (candidate_lanes a) = (\<Union>i \<in> {..<length (zones a)}.
     set (site_bus_lanes (of_nat i) (zones a ! i)) \<union> set (word_bus_lanes (of_nat i) (zones a ! i)))"
  by (fastforce simp: candidate_lanes_def set_enumerate)

text \<open>Every lane of a site or word bus that has endpoints is visited, and no lane of a zone bus is.\<close>
lemma registered_lanes_sub: "l \<in> set (registered_lanes a) \<Longrightarrow> lane_endpoints a l \<noteq> None \<and> lane_move_type l \<noteq> ZoneBus"
  by (auto simp: registered_lanes_def candidate_lanes_set site_bus_lanes_set word_bus_lanes_set)

lemma ucast_u16_back: "(w :: u32) < 65536 \<Longrightarrow> ucast (ucast w :: u16) = w"
  by (simp add: unsigned_ucast_eq word_less_nat_alt word_unat_eq_iff unsigned_take_bit_eq take_bit_nat_eq_self)

lemma registered_lanes_set:
  assumes "arch_fits a"
  shows "set (registered_lanes a) = {l. lane_endpoints a l \<noteq> None \<and> lane_move_type l \<noteq> ZoneBus}"
proof (intro set_eqI iffI)
  fix l assume l: "l \<in> {l. lane_endpoints a l \<noteq> None \<and> lane_move_type l \<noteq> ZoneBus}"
  then have valid: "lane_valid a l" and some: "lane_endpoints a l \<noteq> None" and mt: "lane_move_type l \<noteq> ZoneBus"
    using lane_endpoints_defined_iff[of a l] by simp_all
  define i where "i = unat (lane_zone_id l)"
  have i: "i < length (zones a)" "lane_zone_id l = of_nat i"
    using valid by (auto simp: lane_valid_def location_valid_def i_def dest: less_of_natD)
  have bid: "lane_bus_id l = of_nat (unat (lane_bus_id l))" by simp
  have wide: "ucast (ucast (lane_site_id l) :: u16) = lane_site_id l" "ucast (ucast (lane_word_id l) :: u16) = lane_word_id l"
    using lane_valid_fits[OF assms valid] by (simp_all add: lane_fits_def ucast_u16_back)
  have "l \<in> set (site_bus_lanes (of_nat i) (zones a ! i)) \<union> set (word_bus_lanes (of_nat i) (zones a ! i))"
  proof (cases "lane_move_type l")
    case SiteBus
    then obtain s where bus: "unat (lane_bus_id l) < length (site_buses (zones a ! i))"
        "lane_word_id l \<in> set (words_with_site_buses (zones a ! i))"
        "site_resolve_forward (site_buses (zones a ! i) ! unat (lane_bus_id l)) (ucast (lane_site_id l)) = Some s"
      using valid by (auto simp: lane_valid_def Let_def i_def)
    then obtain r where "r \<in> set (bus_src (site_buses (zones a ! i) ! unat (lane_bus_id l)))"
        "site_ref_index r = ucast (lane_site_id l)"
      by (force simp: site_resolve_forward_def bind_eq_Some_conv position_Some_iff)
    then show ?thesis
      using SiteBus bus(1,2) i(2) bid wide(1) by (auto simp: site_bus_lanes_set intro!: exI[of _ "unat (lane_bus_id l)"] bexI[of _ r])
  next
    case WordBus
    then obtain s where bus: "unat (lane_bus_id l) < length (word_buses (zones a ! i))"
        "lane_site_id l \<in> set (sites_with_word_buses (zones a ! i))"
        "word_resolve_forward (word_buses (zones a ! i) ! unat (lane_bus_id l)) (ucast (lane_word_id l)) = Some s"
      using valid by (auto simp: lane_valid_def Let_def i_def)
    then obtain r where "r \<in> set (bus_src (word_buses (zones a ! i) ! unat (lane_bus_id l)))"
        "word_ref_index r = ucast (lane_word_id l)"
      by (force simp: word_resolve_forward_def bind_eq_Some_conv position_Some_iff)
    then show ?thesis
      using WordBus bus(1,2) i(2) bid wide(2) by (auto simp: word_bus_lanes_set intro!: exI[of _ "unat (lane_bus_id l)"] bexI[of _ r])
  qed (use mt in simp)
  then show "l \<in> set (registered_lanes a)"
    using some i(1) by (auto simp: registered_lanes_def candidate_lanes_set)
qed (use registered_lanes_sub in auto)


section \<open>What the tables hold\<close>

definition built_index :: "arch_spec \<Rightarrow> lane_addr list \<Rightarrow> lane_index" where
  "built_index a ls = foldl (register_lane a) (empty_index a) ls"

abbreviation resolved :: "arch_spec \<Rightarrow> lane_addr list \<Rightarrow> lane_addr list" where
  "resolved a ls \<equiv> filter (\<lambda>l. lane_endpoints a l \<noteq> None) ls"

abbreviation source_of :: "arch_spec \<Rightarrow> lane_addr \<Rightarrow> location_addr" where
  "source_of a l \<equiv> fst (the (lane_endpoints a l))"

lemma built_snoc: "built_index a (ls @ [l]) = register_lane a (built_index a ls) l"
  by (simp add: built_index_def)

lemma built_groups: "map_of (li_groups (built_index a ls)) g = entry_list (filter (\<lambda>l. lane_key l = g) (resolved a ls))"
proof (induction ls rule: rev_induct)
  case (snoc l ls)
  then show ?case
    by (auto simp: built_snoc register_lane_def Let_def map_of_push_at push_map_def entry_list_def
        split: option.splits)
qed (simp add: built_index_def empty_index_def)

lemma built_groups_distinct: "distinct (map fst (li_groups (built_index a ls)))"
proof (induction ls rule: rev_induct)
  case (snoc l ls)
  then show ?case by (auto simp: built_snoc register_lane_def Let_def distinct_push_at split: option.splits)
qed (simp add: built_index_def empty_index_def)

lemma built_outgoing:
  "li_outgoing (built_index a ls) k = entry_list (filter (\<lambda>l. location_encode (source_of a l) = k) (resolved a ls))"
proof (induction ls rule: rev_induct)
  case (snoc l ls)
  then show ?case
    by (auto simp: built_snoc register_lane_def Let_def push_map_def entry_list_def split: option.splits)
qed (simp add: built_index_def empty_index_def)

lemma built_endpoints:
  "li_endpoints (built_index a ls) k =
     map_of (rev (map (\<lambda>l. (lane_encode_u64 l, the (lane_endpoints a l))) (resolved a ls))) k"
proof (induction ls rule: rev_induct)
  case (snoc l ls)
  then show ?case by (auto simp: built_snoc register_lane_def Let_def split: option.splits)
qed (simp add: built_index_def empty_index_def)

lemma built_by_src:
  "li_by_src (built_index a ls) g =
     (let vs = filter (\<lambda>l. lane_key l = g) (resolved a ls)
      in if vs = [] then None
         else Some (map_of (rev (map (\<lambda>l. (location_encode (source_of a l), l)) vs))))"
proof (induction ls rule: rev_induct)
  case (snoc l ls)
  then show ?case
    by (auto simp: built_snoc register_lane_def Let_def split: option.splits)
qed (simp add: built_index_def empty_index_def)

lemma find_map_append: "find_map f (xs @ ys) = or_else (find_map f xs) (find_map f ys)"
  by (induction xs) (auto split: option.splits)

text \<open>The places the registered lanes touch.\<close>
definition touched :: "arch_spec \<Rightarrow> lane_addr list \<Rightarrow> location_addr list" where
  "touched a ls = concat (map (\<lambda>l. case lane_endpoints a l of None \<Rightarrow> [] | Some (s, d) \<Rightarrow> [s, d]) ls)"

lemma cache_position_lookup:
  "fmlookup (cache_position a loc m) k =
     (if k = location_encode loc then or_else (fmlookup m k) (location_position a loc) else fmlookup m k)"
  by (auto simp: cache_position_def or_else_def split: option.splits)

lemma built_positions:
  "fmlookup (li_positions (built_index a ls)) k =
     find_map (\<lambda>loc. if location_encode loc = k then location_position a loc else None) (touched a ls)"
proof (induction ls rule: rev_induct)
  case (snoc l ls)
  show ?case
  proof (cases "lane_endpoints a l")
    case None
    then show ?thesis using snoc.IH by (simp add: built_snoc register_lane_def touched_def)
  next
    case (Some e)
    obtain s d where "e = (s, d)" by (cases e)
    then show ?thesis using Some snoc.IH
      by (auto simp: built_snoc register_lane_def Let_def touched_def cache_position_lookup find_map_append or_else_assoc
          split: option.splits)
  qed
qed (simp add: built_index_def empty_index_def touched_def)


section \<open>What the lookups answer\<close>

lemma lane_index_new_sel:
  "li_groups (lane_index_new order cbrt a) = order (li_groups (built_index a (candidate_lanes a)))"
  "li_by_src (lane_index_new order cbrt a) = li_by_src (built_index a (candidate_lanes a))"
  "li_outgoing (lane_index_new order cbrt a) k =
     map_option (sort_key lane_encode_u64) (li_outgoing (built_index a (candidate_lanes a)) k)"
  "li_endpoints (lane_index_new order cbrt a) = li_endpoints (built_index a (candidate_lanes a))"
  "li_positions (lane_index_new order cbrt a) = li_positions (built_index a (candidate_lanes a))"
  by (simp_all add: lane_index_new_def built_index_def Let_def split: prod.split)

lemma registered_in: "l \<in> set (registered_lanes a) \<Longrightarrow> \<exists>s d. lane_endpoints a l = Some (s, d)"
  by (auto simp: registered_lanes_def)

lemma endpoints_fit:
  assumes "arch_fits a" "lane_endpoints a l = Some (s, d)" "lane_move_type l \<noteq> ZoneBus"
  shows "loc_fits s \<and> loc_fits d"
proof -
  have valid: "lane_valid a l" using assms(2) lane_endpoints_defined_iff[of a l] by simp
  have o: "loc_fits (lane_origin l)"
    using valid assms(1) by (simp add: lane_valid_def location_valid_fits)
  have small: "(ucast (w :: u16) :: u32) < 65536" for w
  proof -
    have "unat w < 2 ^ 16" using unsigned_less[of w, where 'a = nat] by simp
    then show ?thesis by (simp add: word_less_nat_alt unsigned_ucast_eq take_bit_nat_eq_self)
  qed
  have far: "loc_fits far" if "lane_forward_dst a (zones a ! unat (lane_zone_id l)) l = Some far" for far
    using that o assms(3) small
    by (cases "lane_move_type l") (auto simp: lane_forward_dst_def bind_eq_Some_conv loc_fits_def)
  show ?thesis using assms(2) o far by (cases "lane_direction l") (auto simp: lane_endpoints_Some_iff)
qed

lemma registered_fits:
  assumes "arch_fits a" "l \<in> set (registered_lanes a)"
  shows "lane_fits l"
proof -
  have "lane_valid a l" using registered_in[OF assms(2)] lane_endpoints_defined_iff[of a l] by auto
  then show ?thesis by (rule lane_valid_fits[OF assms(1)])
qed

lemma index_endpoints_Some:
  "index_endpoints (lane_index_new order cbrt a) l = Some e \<Longrightarrow>
     \<exists>l' \<in> set (registered_lanes a). lane_encode_u64 l' = lane_encode_u64 l \<and> lane_endpoints a l' = Some e"
  by (fastforce simp: index_endpoints_def lane_index_new_sel built_endpoints registered_lanes_def dest!: map_of_SomeD)

lemma index_endpoints_defined:
  assumes "l \<in> set (registered_lanes a)"
  shows "index_endpoints (lane_index_new order cbrt a) l \<noteq> None"
proof -
  have "lane_encode_u64 l \<in> fst ` set (rev (map (\<lambda>l. (lane_encode_u64 l, the (lane_endpoints a l))) (registered_lanes a)))"
    using assms by force
  then show ?thesis
    by (simp add: index_endpoints_def lane_index_new_sel built_endpoints registered_lanes_def map_of_eq_None_iff)
qed

text \<open>The index answers with the endpoints of the architecture for every lane of a site bus
  or word bus, and with nothing for a lane of a zone bus or a lane the architecture rejects.\<close>
theorem index_endpoints_spec:
  assumes "arch_fits a" "lane_fits l"
  shows "index_endpoints (lane_index_new order cbrt a) l
           = (if lane_move_type l = ZoneBus then None else lane_endpoints a l)"
proof (cases "index_endpoints (lane_index_new order cbrt a) l")
  case None
  then have "l \<notin> set (registered_lanes a)" using index_endpoints_defined by blast
  then show ?thesis
    using None registered_lanes_set[OF assms(1)] by (cases "lane_endpoints a l") auto
next
  case (Some e)
  then obtain l' where l': "l' \<in> set (registered_lanes a)" "lane_encode_u64 l' = lane_encode_u64 l"
      "lane_endpoints a l' = Some e"
    using index_endpoints_Some by blast
  then have "l' = l"
    using registered_fits[OF assms(1) l'(1)] assms(2) lane_u64_codec.enc_eq_iff by blast
  then show ?thesis using Some l' registered_lanes_sub by auto
qed

lemma lanes_for_all:
  assumes "rearranges order"
  shows "lanes_for (lane_index_new order cbrt a) mt b z d
           = filter (\<lambda>l. lane_key l = (mt, b, z, d)) (registered_lanes a)"
  by (simp add: lanes_for_def lane_index_new_sel map_of_rearranged[OF assms built_groups_distinct]
      built_groups registered_lanes_def entry_list_def split: option.split)

lemma bus_groups_set:
  assumes "rearranges order"
  shows "set (bus_groups (lane_index_new order cbrt a)) = lane_key ` set (registered_lanes a)"
proof -
  have "k \<in> fst ` set (li_groups (built_index a (candidate_lanes a))) \<longleftrightarrow> k \<in> lane_key ` set (registered_lanes a)" for k
  proof -
    have "k \<in> fst ` set (li_groups (built_index a (candidate_lanes a)))
        \<longleftrightarrow> map_of (li_groups (built_index a (candidate_lanes a))) k \<noteq> None"
      by (simp add: map_of_eq_None_iff)
    also have "\<dots> \<longleftrightarrow> filter (\<lambda>l. lane_key l = k) (registered_lanes a) \<noteq> []"
      by (simp add: built_groups registered_lanes_def entry_list_def)
    also have "\<dots> \<longleftrightarrow> k \<in> lane_key ` set (registered_lanes a)" by (auto simp: filter_empty_conv)
    finally show ?thesis .
  qed
  then have "fst ` set (li_groups (built_index a (candidate_lanes a))) = lane_key ` set (registered_lanes a)"
    by blast
  then show ?thesis using rearranges_set[OF assms] by (simp add: bus_groups_def lane_index_new_sel)
qed

lemma bus_groups_distinct:
  assumes "rearranges order"
  shows "distinct (bus_groups (lane_index_new order cbrt a))"
proof -
  have "mset (map fst (order (li_groups (built_index a (candidate_lanes a)))))
      = mset (map fst (li_groups (built_index a (candidate_lanes a))))"
    using rearranges_mset[OF assms] by simp
  then show ?thesis
    using built_groups_distinct mset_eq_imp_distinct_iff by (fastforce simp: bus_groups_def lane_index_new_sel)
qed


lemma built_entry:
  assumes "(k, ls) \<in> set (li_groups (built_index a (candidate_lanes a)))"
  shows "ls = filter (\<lambda>l. lane_key l = k) (registered_lanes a) \<and> ls \<noteq> []"
proof -
  have "map_of (li_groups (built_index a (candidate_lanes a))) k = Some ls"
    by (rule map_of_is_SomeI[OF built_groups_distinct assms])
  then show ?thesis
    using built_groups[of a "candidate_lanes a" k] by (auto simp: registered_lanes_def)
qed

lemma index_entry:
  assumes "rearranges order" "(k, ls) \<in> set (li_groups (lane_index_new order cbrt a))"
  shows "ls = filter (\<lambda>l. lane_key l = k) (registered_lanes a)"
  using assms built_entry rearranges_set[OF assms(1)] by (simp add: lane_index_new_sel)

lemma lanes_for_all_zones_set:
  assumes "rearranges order"
  shows "set (lanes_for_all_zones (lane_index_new order cbrt a) mt b d)
           = {l \<in> set (registered_lanes a). lane_move_type l = mt \<and> lane_bus_id l = b \<and> lane_direction l = d}"
    (is "?L = ?R")
proof (intro set_eqI iffI)
  fix l assume "l \<in> ?L"
  then obtain z ls where "((mt, b, z, d), ls) \<in> set (li_groups (lane_index_new order cbrt a))" "l \<in> set ls"
    by (auto simp: lanes_for_all_zones_def)
  then show "l \<in> ?R" using index_entry[OF assms] by (fastforce simp: lane_key_def)
next
  fix l assume l: "l \<in> ?R"
  then have "lane_key l \<in> set (bus_groups (lane_index_new order cbrt a))"
    using bus_groups_set[OF assms] by auto
  then obtain ls where ls: "(lane_key l, ls) \<in> set (li_groups (lane_index_new order cbrt a))"
    by (auto simp: bus_groups_def)
  then have "l \<in> set ls" using index_entry[OF assms ls] l by auto
  with ls l show "l \<in> ?L" by (auto simp: lanes_for_all_zones_def lane_key_def intro!: bexI[OF _ ls])
qed

lemma first_occurrences_set: "set (first_occurrences seen xs) = set xs - seen"
  by (induction seen xs rule: first_occurrences.induct) auto

lemma first_occurrences_distinct: "distinct (first_occurrences seen xs)"
  by (induction seen xs rule: first_occurrences.induct) (auto simp: first_occurrences_set)

lemma bus_groups_no_zone_set:
  assumes "rearranges order"
  shows "set (bus_groups_no_zone (lane_index_new order cbrt a))
           = (\<lambda>l. (lane_move_type l, lane_bus_id l, lane_direction l)) ` set (registered_lanes a)"
  by (auto simp: bus_groups_no_zone_def first_occurrences_set bus_groups_set[OF assms] image_image lane_key_def)

lemma bus_groups_no_zone_distinct: "distinct (bus_groups_no_zone idx)"
  by (simp add: bus_groups_no_zone_def first_occurrences_distinct)

text \<open>The outgoing lanes of a location are the lanes of the site and word buses that start
  there, all of them, in the order of their packed addresses.\<close>
theorem outgoing_lanes_spec:
  assumes "arch_fits a" "loc_fits src"
  shows "set (outgoing_lanes (lane_index_new order cbrt a) src)
           = {l. lane_move_type l \<noteq> ZoneBus \<and> (\<exists>dst. lane_endpoints a l = Some (src, dst))}
         \<and> sorted (map lane_encode_u64 (outgoing_lanes (lane_index_new order cbrt a) src))"
proof -
  have out: "outgoing_lanes (lane_index_new order cbrt a) src
      = sort_key lane_encode_u64 (filter (\<lambda>l. location_encode (source_of a l) = location_encode src) (registered_lanes a))"
    by (simp add: outgoing_lanes_def lane_index_new_sel built_outgoing registered_lanes_def entry_list_def)
  have "location_encode (source_of a l) = location_encode src \<longleftrightarrow> source_of a l = src"
    if "l \<in> set (registered_lanes a)" for l
  proof -
    obtain s d where e: "lane_endpoints a l = Some (s, d)" using registered_in[OF \<open>l \<in> _\<close>] by blast
    then have "loc_fits s" using endpoints_fit[OF assms(1) e] registered_lanes_sub[OF \<open>l \<in> _\<close>] by simp
    then show ?thesis using loc_codec.enc_eq_iff[OF _ assms(2)] e by simp
  qed
  then have "set (outgoing_lanes (lane_index_new order cbrt a) src) = {l \<in> set (registered_lanes a). source_of a l = src}"
    unfolding out by auto
  also have "\<dots> = {l. lane_move_type l \<noteq> ZoneBus \<and> (\<exists>dst. lane_endpoints a l = Some (src, dst))}"
    using registered_lanes_set[OF assms(1)] by auto
  finally show ?thesis unfolding out by (simp add: sorted_sort_key)
qed

lemma lane_for_source_SomeD:
  assumes "arch_fits a" "loc_fits src" "lane_for_source (lane_index_new order cbrt a) mt b z d src = Some l"
  shows "lane_key l = (mt, b, z, d) \<and> (\<exists>dst. lane_endpoints a l = Some (src, dst))"
proof -
  have l: "l \<in> set (registered_lanes a)" "lane_key l = (mt, b, z, d)" "location_encode (source_of a l) = location_encode src"
    using assms(3)
    by (auto simp: lane_for_source_def lane_index_new_sel built_by_src registered_lanes_def Let_def
        split: if_splits dest!: map_of_SomeD)
  obtain s t where e: "lane_endpoints a l = Some (s, t)" using registered_in[OF l(1)] by blast
  then have "loc_fits s" using endpoints_fit[OF assms(1) e] registered_lanes_sub[OF l(1)] by simp
  then show ?thesis using l loc_codec.enc_eq_iff[OF _ assms(2)] e by simp
qed

text \<open>A place that a registered lane touches has the position the architecture gives it.\<close>
lemma index_position_touched:
  assumes "arch_fits a" "lane_endpoints a l = Some (s, d)" "lane_move_type l \<noteq> ZoneBus" "loc \<in> {s, d}"
  shows "index_position (lane_index_new order cbrt a) loc = location_position a loc"
proof -
  have reg: "l \<in> set (candidate_lanes a)"
    using registered_lanes_set[OF assms(1)] assms(2,3) by (auto simp: registered_lanes_def)
  have fits: "loc_fits loc" using endpoints_fit[OF assms(1,2,3)] assms(4) by auto
  have same: "loc' = loc" if t: "loc' \<in> set (touched a (candidate_lanes a))" "location_encode loc' = location_encode loc" for loc'
  proof -
    obtain l' s' d' where l': "l' \<in> set (candidate_lanes a)" "lane_endpoints a l' = Some (s', d')" "loc' \<in> {s', d'}"
      using t(1) unfolding touched_def by (auto split: option.splits) (metis+)
    then have "l' \<in> set (registered_lanes a)" by (simp add: registered_lanes_def)
    then have "loc_fits loc'" using endpoints_fit[OF assms(1) l'(2)] registered_lanes_sub l'(3) by auto
    then show ?thesis using loc_codec.enc_eq_iff fits t(2) by blast
  qed
  have mem: "loc \<in> set (touched a (candidate_lanes a))"
    using reg assms(2,4) by (force simp: touched_def)
  let ?f = "\<lambda>loc'. if location_encode loc' = location_encode loc then location_position a loc' else None"
  have pos: "index_position (lane_index_new order cbrt a) loc = find_map ?f (touched a (candidate_lanes a))"
    by (simp add: index_position_def lane_index_new_sel built_positions)
  show ?thesis
  proof (cases "find_map ?f (touched a (candidate_lanes a))")
    case None
    then have "\<forall>x \<in> set (touched a (candidate_lanes a)). ?f x = None" by (simp only: find_map_None_iff)
    from bspec[OF this mem] have "?f loc = None" .
    then have "location_position a loc = None" by (simp only: refl if_True)
    then show ?thesis unfolding pos None by simp
  next
    case (Some p)
    from find_map_SomeD[OF this] obtain loc' where "loc' \<in> set (touched a (candidate_lanes a))" "?f loc' = Some p"
      by blast
    then have "location_position a loc = Some p" using same[of loc'] by (metis option.distinct(1))
    then show ?thesis unfolding pos Some by simp
  qed
qed

section \<open>On the example architecture\<close>

definition index_lane :: lane_addr where
  "index_lane = \<lparr>lane_direction = Backward, lane_move_type = SiteBus, lane_zone_id = 0,
     lane_word_id = 1, lane_site_id = 0, lane_bus_id = 0\<rparr>"

lemma index_lane_endpoints:
  "lane_endpoints example_arch index_lane
     = Some (\<lparr>loc_zone_id = 0, loc_word_id = 1, loc_site_id = 1\<rparr>, \<lparr>loc_zone_id = 0, loc_word_id = 1, loc_site_id = 0\<rparr>)"
  by code_simp

text \<open>C33. The lane index agrees with the architecture: it answers for a lane of a site bus or word bus
  with the endpoints the architecture resolves and with nothing for a lane of a zone bus or one the
  architecture rejects, and the lanes it lists for a location are all of the former that start there,
  in the order of their packed addresses.\<close>
theorem lane_index_agrees:
  assumes "arch_fits a" "lane_fits l" "loc_fits src"
  shows "index_endpoints (lane_index_new order cbrt a) l
           = (if lane_move_type l = ZoneBus then None else lane_endpoints a l)
    \<and> set (outgoing_lanes (lane_index_new order cbrt a) src)
           = {l. lane_move_type l \<noteq> ZoneBus \<and> (\<exists>dst. lane_endpoints a l = Some (src, dst))}
    \<and> sorted (map lane_encode_u64 (outgoing_lanes (lane_index_new order cbrt a) src))"
  using index_endpoints_spec[OF assms(1,2)] outgoing_lanes_spec[OF assms(1,3)] by blast

theorem lane_index_agrees_witness:
  "index_endpoints (lane_index_new rev fsqrt example_arch) index_lane
     = Some (\<lparr>loc_zone_id = 0, loc_word_id = 1, loc_site_id = 1\<rparr>, \<lparr>loc_zone_id = 0, loc_word_id = 1, loc_site_id = 0\<rparr>)
   \<and> index_lane \<in> set (outgoing_lanes (lane_index_new rev fsqrt example_arch)
     \<lparr>loc_zone_id = 0, loc_word_id = 1, loc_site_id = 1\<rparr>)"
proof -
  have "lane_fits index_lane" by (simp add: lane_fits_def index_lane_def)
  moreover have "loc_fits \<lparr>loc_zone_id = 0, loc_word_id = 1, loc_site_id = 1\<rparr>" by (simp add: loc_fits_def)
  ultimately show ?thesis
    using lane_index_agrees[OF example_fits, of index_lane _ rev fsqrt] index_lane_endpoints by (auto simp: index_lane_def)
qed

end
