(* ===== verification/Rust_Vec.thy ===== *)
theory Rust_Vec
  imports Prelude
begin

text \<open>Indexing a vector or a hash map, which panics where there is nothing.\<close>

definition vec_get :: "'a list \<Rightarrow> nat \<Rightarrow> 'a outcome" where
  "vec_get xs i = (if i < length xs then Returned (xs ! i) else Panicked)"

definition vec_set :: "'a list \<Rightarrow> nat \<Rightarrow> 'a \<Rightarrow> 'a list outcome" where
  "vec_set xs i x = (if i < length xs then Returned (xs[i := x]) else Panicked)"

definition map_get :: "('k \<rightharpoonup> 'v) \<Rightarrow> 'k \<Rightarrow> 'v outcome" where
  "map_get m k = (case m k of Some v \<Rightarrow> Returned v | None \<Rightarrow> Panicked)"

lemma vec_get_in [simp]: "i < length xs \<Longrightarrow> vec_get xs i = Returned (xs ! i)"
  by (simp add: vec_get_def)

lemma vec_set_in [simp]: "i < length xs \<Longrightarrow> vec_set xs i x = Returned (xs[i := x])"
  by (simp add: vec_set_def)

lemma map_get_in [simp]: "m k = Some v \<Longrightarrow> map_get m k = Returned v"
  by (simp add: map_get_def)

end
