(* ===== verification/Rust_Loop.thy ===== *)
theory Rust_Loop
  imports Prelude
begin

text \<open>
  Loops whose end is not evident: one iteration is a function that either goes on with a new state
  (\<open>Inl\<close>) or leaves the loop with a result (\<open>Inr\<close>), and \<open>iterate\<close> runs it, so that a
  loop that never ends is \<open>None\<close>.  The rule \<open>iterate_total\<close> proves that a loop ends from an
  invariant and a measure, together with what holds of its result.
\<close>

partial_function (option) iterate :: "('s \<Rightarrow> 's + 'r) \<Rightarrow> 's \<Rightarrow> 'r option" where
  "iterate step s = (case step s of Inl s' \<Rightarrow> iterate step s' | Inr r \<Rightarrow> Some r)"

declare iterate.simps [code]

lemma iterate_Inl: "step s = Inl s' \<Longrightarrow> iterate step s = iterate step s'"
  by (subst iterate.simps) simp

lemma iterate_Inr: "step s = Inr r \<Longrightarrow> iterate step s = Some r"
  by (subst iterate.simps) simp

lemma iterate_total:
  fixes m :: "'s \<Rightarrow> nat"
  assumes next_iteration: "\<And>s s'. I s \<Longrightarrow> step s = Inl s' \<Longrightarrow> I s' \<and> m s' < m s"
    and leave: "\<And>s r. I s \<Longrightarrow> step s = Inr r \<Longrightarrow> Q r"
    and start: "I s"
  shows "\<exists>r. iterate step s = Some r \<and> Q r"
  using start
proof (induction "m s" arbitrary: s rule: less_induct)
  case less
  show ?case
  proof (cases "step s")
    case (Inl s')
    then show ?thesis using next_iteration[OF less.prems Inl] less.hyps[of s'] by (simp add: iterate_Inl)
  next
    case (Inr r)
    then show ?thesis using leave[OF less.prems Inr] by (simp add: iterate_Inr)
  qed
qed

text \<open>What an invariant says of the result of a loop that ends.\<close>
lemma iterate_partial:
  assumes next_iteration: "\<And>s s'. I s \<Longrightarrow> step s = Inl s' \<Longrightarrow> I s'"
    and leave: "\<And>s r. I s \<Longrightarrow> step s = Inr r \<Longrightarrow> Q r"
    and "iterate (step :: 'a \<Rightarrow> 'a + 'b) s = Some r" "I s"
  shows "Q r"
proof -
  have "step = step \<longrightarrow> I s \<longrightarrow> Q r"
  proof (rule iterate.raw_induct[of "\<lambda>st s r. st = step \<longrightarrow> I s \<longrightarrow> Q r", OF _ assms(3)])
    fix it :: "('a \<Rightarrow> 'a + 'b) \<Rightarrow> 'a \<Rightarrow> 'b option" and st s r
    assume "\<And>st s r. it st s = Some r \<Longrightarrow> st = step \<longrightarrow> I s \<longrightarrow> Q r"
      "(case st s of Inl s' \<Rightarrow> it st s' | Inr r \<Rightarrow> Some r) = Some r"
    then show "st = step \<longrightarrow> I s \<longrightarrow> Q r" using next_iteration leave by (cases "step s") auto
  qed
  then show ?thesis using assms(4) by blast
qed

text \<open>Two loops in lock step.\<close>
lemma iterate_sim_Some:
  assumes sim: "\<And>s t. R s t \<Longrightarrow> rel_sum R (=) (f s) (g t)"
    and "iterate (f :: 'a \<Rightarrow> 'a + 'b) s = Some r" "R s t"
  shows "iterate g t = Some r"
proof -
  have "f = f \<longrightarrow> (\<forall>t. R s t \<longrightarrow> iterate g t = Some r)"
  proof (rule iterate.raw_induct[of "\<lambda>st s r. st = f \<longrightarrow> (\<forall>t. R s t \<longrightarrow> iterate g t = Some r)", OF _ assms(2)])
    fix it :: "('a \<Rightarrow> 'a + 'b) \<Rightarrow> 'a \<Rightarrow> 'b option" and st s r
    assume IH: "\<And>st s r. it st s = Some r \<Longrightarrow> st = f \<longrightarrow> (\<forall>t. R s t \<longrightarrow> iterate g t = Some r)"
      and step: "(case st s of Inl s' \<Rightarrow> it st s' | Inr r \<Rightarrow> Some r) = Some r"
    show "st = f \<longrightarrow> (\<forall>t. R s t \<longrightarrow> iterate g t = Some r)"
    proof (intro allI impI)
      fix t assume st: "st = f" and "R s t"
      from sim[OF this(2)] IH step show "iterate g t = Some r" unfolding st
        by (cases "f s"; cases "g t") (auto simp: iterate_Inl iterate_Inr)
    qed
  qed
  then show ?thesis using assms(3) by blast
qed

lemma iterate_sim:
  assumes sim: "\<And>s t. R s t \<Longrightarrow> rel_sum R (=) (f s) (g t)" and "R s t"
  shows "iterate f s = iterate g t"
proof -
  have "rel_sum (\<lambda>a b. R b a) (=) (g t) (f s)" if "R s t" for s t
    using sim[OF that] by (cases "f s"; cases "g t") auto
  then have "iterate g t = Some r \<Longrightarrow> iterate f s = Some r" for r
    using iterate_sim_Some[of "\<lambda>a b. R b a" g f t r s] assms(2) by blast
  moreover have "iterate f s = Some r \<Longrightarrow> iterate g t = Some r" for r
    using iterate_sim_Some[of R f g s r t] assms by blast
  ultimately show ?thesis by (cases "iterate f s"; cases "iterate g t") auto
qed

section \<open>Loops over a list whose body may panic\<close>

fun fold_outcome :: "('s \<Rightarrow> 'a \<Rightarrow> 's outcome) \<Rightarrow> 's \<Rightarrow> 'a list \<Rightarrow> 's outcome" where
  "fold_outcome f s [] = Returned s"
| "fold_outcome f s (x # xs) = bind_outcome (f s x) (\<lambda>s'. fold_outcome f s' xs)"

lemma fold_outcome_append:
  "fold_outcome f s (xs @ ys) = bind_outcome (fold_outcome f s xs) (\<lambda>s'. fold_outcome f s' ys)"
proof (induction xs arbitrary: s)
  case (Cons x xs)
  then show ?case by (cases "f s x") auto
qed simp

text \<open>A body that never panics and keeps a relation to the part of the list done.\<close>
lemma fold_outcome_returns:
  assumes "\<And>s x. I s \<Longrightarrow> x \<in> set xs \<Longrightarrow> \<exists>s'. f s x = Returned s' \<and> I s' \<and> v s' = step (v s) x" "I s"
  shows "\<exists>s'. fold_outcome f s xs = Returned s' \<and> I s' \<and> v s' = foldl step (v s) xs"
  using assms
proof (induction xs arbitrary: s)
  case (Cons x xs)
  obtain s1 where s1: "f s x = Returned s1" "I s1" "v s1 = step (v s) x"
    using Cons.prems(1)[of s x] Cons.prems(2) by auto
  then show ?case using Cons.IH[OF Cons.prems(1), of s1] by simp
qed simp

section \<open>Calls that may not return or may panic\<close>

definition and_then :: "'a outcome option \<Rightarrow> ('a \<Rightarrow> 'b outcome option) \<Rightarrow> 'b outcome option" where
  "and_then m f = (case m of None \<Rightarrow> None | Some Panicked \<Rightarrow> Some Panicked | Some (Returned x) \<Rightarrow> f x)"

lemma and_then_simps [simp]:
  "and_then (Some (Returned x)) f = f x" "and_then (Some Panicked) f = Some Panicked" "and_then None f = None"
  by (simp_all add: and_then_def)

lemma and_then_Returned: "and_then m f = Some (Returned y) \<longleftrightarrow> (\<exists>x. m = Some (Returned x) \<and> f x = Some (Returned y))"
  by (simp add: and_then_def split: option.split outcome.split)

text \<open>A loop over a list whose body is such a call.\<close>
fun fold_run :: "('s \<Rightarrow> 'a \<Rightarrow> 's outcome option) \<Rightarrow> 's \<Rightarrow> 'a list \<Rightarrow> 's outcome option" where
  "fold_run f s [] = Some (Returned s)"
| "fold_run f s (x # xs) = and_then (f s x) (\<lambda>s'. fold_run f s' xs)"

end
