(* ===== verification/Bfs_Levels.thy ===== *)
theory Bfs_Levels
  imports Main
begin

text \<open>
  What every breadth-first search of the crate keeps: a partial map from nodes to levels and a
  queue.  An edge \<open>(y, x)\<close> means that \<open>y\<close> is discovered from \<open>x\<close>; the distance of a node from
  the start is the least power of the edges that joins them.
\<close>

section \<open>The specification\<close>

definition hop_distance :: "('a \<times> 'a) set \<Rightarrow> 'a \<Rightarrow> 'a \<Rightarrow> nat \<Rightarrow> bool" where
  "hop_distance E x t n \<longleftrightarrow> (x, t) \<in> E ^^ n \<and> (\<forall>k<n. (x, t) \<notin> E ^^ k)"

lemma hop_distance_unique: "hop_distance E x t n \<Longrightarrow> hop_distance E x t m \<Longrightarrow> n = m"
  unfolding hop_distance_def by (metis nat_neq_iff)

lemma hop_distance_zero: "hop_distance E t t 0"
  by (simp add: hop_distance_def)

lemma hop_distance_zero_iff: "hop_distance E x t 0 \<longleftrightarrow> x = t"
  by (auto simp: hop_distance_def)

lemma hop_distance_least:
  assumes "(x, t) \<in> E ^^ n"
  shows "\<exists>m \<le> n. hop_distance E x t m"
proof (intro exI conjI)
  show "(LEAST k. (x, t) \<in> E ^^ k) \<le> n" using assms by (rule Least_le)
  show "hop_distance E x t (LEAST k. (x, t) \<in> E ^^ k)"
    unfolding hop_distance_def using LeastI[of "\<lambda>k. (x, t) \<in> E ^^ k", OF assms] not_less_Least by blast
qed

lemma relpow_front: "(x, t) \<in> E ^^ Suc n \<longleftrightarrow> (\<exists>y. (x, y) \<in> E \<and> (y, t) \<in> E ^^ n)"
  by (meson relpow_Suc_D2 relpow_Suc_I2)

lemma hop_distance_le_edges:
  assumes "hop_distance E x t n" "finite E"
  shows "n \<le> card E"
proof -
  have "(x, t) \<in> E\<^sup>*" using assms(1) relpow_imp_rtrancl by (auto simp: hop_distance_def)
  then obtain k where "k \<le> card E" "(x, t) \<in> E ^^ k"
    unfolding rtrancl_finite_eq_relpow[OF assms(2)] by auto
  then show ?thesis using assms(1) unfolding hop_distance_def by (meson le_trans not_less)
qed

text \<open>One lane changes a distance by at most one.\<close>
lemma hop_distance_step:
  assumes "(x, y) \<in> E" "hop_distance E y t n" "hop_distance E x t m"
  shows "m \<le> Suc n"
proof -
  have "(x, t) \<in> E ^^ Suc n" using assms(1,2) relpow_front unfolding hop_distance_def by metis
  then show ?thesis using assms(3) unfolding hop_distance_def by (meson not_less)
qed


section \<open>The invariant\<close>

text \<open>Assigned levels are least distances; the queue is ordered and spans at most two levels; what
  has left the queue has had its neighbours assigned; and every node up to the level of the head
  of the queue is assigned.\<close>
definition bfs_levels :: "('a \<times> 'a) set \<Rightarrow> 'a \<Rightarrow> ('a \<Rightarrow> nat option) \<Rightarrow> 'a list \<Rightarrow> bool" where
  "bfs_levels E t D q \<longleftrightarrow>
     D t = Some 0
     \<and> (\<forall>x m. D x = Some m \<longrightarrow> hop_distance E x t m)
     \<and> (\<forall>x \<in> set q. D x \<noteq> None)
     \<and> sorted (map (\<lambda>x. the (D x)) q)
     \<and> (\<forall>x \<in> set q. the (D x) \<le> Suc (the (D (hd q))))
     \<and> (\<forall>c p. D c \<noteq> None \<and> c \<notin> set q \<and> (p, c) \<in> E \<longrightarrow> D p \<noteq> None)
     \<and> (q \<noteq> [] \<longrightarrow> (\<forall>x m. hop_distance E x t m \<and> m \<le> the (D (hd q)) \<longrightarrow> D x \<noteq> None))"

lemma levels_start: "D = (\<lambda>y. if y = t then Some 0 else None) \<Longrightarrow> bfs_levels E t D [t]"
  by (auto simp: bfs_levels_def hop_distance_zero hop_distance_zero_iff)

lemma levels_full:
  "bfs_levels E t D (c # q) \<Longrightarrow> D c = Some m \<Longrightarrow> hop_distance E x t k \<Longrightarrow> k \<le> m \<Longrightarrow> D x \<noteq> None"
  unfolding bfs_levels_def by (metis list.distinct(1) list.sel(1) option.sel)

text \<open>A node discovered from the head is one level further.\<close>
lemma levels_new:
  assumes "bfs_levels E t D (c # q)" "D c = Some m" "(x, c) \<in> E" "D x = None"
  shows "hop_distance E x t (Suc m)"
proof -
  have "hop_distance E c t m" using assms(1,2) unfolding bfs_levels_def by blast
  then have "(x, t) \<in> E ^^ Suc m" using assms(3) relpow_front unfolding hop_distance_def by metis
  from hop_distance_least[OF this] obtain j where "j \<le> Suc m" "hop_distance E x t j" by blast
  moreover from this have "\<not> j \<le> m" using levels_full[OF assms(1,2)] assms(4) by blast
  ultimately show ?thesis by (simp add: le_Suc_eq)
qed

lemma levels_step:
  assumes inv: "bfs_levels E t D (c # q)" and m: "D c = Some m"
    and P: "set P = {p. (p, c) \<in> E \<and> D p = None}"
    and as: "\<And>y. D' y = (if D y = None \<and> (y, c) \<in> E then Some (Suc m) else D y)"
  shows "bfs_levels E t D' (q @ P)"
proof -
  note I = inv[unfolded bfs_levels_def list.sel]
  have t0: "D t = Some 0" using I by blast+
  have least: "hop_distance E x t k" if "D x = Some k" for x k using I that by blast
  have held: "D x \<noteq> None" if "x \<in> set q" for x using I that by auto
  have "sorted (map (\<lambda>x. the (D x)) (c # q))" using I by blast
  then have sorted: "sorted (map (\<lambda>x. the (D x)) q)"
    and above: "\<And>x. x \<in> set q \<Longrightarrow> m \<le> the (D x)" using m by auto
  have below: "the (D x) \<le> Suc m" if "x \<in> set q" for x using I m that by auto
  have closed: "D p \<noteq> None"
    if "D y \<noteq> None" "y \<notin> set (c # q)" "(p, y) \<in> E" for y p using I that by blast
  have full: "D x \<noteq> None" if "hop_distance E x t k" "k \<le> m" for x k
    using I m that by (metis list.distinct(1) option.sel)
  have old: "D y = Some k \<Longrightarrow> D' y = Some k" for y k by (simp add: as)
  have oldq: "x \<in> set q \<Longrightarrow> D' x = D x" for x
    using held[of x] by (simp add: as)
  have new: "x \<in> set P \<Longrightarrow> D' x = Some (Suc m)" for x using P by (simp add: as)
  have least': "hop_distance E x t k" if a: "D' x = Some k" for x k
  proof (cases "D x")
    case (Some j)
    then show ?thesis using a least as[of x] by simp
  next
    case None
    then have "(x, c) \<in> E" "k = Suc m" using a as[of x] by (auto split: if_splits)
    then show ?thesis using levels_new[OF inv m _ None] by simp
  qed
  have closed': "D' p \<noteq> None"
    if y: "D' y \<noteq> None" "y \<notin> set (q @ P)" "(p, y) \<in> E" for y p
  proof (cases "y = c")
    case True
    then show ?thesis using y(3) as[of p] by auto
  next
    case False
    have "D y \<noteq> None" using y(1,2) P as[of y] by (auto split: if_splits)
    then have "D p \<noteq> None" using closed[of y p] y False by simp
    then show ?thesis using as[of p] by simp
  qed
  let ?D = "\<lambda>x. the (D' x)"
  have D: "x \<in> set q \<Longrightarrow> ?D x = the (D x)" "x \<in> set P \<Longrightarrow> ?D x = Suc m" for x
    using oldq new by simp_all
  have mq: "map ?D q = map (\<lambda>x. the (D x)) q" using D(1) by simp
  have mp: "map ?D P = replicate (length P) (Suc m)" using D(2) by (simp add: map_replicate_const[symmetric])
  have sorted': "sorted (map ?D (q @ P))"
    unfolding map_append mq mp sorted_append using sorted below by auto
  have range: "x \<in> set (q @ P) \<Longrightarrow> m \<le> ?D x \<and> ?D x \<le> Suc m" for x
    using D above below by auto
  have full': "D' x \<noteq> None"
    if ne: "q @ P \<noteq> []" and x: "hop_distance E x t k" "k \<le> ?D (hd (q @ P))" for x k
  proof (cases "k \<le> m")
    case True
    then show ?thesis using full[OF x(1)] as[of x] by simp
  next
    case False
    then have k: "k = Suc m" and h: "?D (hd (q @ P)) = Suc m"
      using range[of "hd (q @ P)"] hd_in_set[OF ne] x(2) by auto
    have "(x, t) \<in> E ^^ Suc m" using x(1) k by (simp add: hop_distance_def)
    then obtain y where y: "(x, y) \<in> E" "(y, t) \<in> E ^^ m" using relpow_front by metis
    obtain j where j: "j \<le> m" "hop_distance E y t j" using hop_distance_least[OF y(2)] by blast
    have "hop_distance E x t (Suc m)" using x(1) k by simp
    from hop_distance_step[OF y(1) j(2) this] have "Suc m \<le> Suc j" .
    then have "hop_distance E y t m" using j by (simp add: le_antisym)
    then have ym: "hop_distance E y t m" .
    from full[OF ym order_refl] obtain i where i: "D y = Some i" by blast
    have "i = m" by (rule hop_distance_unique[OF least[OF i] ym])
    then have Dy: "D' y = Some m" using old[OF i] by simp
    have "y \<notin> set (q @ P)"
    proof
      assume "y \<in> set (q @ P)"
      then have "?D (hd (q @ P)) \<le> ?D y"
        using sorted' by (cases "q @ P") auto
      then show False using h Dy by simp
    qed
    then show ?thesis using closed'[of y x] Dy y(1) by simp
  qed
  show ?thesis
    unfolding bfs_levels_def
  proof (intro conjI allI ballI impI)
    fix x assume x: "x \<in> set (q @ P)"
    then show "D' x \<noteq> None" using oldq new held by (cases "x \<in> set q") auto
    have "q @ P \<noteq> []" using x by auto
    then show "?D x \<le> Suc (?D (hd (q @ P)))" using range[OF x] range[OF hd_in_set] by fastforce
  next
    fix y p assume "D' y \<noteq> None \<and> y \<notin> set (q @ P) \<and> (p, y) \<in> E"
    then show "D' p \<noteq> None" using closed' by blast
  next
    fix x k assume "q @ P \<noteq> []" "hop_distance E x t k \<and> k \<le> ?D (hd (q @ P))"
    then show "D' x \<noteq> None" using full' by blast
  qed (use sorted' in \<open>simp_all add: old[OF t0] least'\<close>)
qed

lemma levels_end:
  assumes "bfs_levels E t D []"
  shows "D x = Some m \<longleftrightarrow> hop_distance E x t m"
proof
  show "D x = Some m \<Longrightarrow> hop_distance E x t m"
    using assms by (simp add: bfs_levels_def)
  note I = assms[unfolded bfs_levels_def]
  have "D y \<noteq> None" if "(y, t) \<in> E ^^ k" for y k
    using that
  proof (induction k arbitrary: y)
    case 0
    then show ?case using I by simp
  next
    case (Suc k)
    then obtain z where "(y, z) \<in> E" "(z, t) \<in> E ^^ k" using relpow_front by metis
    then show ?case using Suc.IH[of z] I by (metis empty_iff empty_set)
  qed
  moreover assume m: "hop_distance E x t m"
  ultimately obtain j where j: "D x = Some j" unfolding hop_distance_def by blast
  then have "hop_distance E x t j" using I by blast
  from hop_distance_unique[OF this m] show "D x = Some m" using j by simp
qed

end
