(* ===== verification/Lane_Bfs.thy ===== *)
theory Lane_Bfs
  imports Rust_Vec Rust_Loop Bfs_Levels "HOL-Library.Multiset"
begin

text \<open>
  The breadth-first search of \<open>DistanceTable::new\<close> (\<open>primitives/distance.rs\<close>): hop counts to one
  target over the reversed lanes, kept in a vector of \<open>u32\<close> by the compact index of a location,
  with \<open>u32::MAX\<close> for a location not reached.  Its specification is the least length of a path
  of lanes, a power of the relation.
\<close>

abbreviation max_u32 :: u32 where "max_u32 \<equiv> 0xFFFFFFFF"

type_synonym bfs_state = "u32 list \<times> u64 list"

section \<open>The search\<close>

text \<open>The body of the loop over the predecessors of the current location.\<close>
definition bfs_visit :: "(u64 \<rightharpoonup> nat) \<Rightarrow> u32 \<Rightarrow> bfs_state \<Rightarrow> u64 \<Rightarrow> bfs_state outcome" where
  "bfs_visit loc_index current_dist = (\<lambda>(dist, queue) pred.
     bind_outcome (map_get loc_index pred) (\<lambda>pred_idx.
     bind_outcome (vec_get dist pred_idx) (\<lambda>d.
       if d = max_u32
       then bind_outcome (vec_set dist pred_idx (current_dist + 1)) (\<lambda>dist'. Returned (dist', queue @ [pred]))
       else Returned (dist, queue))))"

definition bfs_expand ::
  "(u64 \<rightharpoonup> u64 list) \<Rightarrow> (u64 \<rightharpoonup> nat) \<Rightarrow> u32 list \<Rightarrow> u64 \<Rightarrow> u64 list \<Rightarrow> bfs_state outcome" where
  "bfs_expand reverse_adj loc_index dist current queue =
     bind_outcome (map_get loc_index current) (\<lambda>current_idx.
     bind_outcome (vec_get dist current_idx) (\<lambda>current_dist.
       case reverse_adj current of
         None \<Rightarrow> Returned (dist, queue)
       | Some preds \<Rightarrow> fold_outcome (bfs_visit loc_index current_dist) (dist, queue) preds))"

definition bfs_step ::
  "(u64 \<rightharpoonup> u64 list) \<Rightarrow> (u64 \<rightharpoonup> nat) \<Rightarrow> bfs_state \<Rightarrow> bfs_state + u32 list outcome" where
  "bfs_step reverse_adj loc_index = (\<lambda>(dist, queue).
     case queue of
       [] \<Rightarrow> Inr (Returned dist)
     | current # rest \<Rightarrow>
         (case bfs_expand reverse_adj loc_index dist current rest of
            Panicked \<Rightarrow> Inr Panicked
          | Returned s \<Rightarrow> Inl s))"

definition bfs_from ::
  "(u64 \<rightharpoonup> u64 list) \<Rightarrow> (u64 \<rightharpoonup> nat) \<Rightarrow> nat \<Rightarrow> u64 \<Rightarrow> nat \<Rightarrow> u32 list outcome option" where
  "bfs_from reverse_adj loc_index n_loc target_enc target_idx =
     (case vec_set (replicate n_loc max_u32) target_idx 0 of
        Panicked \<Rightarrow> Some Panicked
      | Returned dist \<Rightarrow> iterate (bfs_step reverse_adj loc_index) (dist, [target_enc]))"

section \<open>Correctness\<close>

text \<open>The distance a vector of the search assigns to a location.\<close>
definition assigned :: "(u64 \<rightharpoonup> nat) \<Rightarrow> u32 list \<Rightarrow> u64 \<Rightarrow> nat option" where
  "assigned loc_index dist x =
     (case loc_index x of None \<Rightarrow> None
      | Some i \<Rightarrow> if dist ! i = max_u32 then None else Some (unat (dist ! i)))"

definition adj_edges :: "(u64 \<rightharpoonup> u64 list) \<Rightarrow> (u64 \<times> u64) set" where
  "adj_edges reverse_adj = {(p, c). \<exists>ps. reverse_adj c = Some ps \<and> p \<in> set ps}"

text \<open>A compact index: distinct numbers below \<open>n\<close> for the locations of a set.\<close>
definition compact :: "(u64 \<rightharpoonup> nat) \<Rightarrow> nat \<Rightarrow> bool" where
  "compact loc_index n \<longleftrightarrow> inj_on loc_index (dom loc_index) \<and> ran loc_index \<subseteq> {..<n}"

lemma compact_bound: "compact li n \<Longrightarrow> li x = Some i \<Longrightarrow> i < n"
  by (auto simp: compact_def ran_def)

lemma compact_inj: "compact li n \<Longrightarrow> li x = Some i \<Longrightarrow> li y = Some i \<Longrightarrow> x = y"
  by (auto simp: compact_def inj_on_def dom_def)

lemma assigned_set:
  assumes "compact li n" "length dist = n" "li x = Some i" "d \<noteq> max_u32"
  shows "assigned li (dist[i := d]) y = (if y = x then Some (unat d) else assigned li dist y)"
proof -
  have "li y \<noteq> Some i" if "y \<noteq> x" using compact_inj[OF assms(1,3)] that by auto
  then show ?thesis
    using assms compact_bound[OF assms(1,3)] by (auto simp: assigned_def nth_list_update split: option.splits)
qed

abbreviation unreached :: "u32 list \<Rightarrow> nat" where
  "unreached dist \<equiv> length (filter (\<lambda>d. d = max_u32) dist)"

lemma unreached_set:
  assumes "i < length dist" "dist ! i = max_u32" "d \<noteq> max_u32"
  shows "Suc (unreached (dist[i := d])) = unreached dist"
proof -
  have "mset (dist[i := d]) = add_mset d (mset dist - {#max_u32#})"
    using assms mset_update[of i dist d] by simp
  moreover have "unreached xs = size (filter_mset (\<lambda>d. d = max_u32) (mset xs))" for xs
    by (metis mset_filter size_mset)
  moreover have "max_u32 \<in># filter_mset (\<lambda>d. d = max_u32) (mset dist)"
    using assms(1,2) nth_mem[of i dist] by auto
  ultimately show ?thesis using assms(3) by (simp add: size_Suc_Diff1)
qed

lemma visit_fold:
  assumes "compact li n" "length dist = n" "set ps \<subseteq> dom li" "d + 1 \<noteq> max_u32"
  shows "\<exists>dist' P. fold_outcome (bfs_visit li d) (dist, q) ps = Returned (dist', q @ P)
    \<and> length dist' = n \<and> set P = {p \<in> set ps. assigned li dist p = None}
    \<and> (\<forall>y. assigned li dist' y = (if assigned li dist y = None \<and> y \<in> set ps then Some (unat (d + 1)) else assigned li dist y))
    \<and> length P + unreached dist' = unreached dist"
  using assms(2,3)
proof (induction ps arbitrary: dist q)
  case (Cons p ps)
  then obtain i where i: "li p = Some i" by auto
  have bound: "i < n" using compact_bound[OF assms(1) i] .
  show ?case
  proof (cases "dist ! i = max_u32")
    case False
    have "assigned li dist p \<noteq> None" using i False by (simp add: assigned_def)
    moreover have "bfs_visit li d (dist, q) p = Returned (dist, q)"
      using i bound False Cons.prems(1) by (simp add: bfs_visit_def)
    ultimately show ?thesis using Cons.IH[of dist q] Cons.prems by (fastforce split: if_splits)
  next
    case True
    let ?dist = "dist[i := d + 1]"
    have step: "bfs_visit li d (dist, q) p = Returned (?dist, q @ [p])"
      using i bound True Cons.prems(1) by (simp add: bfs_visit_def)
    have none: "assigned li dist p = None" using i True by (simp add: assigned_def)
    have set: "assigned li ?dist y = (if y = p then Some (unat (d + 1)) else assigned li dist y)" for y
      using assigned_set[OF assms(1) Cons.prems(1) i assms(4)] .
    from Cons.IH[of ?dist "q @ [p]"] Cons.prems obtain dist' P where IH:
      "fold_outcome (bfs_visit li d) (?dist, q @ [p]) ps = Returned (dist', (q @ [p]) @ P)"
      "length dist' = n" "set P = {x \<in> set ps. assigned li ?dist x = None}"
      "\<forall>y. assigned li dist' y = (if assigned li ?dist y = None \<and> y \<in> set ps then Some (unat (d + 1)) else assigned li ?dist y)"
      "length P + unreached dist' = unreached ?dist" by auto
    have "fold_outcome (bfs_visit li d) (dist, q) (p # ps) = Returned (dist', q @ (p # P))"
      using step IH(1) by simp
    moreover have "set (p # P) = {x \<in> set (p # ps). assigned li dist x = None}"
      using IH(3) set none by auto
    moreover have "\<forall>y. assigned li dist' y = (if assigned li dist y = None \<and> y \<in> set (p # ps) then Some (unat (d + 1)) else assigned li dist y)"
      using IH(4) set none by auto
    moreover have "length (p # P) + unreached dist' = unreached dist"
      using IH(5) unreached_set[of i dist "d + 1"] bound True assms(4) Cons.prems(1) by simp
    ultimately show ?thesis using IH(2) by blast
  qed
qed auto


definition bfs_ready :: "(u64 \<rightharpoonup> u64 list) \<Rightarrow> (u64 \<rightharpoonup> nat) \<Rightarrow> nat \<Rightarrow> bool" where
  "bfs_ready adj li n \<longleftrightarrow> compact li n \<and> Domain (adj_edges adj) \<subseteq> dom li
     \<and> finite (adj_edges adj) \<and> card (adj_edges adj) < 2 ^ 32 - 1"

definition bfs_inv :: "(u64 \<rightharpoonup> u64 list) \<Rightarrow> (u64 \<rightharpoonup> nat) \<Rightarrow> nat \<Rightarrow> u64 \<Rightarrow> bfs_state \<Rightarrow> bool" where
  "bfs_inv adj li n t = (\<lambda>(dist, q). length dist = n \<and> bfs_levels (adj_edges adj) t (assigned li dist) q)"

lemma bfs_expand_effect:
  assumes "bfs_ready adj li n" "length dist = n" "assigned li dist c = Some m"
    "hop_distance (adj_edges adj) c t m"
    "\<forall>x k. hop_distance (adj_edges adj) x t k \<and> k \<le> m \<longrightarrow> assigned li dist x \<noteq> None"
  shows "\<exists>dist' P. bfs_expand adj li dist c q = Returned (dist', q @ P) \<and> length dist' = n
    \<and> set P = {p. (p, c) \<in> adj_edges adj \<and> assigned li dist p = None}
    \<and> (\<forall>y. assigned li dist' y = (if assigned li dist y = None \<and> (y, c) \<in> adj_edges adj then Some (Suc m) else assigned li dist y))
    \<and> length P + unreached dist' = unreached dist"
proof -
  obtain i where i: "li c = Some i" "dist ! i \<noteq> max_u32" "m = unat (dist ! i)"
    using assms(3) by (auto simp: assigned_def split: option.splits if_splits)
  have bound: "i < n" using compact_bound i(1) assms(1) by (auto simp: bfs_ready_def)
  have expand: "bfs_expand adj li dist c q =
      (case adj c of None \<Rightarrow> Returned (dist, q) | Some preds \<Rightarrow> fold_outcome (bfs_visit li (dist ! i)) (dist, q) preds)"
    using i(1) bound assms(2) by (simp add: bfs_expand_def)
  show ?thesis
  proof (cases "\<exists>p. (p, c) \<in> adj_edges adj \<and> assigned li dist p = None")
    case False
    show ?thesis
    proof (cases "adj c")
      case None
      then show ?thesis using False expand assms(2) by (force simp: adj_edges_def)
    next
      case (Some ps)
      have ps: "p \<in> set ps \<Longrightarrow> assigned li dist p \<noteq> None" for p
        using False Some by (auto simp: adj_edges_def)
      have "bfs_visit li d (dist, q) p = Returned (dist, q)" if p: "p \<in> set ps" for d p
      proof -
        obtain j where j: "li p = Some j" "dist ! j \<noteq> max_u32"
          using ps[OF p] by (auto simp: assigned_def split: option.splits if_splits)
        moreover have "j < n" using compact_bound j(1) assms(1) by (auto simp: bfs_ready_def)
        ultimately show ?thesis using assms(2) by (simp add: bfs_visit_def)
      qed
      then have "fold_outcome (bfs_visit li d) (dist, q) ps = Returned (dist, q)" for d
        by (induction ps) auto
      then show ?thesis using False expand Some assms(2) by force
    qed
  next
    case True
    then obtain p ps where p: "(p, c) \<in> adj_edges adj" "assigned li dist p = None" "adj c = Some ps" "p \<in> set ps"
      by (auto simp: adj_edges_def)
    have "(p, t) \<in> adj_edges adj ^^ Suc m"
      using p(1) assms(4) relpow_front unfolding hop_distance_def by metis
    from hop_distance_least[OF this] obtain k where "k \<le> Suc m" "hop_distance (adj_edges adj) p t k" by blast
    moreover from this have "\<not> k \<le> m" using assms(5) p(2) by blast
    ultimately have "hop_distance (adj_edges adj) p t (Suc m)" by (simp add: le_Suc_eq)
    from hop_distance_le_edges[OF this] have "Suc m \<le> card (adj_edges adj)" using assms(1) by (simp add: bfs_ready_def)
    then have small: "Suc m < 2 ^ 32 - 1" using assms(1) by (simp add: bfs_ready_def)
    have u: "unat (dist ! i + 1) = Suc m"
      using small i(3) by (simp add: unat_word_ariths)
    have ne: "dist ! i + 1 \<noteq> max_u32"
    proof
      assume "dist ! i + 1 = max_u32"
      with u have "Suc m = unat max_u32" by (simp only:)
      then show False using small by simp
    qed
    have sub: "set ps \<subseteq> dom li" using assms(1) p(3) by (force simp: bfs_ready_def adj_edges_def)
    have cmp: "compact li n" using assms(1) by (simp add: bfs_ready_def)
    have edge: "x \<in> set ps \<longleftrightarrow> (x, c) \<in> adj_edges adj" for x using p(3) by (auto simp: adj_edges_def)
    obtain dist' P where V: "fold_outcome (bfs_visit li (dist ! i)) (dist, q) ps = Returned (dist', q @ P)"
      "length dist' = n" "set P = {p \<in> set ps. assigned li dist p = None}"
      "\<forall>y. assigned li dist' y = (if assigned li dist y = None \<and> y \<in> set ps then Some (unat (dist ! i + 1)) else assigned li dist y)"
      "length P + unreached dist' = unreached dist"
      using visit_fold[OF cmp assms(2) sub ne, of q] by blast
    have "bfs_expand adj li dist c q = Returned (dist', q @ P)" using expand p(3) V(1) by simp
    moreover have "set P = {p. (p, c) \<in> adj_edges adj \<and> assigned li dist p = None}" using V(3) edge by auto
    ultimately show ?thesis using V(2,4,5) unfolding u edge by blast
  qed
qed

lemma bfs_inv_step:
  assumes ready: "bfs_ready adj li n" and inv: "bfs_inv adj li n t (dist, c # q)"
  shows "\<exists>dist' P. bfs_step adj li (dist, c # q) = Inl (dist', q @ P) \<and> bfs_inv adj li n t (dist', q @ P)
    \<and> length P + unreached dist' = unreached dist"
proof -
  have len: "length dist = n" and lev: "bfs_levels (adj_edges adj) t (assigned li dist) (c # q)"
    using inv by (simp_all add: bfs_inv_def)
  obtain m where m: "assigned li dist c = Some m" using lev unfolding bfs_levels_def by auto
  have hc: "hop_distance (adj_edges adj) c t m" using lev m unfolding bfs_levels_def by blast
  have full: "\<forall>x k. hop_distance (adj_edges adj) x t k \<and> k \<le> m \<longrightarrow> assigned li dist x \<noteq> None"
    using levels_full[OF lev m] by blast
  from bfs_expand_effect[OF ready len m hc full, where q = q] obtain dist' P where
    ex: "bfs_expand adj li dist c q = Returned (dist', q @ P)" and len': "length dist' = n"
    and P: "set P = {p. (p, c) \<in> adj_edges adj \<and> assigned li dist p = None}"
    and as: "\<And>y. assigned li dist' y = (if assigned li dist y = None \<and> (y, c) \<in> adj_edges adj then Some (Suc m) else assigned li dist y)"
    and cnt: "length P + unreached dist' = unreached dist" by blast
  have "bfs_inv adj li n t (dist', q @ P)" using len' levels_step[OF lev m P as] by (simp add: bfs_inv_def)
  then show ?thesis using ex cnt by (simp add: bfs_step_def)
qed

lemma bfs_inv_end: "bfs_inv adj li n t (dist, []) \<Longrightarrow> assigned li dist x = Some m \<longleftrightarrow> hop_distance (adj_edges adj) x t m"
  using levels_end[of "adj_edges adj" t "assigned li dist"] by (simp add: bfs_inv_def)

lemma bfs_inv_start:
  assumes "bfs_ready adj li n" "li t = Some i"
  shows "bfs_inv adj li n t ((replicate n max_u32)[i := 0], [t])"
proof -
  have c: "compact li n" using assms(1) by (simp add: bfs_ready_def)
  have none: "assigned li (replicate n max_u32) y = None" for y
    using compact_bound[OF c] by (auto simp: assigned_def split: option.split)
  have "assigned li ((replicate n max_u32)[i := 0]) = (\<lambda>y. if y = t then Some 0 else None)"
    using assigned_set[OF c _ assms(2), of "replicate n max_u32" 0] none by auto
  from levels_start[OF this] show ?thesis by (simp add: bfs_inv_def)
qed

text \<open>The search ends, does not panic, and its vector holds the least hop counts.\<close>
lemma bfs_from_spec:
  assumes ready: "bfs_ready adj li n" and t: "li t = Some i"
  shows "\<exists>dist. bfs_from adj li n t i = Some (Returned dist) \<and> length dist = n
    \<and> (\<forall>x m. assigned li dist x = Some m \<longleftrightarrow> hop_distance (adj_edges adj) x t m)"
proof -
  have i: "i < n" using compact_bound t ready by (auto simp: bfs_ready_def)
  have "\<exists>r. iterate (bfs_step adj li) ((replicate n max_u32)[i := 0], [t]) = Some r
    \<and> (\<exists>dist. r = Returned dist \<and> bfs_inv adj li n t (dist, []))"
  proof (rule iterate_total[where I = "bfs_inv adj li n t" and m = "\<lambda>(dist, q). length q + unreached dist"])
    fix s s' assume I: "bfs_inv adj li n t s" and step: "bfs_step adj li s = Inl s'"
    obtain dist q where s: "s = (dist, q)" by (cases s)
    obtain c rest where q: "q = c # rest" using step s by (cases q) (auto simp: bfs_step_def)
    show "bfs_inv adj li n t s' \<and> (case s' of (dist, q) \<Rightarrow> length q + unreached dist) < (case s of (dist, q) \<Rightarrow> length q + unreached dist)"
      using bfs_inv_step[OF ready I[unfolded s q]] step[unfolded s q] by (auto simp: s q)
  next
    fix s r assume I: "bfs_inv adj li n t s" and step: "bfs_step adj li s = Inr r"
    obtain dist q where s: "s = (dist, q)" by (cases s)
    show "\<exists>dist. r = Returned dist \<and> bfs_inv adj li n t (dist, [])"
    proof (cases q)
      case Nil
      then show ?thesis using I step s by (auto simp: bfs_step_def)
    next
      case (Cons c rest)
      then show ?thesis using bfs_inv_step[OF ready I[unfolded s Cons]] step[unfolded s Cons] by auto
    qed
  qed (rule bfs_inv_start[OF ready t])
  then obtain dist where d: "iterate (bfs_step adj li) ((replicate n max_u32)[i := 0], [t]) = Some (Returned dist)"
    "bfs_inv adj li n t (dist, [])" by blast
  moreover have "length dist = n" using d(2) by (simp add: bfs_inv_def)
  ultimately show ?thesis using i bfs_inv_end[OF d(2)] by (simp add: bfs_from_def)
qed

end
