(* ===== verification/Distance.thy ===== *)
theory Distance
  imports Lane_Index Lane_Bfs
begin

text \<open>
  The table of lane-hop distances: \<open>DistanceTable\<close> of \<open>primitives/distance.rs\<close>.  The locations the
  lanes touch are interned into compact indices, one breadth-first search per target fills one
  column of a flat square array, and \<open>u32::MAX\<close> stands for no path.  The times of a table are
  computed in \<open>Time_Distance\<close>.

  The private vectors of a finished table are read with \<open>!\<close>: that the index is in range is the
  lemma \<open>table_read_in_range\<close>.
\<close>

record distance_table =
  dt_loc_index :: "u64 \<rightharpoonup> nat"
  dt_loc_by_index :: "u64 list"
  dt_flat :: "u32 list"
  dt_n_loc :: nat
  dt_targets :: "u64 list"
  dt_time_to :: "(u64 \<rightharpoonup> (u64 \<rightharpoonup> f64)) option"
  dt_fastest :: "f64 option"

section \<open>Construction\<close>

type_synonym interner = "(u64 \<rightharpoonup> nat) \<times> u64 list"

definition intern :: "interner \<Rightarrow> u64 \<Rightarrow> interner" where
  "intern = (\<lambda>(loc_index, loc_by_index) loc.
     if loc_index loc = None then (loc_index(loc \<mapsto> length loc_by_index), loc_by_index @ [loc])
     else (loc_index, loc_by_index))"

text \<open>The encoded endpoints of the lanes, in the order the bus groups are traversed.\<close>
definition index_hops :: "lane_index \<Rightarrow> (u64 \<times> u64) list" where
  "index_hops idx =
     concat (map (\<lambda>(mt, bus_id, zone_id, dir).
       List.map_filter (\<lambda>lane. map_option (\<lambda>(src, dst). (location_encode src, location_encode dst)) (index_endpoints idx lane))
         (lanes_for idx mt bus_id zone_id dir)) (bus_groups idx))"

definition add_hop :: "interner \<times> (u64 \<rightharpoonup> u64 list) \<Rightarrow> u64 \<times> u64 \<Rightarrow> interner \<times> (u64 \<rightharpoonup> u64 list)" where
  "add_hop = (\<lambda>(t, reverse_adj) (src_enc, dst_enc).
     (intern (intern t src_enc) dst_enc, push_map dst_enc src_enc reverse_adj))"

text \<open>\<open>sort_unstable\<close> followed by \<open>dedup\<close>.\<close>
definition unique_targets :: "u64 list \<Rightarrow> u64 list" where
  "unique_targets v = remdups_adj (sort v)"

definition store_column :: "nat \<Rightarrow> nat \<Rightarrow> u32 list \<Rightarrow> nat \<times> u32 \<Rightarrow> u32 list outcome" where
  "store_column n_loc target_idx flat = (\<lambda>(from_idx, d). vec_set flat (from_idx * n_loc + target_idx) d)"

definition fill_target ::
  "(u64 \<rightharpoonup> u64 list) \<Rightarrow> (u64 \<rightharpoonup> nat) \<Rightarrow> nat \<Rightarrow> u32 list \<Rightarrow> u64 \<Rightarrow> u32 list outcome option" where
  "fill_target reverse_adj loc_index n_loc flat target_enc =
     and_then (Some (map_get loc_index target_enc)) (\<lambda>target_idx.
     and_then (bfs_from reverse_adj loc_index n_loc target_enc target_idx) (\<lambda>dist.
       Some (fold_outcome (store_column n_loc target_idx) flat (enumerate 0 dist))))"

text \<open>\<open>loc_index.len()\<close> is the length of the vector of interned locations.\<close>
definition distance_table_new :: "u64 list \<Rightarrow> lane_index \<Rightarrow> distance_table outcome option" where
  "distance_table_new target_locations idx =
     (let targets = unique_targets target_locations;
          (t, reverse_adj) = foldl add_hop ((Map.empty, []), Map.empty) (index_hops idx);
          (loc_index, loc_by_index) = foldl intern t targets;
          n_loc = length loc_by_index
      in and_then (fold_run (fill_target reverse_adj loc_index n_loc) (replicate (n_loc * n_loc) max_u32) targets) (\<lambda>flat.
           Some (Returned \<lparr>dt_loc_index = loc_index, dt_loc_by_index = loc_by_index, dt_flat = flat,
             dt_n_loc = n_loc, dt_targets = targets, dt_time_to = None, dt_fastest = None\<rparr>)))"

section \<open>Lookups\<close>

definition table_distance :: "distance_table \<Rightarrow> u64 \<Rightarrow> u64 \<Rightarrow> u32 option" where
  "table_distance T from_encoded to_target_encoded =
     Option.bind (dt_loc_index T from_encoded) (\<lambda>from_idx.
     Option.bind (dt_loc_index T to_target_encoded) (\<lambda>to_idx.
       let d = dt_flat T ! (from_idx * dt_n_loc T + to_idx)
       in if d = max_u32 then None else Some d))"

text \<open>The calls \<open>for_each_source\<close> makes of its closure, in order.\<close>
definition for_each_source :: "distance_table \<Rightarrow> u64 \<Rightarrow> (u64 \<times> u32) list" where
  "for_each_source T target_encoded =
     (case dt_loc_index T target_encoded of
        None \<Rightarrow> []
      | Some to_idx \<Rightarrow>
          concat (map (\<lambda>from_idx.
            let d = dt_flat T ! (from_idx * dt_n_loc T + to_idx)
            in if d \<noteq> max_u32 then [(dt_loc_by_index T ! from_idx, d)] else []) [0..<dt_n_loc T]))"

definition time_distance :: "distance_table \<Rightarrow> u64 \<Rightarrow> u64 \<Rightarrow> f64 option" where
  "time_distance T from_encoded to_target_encoded =
     Option.bind (dt_time_to T) (\<lambda>m. Option.bind (m to_target_encoded) (\<lambda>d. d from_encoded))"

section \<open>The interned locations\<close>

definition interned :: "interner \<Rightarrow> bool" where
  "interned = (\<lambda>(li, locs). distinct locs \<and> (\<forall>x i. li x = Some i \<longleftrightarrow> i < length locs \<and> locs ! i = x))"

lemma interned_compact:
  assumes "interned (li, locs)"
  shows "compact li (length locs)"
proof -
  have at: "li x = Some i \<longleftrightarrow> i < length locs \<and> locs ! i = x" for x i
    using assms unfolding interned_def by blast
  have "inj_on li (dom li)"
  proof (rule inj_onI)
    fix x y assume "x \<in> dom li" "li x = li y"
    then obtain i where "li x = Some i" "li y = Some i" by (metis domD)
    then show "x = y" unfolding at by blast
  qed
  then show ?thesis by (auto simp: compact_def ran_def at)
qed

lemma interned_dom: "interned (li, locs) \<Longrightarrow> dom li = set locs"
  by (auto simp: interned_def dom_def in_set_conv_nth)

lemma intern_interned:
  assumes "interned t"
  shows "interned (intern t x) \<and> set (snd (intern t x)) = insert x (set (snd t))"
proof -
  obtain li locs where t: "t = (li, locs)" by (cases t)
  show ?thesis
  proof (cases "li x")
    case None
    then have "x \<notin> set locs" using interned_dom assms t by blast
    moreover have "li y = Some i \<longleftrightarrow> i < length locs \<and> locs ! i = y" for y i
      using assms t by (simp add: interned_def)
    ultimately show ?thesis
      using None assms t by (auto simp: intern_def interned_def nth_append less_Suc_eq dest: nth_mem)
  next
    case (Some i)
    then have "x \<in> set locs" using interned_dom assms t by blast
    then show ?thesis using Some assms t by (auto simp: intern_def)
  qed
qed

lemma intern_all: "interned t \<Longrightarrow> interned (foldl intern t xs) \<and> set (snd (foldl intern t xs)) = set (snd t) \<union> set xs"
  by (induction xs arbitrary: t) (use intern_interned in auto)

lemma add_hops:
  "interned (fst (foldl add_hop ((Map.empty, []), Map.empty) hs))
   \<and> set (snd (fst (foldl add_hop ((Map.empty, []), Map.empty) hs))) = fst ` set hs \<union> snd ` set hs
   \<and> adj_edges (snd (foldl add_hop ((Map.empty, []), Map.empty) hs)) = set hs"
proof (induction hs rule: rev_induct)
  case Nil
  then show ?case by (simp add: interned_def adj_edges_def)
next
  case (snoc h hs)
  obtain t adj where f: "foldl add_hop ((Map.empty, []), Map.empty) hs = (t, adj)" by (cases "foldl add_hop ((Map.empty, []), Map.empty) hs")
  obtain s d where h: "h = (s, d)" by (cases h)
  have t: "interned t" "set (snd t) = fst ` set hs \<union> snd ` set hs" "adj_edges adj = set hs" using snoc.IH f by auto
  have "adj_edges (push_map d s adj) = insert (s, d) (adj_edges adj)"
    by (auto simp: adj_edges_def push_map_def split: option.splits if_splits)
  moreover have "interned (intern (intern t s) d)" "set (snd (intern (intern t s) d)) = {s, d} \<union> set (snd t)"
    using intern_interned[OF t(1), of s] intern_interned[of "intern t s" d] by auto
  ultimately show ?case using f h t by (auto simp: add_hop_def)
qed


section \<open>The flat array\<close>

lemma cell_in_range: "i < n \<Longrightarrow> j < n \<Longrightarrow> i * n + j < n * (n :: nat)"
proof -
  assume "i < n" "j < n"
  then have "i * n + j < i * n + n" "Suc i * n \<le> n * n" by (simp, intro mult_le_mono1, simp)
  then show ?thesis by simp
qed

lemma cell_eq_iff: "j < n \<Longrightarrow> j' < n \<Longrightarrow> i * n + j = i' * n + j' \<longleftrightarrow> i = i' \<and> j = (j' :: nat)"
  by (metis div_mult_self3 div_less mod_less mod_mult_self3 add.right_neutral gr_zeroI not_less_zero)

lemma store_column_all:
  assumes "length flat = n * n" "ti < n" "k + length ds \<le> n"
  shows "\<exists>flat'. fold_outcome (store_column n ti) flat (enumerate k ds) = Returned flat' \<and> length flat' = n * n
    \<and> (\<forall>i<n. \<forall>j<n. flat' ! (i * n + j) =
         (if j = ti \<and> k \<le> i \<and> i < k + length ds then ds ! (i - k) else flat ! (i * n + j)))"
  using assms
proof (induction ds arbitrary: k flat)
  case (Cons d ds)
  let ?flat = "flat[k * n + ti := d]"
  have in_range: "k * n + ti < n * n" using cell_in_range[of k n ti] Cons.prems by simp
  have step: "store_column n ti flat (k, d) = Returned ?flat"
    using in_range Cons.prems(1) by (simp add: store_column_def)
  from Cons.IH[of ?flat "Suc k"] Cons.prems obtain flat' where IH:
    "fold_outcome (store_column n ti) ?flat (enumerate (Suc k) ds) = Returned flat'" "length flat' = n * n"
    "\<forall>i<n. \<forall>j<n. flat' ! (i * n + j) =
       (if j = ti \<and> Suc k \<le> i \<and> i < Suc k + length ds then ds ! (i - Suc k) else ?flat ! (i * n + j))" by auto
  have cell: "?flat ! (i * n + j) = (if i = k \<and> j = ti then d else flat ! (i * n + j))" if "i < n" "j < n" for i j
    using in_range Cons.prems(1,2) cell_eq_iff[OF that(2) Cons.prems(2), of i k] by (auto simp: nth_list_update)
  show ?case
  proof (intro exI conjI allI impI)
    show "fold_outcome (store_column n ti) flat (enumerate k (d # ds)) = Returned flat'"
      using step IH(1) by simp
    show "length flat' = n * n" by (rule IH(2))
    fix i j assume ij: "i < n" "j < n"
    have "(d # ds) ! (i - k) = ds ! (i - Suc k)" if "Suc k \<le> i" using that by (simp add: nth_Cons')
    then show "flat' ! (i * n + j) =
        (if j = ti \<and> k \<le> i \<and> i < k + length (d # ds) then (d # ds) ! (i - k) else flat ! (i * n + j))"
      using IH(3) ij cell[OF ij] by (auto simp: le_Suc_eq not_less_eq_eq)
  qed
qed auto

text \<open>The columns done so far hold the least hop counts, and the others are untouched.\<close>
definition filled :: "(u64 \<times> u64) set \<Rightarrow> (u64 \<rightharpoonup> nat) \<Rightarrow> nat \<Rightarrow> u64 set \<Rightarrow> u32 list \<Rightarrow> bool" where
  "filled E li n done_targets flat \<longleftrightarrow> length flat = n * n
     \<and> (\<forall>x t i j d. li x = Some i \<and> li t = Some j \<longrightarrow>
          (flat ! (i * n + j) \<noteq> max_u32 \<and> flat ! (i * n + j) = d
             \<longleftrightarrow> t \<in> done_targets \<and> d \<noteq> max_u32 \<and> hop_distance E x t (unat d)))"

lemma fill_target_step:
  assumes ready: "bfs_ready adj li n" and t: "li t = Some ti" and flat: "filled (adj_edges adj) li n D flat"
  shows "\<exists>flat'. fill_target adj li n flat t = Some (Returned flat') \<and> filled (adj_edges adj) li n (insert t D) flat'"
proof -
  have cmp: "compact li n" using ready by (simp add: bfs_ready_def)
  obtain dist where dist: "bfs_from adj li n t ti = Some (Returned dist)" "length dist = n"
    "\<And>x m. assigned li dist x = Some m \<longleftrightarrow> hop_distance (adj_edges adj) x t m"
    using bfs_from_spec[OF ready t] by blast
  have ti: "ti < n" using compact_bound[OF cmp t] .
  from flat have len: "length flat = n * n" by (simp add: filled_def)
  obtain flat' where f: "fold_outcome (store_column n ti) flat (enumerate 0 dist) = Returned flat'" "length flat' = n * n"
    "\<And>i j. i < n \<Longrightarrow> j < n \<Longrightarrow> flat' ! (i * n + j) = (if j = ti then dist ! i else flat ! (i * n + j))"
    using store_column_all[of flat n ti 0 dist] len ti dist(2) by auto
  have "filled (adj_edges adj) li n (insert t D) flat'"
    unfolding filled_def
  proof (intro conjI allI impI)
    fix x s i j d assume ij: "li x = Some i \<and> li s = Some j"
    then have b: "i < n" "j < n" using compact_bound[OF cmp] by blast+
    show "flat' ! (i * n + j) \<noteq> max_u32 \<and> flat' ! (i * n + j) = d
       \<longleftrightarrow> s \<in> insert t D \<and> d \<noteq> max_u32 \<and> hop_distance (adj_edges adj) x s (unat d)"
    proof (cases "j = ti")
      case True
      then have s: "s = t" using compact_inj[OF cmp, of s j t] ij t by simp
      have "hop_distance (adj_edges adj) x t (unat d) \<longleftrightarrow> dist ! i \<noteq> max_u32 \<and> dist ! i = d"
        unfolding dist(3)[symmetric] using ij by (simp add: assigned_def word_unat_eq_iff)
      then show ?thesis using f(3)[OF b] True unfolding s by auto
    next
      case False
      then have "s \<noteq> t" using ij t by auto
      then show ?thesis using f(3)[OF b] False flat ij unfolding filled_def by auto
    qed
  qed (rule f(2))
  then show ?thesis using t dist(1) f(1) by (simp add: fill_target_def)
qed

lemma fill_targets:
  assumes "bfs_ready adj li n" "set ts \<subseteq> dom li" "filled (adj_edges adj) li n D flat"
  shows "\<exists>flat'. fold_run (fill_target adj li n) flat ts = Some (Returned flat') \<and> filled (adj_edges adj) li n (D \<union> set ts) flat'"
  using assms(2,3)
proof (induction ts arbitrary: D flat)
  case (Cons t ts)
  then obtain i where "li t = Some i" by auto
  from fill_target_step[OF assms(1) this Cons.prems(2)] obtain flat1 where
    "fill_target adj li n flat t = Some (Returned flat1)" "filled (adj_edges adj) li n (insert t D) flat1" by blast
  then show ?case using Cons.IH[of "insert t D" flat1] Cons.prems(1) by simp
qed simp


section \<open>The table holds the least hop counts\<close>

definition hop_graph :: "lane_index \<Rightarrow> (u64 \<times> u64) set" where
  "hop_graph idx = set (index_hops idx)"

text \<open>What a table promises: its columns are the least hop counts to its targets.\<close>
definition table_exact :: "(u64 \<times> u64) set \<Rightarrow> u64 set \<Rightarrow> distance_table \<Rightarrow> bool" where
  "table_exact E targets T \<longleftrightarrow>
     (\<forall>x t d. table_distance T x t = Some d \<longleftrightarrow> t \<in> targets \<and> d \<noteq> max_u32 \<and> hop_distance E x t (unat d))"

definition table_wf :: "distance_table \<Rightarrow> bool" where
  "table_wf T \<longleftrightarrow> interned (dt_loc_index T, dt_loc_by_index T) \<and> dt_n_loc T = length (dt_loc_by_index T)
     \<and> length (dt_flat T) = dt_n_loc T * dt_n_loc T"

lemma table_read_in_range:
  assumes "table_wf T" "dt_loc_index T x = Some i" "dt_loc_index T t = Some j"
  shows "i * dt_n_loc T + j < length (dt_flat T)"
proof -
  have "i < dt_n_loc T" "j < dt_n_loc T"
    using assms compact_bound[OF interned_compact] by (auto simp: table_wf_def)
  then show ?thesis using assms(1) cell_in_range by (simp add: table_wf_def)
qed

lemma distance_table_new_exact:
  assumes small: "card (hop_graph idx) < 2 ^ 32 - 1"
  shows "\<exists>T. distance_table_new ts idx = Some (Returned T) \<and> table_wf T
    \<and> table_exact (hop_graph idx) (set ts) T \<and> dt_targets T = unique_targets ts
    \<and> dt_time_to T = None \<and> dt_fastest T = None"
proof -
  obtain t adj where f: "foldl add_hop ((Map.empty, []), Map.empty) (index_hops idx) = (t, adj)"
    by (cases "foldl add_hop ((Map.empty, []), Map.empty) (index_hops idx)")
  have t: "interned t" "set (snd t) = fst ` hop_graph idx \<union> snd ` hop_graph idx" "adj_edges adj = hop_graph idx"
    using add_hops[of "index_hops idx"] f by (auto simp: hop_graph_def)
  obtain li locs where g: "foldl intern t (unique_targets ts) = (li, locs)" by (cases "foldl intern t (unique_targets ts)")
  have targets: "set (unique_targets ts) = set ts" by (simp add: unique_targets_def)
  have i: "interned (li, locs)" "set locs = fst ` hop_graph idx \<union> snd ` hop_graph idx \<union> set ts"
    using intern_all[OF t(1), of "unique_targets ts"] g t(2) targets by auto
  let ?n = "length locs"
  have cmp: "compact li ?n" by (rule interned_compact[OF i(1)])
  have dom: "dom li = set locs" by (rule interned_dom[OF i(1)])
  have ready: "bfs_ready adj li ?n"
    using cmp small dom i(2) t(3) by (force simp: bfs_ready_def hop_graph_def)
  have "filled (adj_edges adj) li ?n {} (replicate (?n * ?n) max_u32)"
    using compact_bound[OF cmp] cell_in_range by (auto simp: filled_def)
  from fill_targets[OF ready _ this, of "unique_targets ts"] obtain flat where
    flat: "fold_run (fill_target adj li ?n) (replicate (?n * ?n) max_u32) (unique_targets ts) = Some (Returned flat)"
    "filled (adj_edges adj) li ?n (set ts) flat" using dom i(2) targets by auto
  define T where "T = \<lparr>dt_loc_index = li, dt_loc_by_index = locs, dt_flat = flat, dt_n_loc = ?n,
    dt_targets = unique_targets ts, dt_time_to = None, dt_fastest = None\<rparr>"
  have "table_wf T" using i(1) flat(2) by (simp add: table_wf_def T_def filled_def)
  moreover have "distance_table_new ts idx = Some (Returned T)"
    using f g flat(1) by (simp add: distance_table_new_def T_def Let_def)
  moreover have "table_exact (hop_graph idx) (set ts) T"
    unfolding table_exact_def
  proof (intro allI)
    fix x s d
    show "table_distance T x s = Some d \<longleftrightarrow> s \<in> set ts \<and> d \<noteq> max_u32 \<and> hop_distance (hop_graph idx) x s (unat d)"
    proof (cases "li x = None \<or> li s = None")
      case True
      have "\<not> (s \<in> set ts \<and> hop_distance (hop_graph idx) x s (unat d))"
      proof
        assume a: "s \<in> set ts \<and> hop_distance (hop_graph idx) x s (unat d)"
        then have "li s \<noteq> None" using dom i(2) by blast
        moreover have "x \<in> set locs"
        proof (cases "unat d")
          case 0
          then show ?thesis using a i(2) by (simp add: hop_distance_zero_iff)
        next
          case (Suc k)
          then have "(x, s) \<in> hop_graph idx ^^ Suc k" using a by (simp only: hop_distance_def)
          then obtain y where "(x, y) \<in> hop_graph idx" using relpow_front by metis
          then show ?thesis using i(2) by force
        qed
        ultimately show False using True dom by blast
      qed
      then show ?thesis using True by (auto simp: table_distance_def T_def)
    next
      case False
      then obtain i j where ij: "li x = Some i" "li s = Some j" by auto
      have "table_distance T x s = Some d \<longleftrightarrow> flat ! (i * ?n + j) \<noteq> max_u32 \<and> flat ! (i * ?n + j) = d"
        using ij by (auto simp: table_distance_def T_def Let_def)
      also have "\<dots> \<longleftrightarrow> s \<in> set ts \<and> d \<noteq> max_u32 \<and> hop_distance (hop_graph idx) x s (unat d)"
        using flat(2) ij unfolding filled_def t(3) by blast
      finally show ?thesis .
    qed
  qed
  ultimately show ?thesis by (auto simp: T_def)
qed


lemma hop_distance_LEAST: "hop_distance E x t n \<Longrightarrow> (LEAST k. (x, t) \<in> E ^^ k) = n"
  unfolding hop_distance_def by (rule Least_equality) (auto simp: not_less[symmetric])

lemma hop_distance_exists: "(x, t) \<in> E\<^sup>* \<longleftrightarrow> (\<exists>n. hop_distance E x t n)"
  using hop_distance_least[where x = x and t = t and E = E] by (auto simp: rtrancl_power hop_distance_def)

lemma finite_hop_graph [simp]: "finite (hop_graph idx)"
  by (simp add: hop_graph_def)

lemma table_exact_defined:
  assumes "table_exact E ts T" "finite E" "card E < 2 ^ 32 - 1" "t \<in> ts" "hop_distance E x t n"
  shows "table_distance T x t = Some (of_nat n) \<and> unat (of_nat n :: u32) = n"
proof -
  have n: "n < 2 ^ 32 - 1" using hop_distance_le_edges[OF assms(5,2)] assms(3) by simp
  then have u: "unat (of_nat n :: u32) = n" by (simp add: unsigned_of_nat take_bit_nat_eq_self)
  moreover have "(of_nat n :: u32) \<noteq> max_u32"
  proof
    assume "(of_nat n :: u32) = max_u32"
    then have "n = unat max_u32" using u by metis
    then show False using n by simp
  qed
  ultimately show ?thesis using assms(1,4,5) unfolding table_exact_def by metis
qed

text \<open>C16. Building the table ends without a panic, and the table answers with the least number
  of lanes from a location to a target, or with nothing when there is no path or the second
  location is not a target.\<close>
theorem distance_table_spec:
  assumes "card (hop_graph idx) < 2 ^ 32 - 1"
  shows "\<exists>T. distance_table_new ts idx = Some (Returned T)
    \<and> (\<lambda>(x, t). map_option unat (table_distance T x t))
      = (\<lambda>(x, t). if t \<in> set ts \<and> (x, t) \<in> (hop_graph idx)\<^sup>* then Some (LEAST n. (x, t) \<in> hop_graph idx ^^ n) else None)"
proof -
  obtain T where T: "distance_table_new ts idx = Some (Returned T)" "table_exact (hop_graph idx) (set ts) T"
    using distance_table_new_exact[OF assms, of ts] by blast
  have "map_option unat (table_distance T x t)
      = (if t \<in> set ts \<and> (x, t) \<in> (hop_graph idx)\<^sup>* then Some (LEAST n. (x, t) \<in> hop_graph idx ^^ n) else None)" for x t
  proof (cases "t \<in> set ts \<and> (x, t) \<in> (hop_graph idx)\<^sup>*")
    case True
    then obtain n where n: "hop_distance (hop_graph idx) x t n" using hop_distance_exists by metis
    then show ?thesis
      using True table_exact_defined[OF T(2) finite_hop_graph assms _ n] hop_distance_LEAST[OF n] by simp
  next
    case False
    then have "table_distance T x t = None"
      using T(2) hop_distance_exists[of x t "hop_graph idx"] unfolding table_exact_def by (metis not_None_eq)
    then show ?thesis using False by simp
  qed
  then show ?thesis using T(1) by auto
qed

text \<open>The hops of an index built for an architecture.\<close>
lemma hop_graph_iff:
  "h \<in> hop_graph idx \<longleftrightarrow> (\<exists>mt b z d. (mt, b, z, d) \<in> set (bus_groups idx) \<and> (\<exists>l \<in> set (lanes_for idx mt b z d).
     \<exists>s t. index_endpoints idx l = Some (s, t) \<and> h = (location_encode s, location_encode t)))"
  (is "?L \<longleftrightarrow> ?R")
proof
  assume ?R
  then obtain mt b z d l s t where g: "(mt, b, z, d) \<in> set (bus_groups idx)" and l: "l \<in> set (lanes_for idx mt b z d)"
    "index_endpoints idx l = Some (s, t)" "h = (location_encode s, location_encode t)" by blast
  have "h \<in> set (List.map_filter (\<lambda>lane. map_option (\<lambda>(src, dst). (location_encode src, location_encode dst))
      (index_endpoints idx lane)) (lanes_for idx mt b z d))"
    using l by (auto simp: List.map_filter_def intro!: image_eqI[of _ _ l])
  then show ?L by (auto simp: hop_graph_def index_hops_def intro!: bexI[OF _ g])
next
  assume ?L
  then show ?R unfolding hop_graph_def index_hops_def List.map_filter_def by auto blast
qed

lemma hop_graph_arch:
  assumes "arch_fits a" "rearranges order"
  shows "hop_graph (lane_index_new order cbrt a)
    = {(location_encode s, location_encode d) | s d l. lane_move_type l \<noteq> ZoneBus \<and> lane_endpoints a l = Some (s, d)}"
    (is "?L = ?R")
proof (intro set_eqI)
  fix h
  let ?idx = "lane_index_new order cbrt a"
  have ep: "index_endpoints ?idx l = lane_endpoints a l" if "l \<in> set (registered_lanes a)" for l
    using index_endpoints_spec[OF assms(1) registered_fits[OF assms(1) that]] registered_lanes_sub[OF that] by simp
  have "h \<in> ?L \<longleftrightarrow> (\<exists>l \<in> set (registered_lanes a). \<exists>s t. index_endpoints ?idx l = Some (s, t)
      \<and> h = (location_encode s, location_encode t))" (is "_ \<longleftrightarrow> ?M")
  proof
    assume ?M
    then obtain l s t where l: "l \<in> set (registered_lanes a)" "index_endpoints ?idx l = Some (s, t)"
      "h = (location_encode s, location_encode t)" by blast
    have "lane_key l \<in> set (bus_groups ?idx)" using l(1) bus_groups_set[OF assms(2)] by blast
    moreover have "l \<in> set (lanes_for ?idx (lane_move_type l) (lane_bus_id l) (lane_zone_id l) (lane_direction l))"
      using l(1) by (simp add: lanes_for_all[OF assms(2)] lane_key_def)
    ultimately show "h \<in> ?L" unfolding hop_graph_iff lane_key_def using l(2,3) by blast
  qed (auto simp: hop_graph_iff lanes_for_all[OF assms(2)])
  also have "\<dots> \<longleftrightarrow> (\<exists>l \<in> set (registered_lanes a). \<exists>s t. lane_endpoints a l = Some (s, t)
      \<and> h = (location_encode s, location_encode t))" using ep by auto
  also have "\<dots> \<longleftrightarrow> h \<in> ?R" unfolding registered_lanes_set[OF assms(1)] by auto
  finally show "h \<in> ?L \<longleftrightarrow> h \<in> ?R" .
qed


lemma card_hop_graph:
  assumes "arch_fits a" "rearranges order"
  shows "card (hop_graph (lane_index_new order cbrt a)) \<le> length (candidate_lanes a)"
proof -
  let ?f = "\<lambda>l. case the (lane_endpoints a l) of (s, d) \<Rightarrow> (location_encode s, location_encode d)"
  have "hop_graph (lane_index_new order cbrt a) \<subseteq> ?f ` set (registered_lanes a)"
    unfolding hop_graph_arch[OF assms] registered_lanes_set[OF assms(1)] by force
  then have "card (hop_graph (lane_index_new order cbrt a)) \<le> card (?f ` set (registered_lanes a))"
    by (rule card_mono[rotated]) simp
  also have "\<dots> \<le> card (set (registered_lanes a))" by (rule card_image_le) simp
  also have "\<dots> \<le> length (registered_lanes a)" by (rule card_length)
  also have "\<dots> \<le> length (candidate_lanes a)" by (simp add: registered_lanes_def)
  finally show ?thesis .
qed

section \<open>On the example architecture\<close>

abbreviation example_index :: lane_index where
  "example_index \<equiv> lane_index_new rev fsqrt example_arch"

lemma example_candidates: "length (candidate_lanes example_arch) = 6"
  by code_simp

lemma example_hops_small: "card (hop_graph example_index) < 2 ^ 32 - 1"
  using card_hop_graph[OF example_fits rearranges_rev, of fsqrt] example_candidates by simp

text \<open>The lane between the two sites of the second word, there and back.\<close>
theorem distance_table_spec_witness:
  "\<exists>T. distance_table_new [location_encode \<lparr>loc_zone_id = 0, loc_word_id = 1, loc_site_id = 0\<rparr>] example_index = Some (Returned T)
     \<and> map_option unat (table_distance T (location_encode \<lparr>loc_zone_id = 0, loc_word_id = 1, loc_site_id = 1\<rparr>)
         (location_encode \<lparr>loc_zone_id = 0, loc_word_id = 1, loc_site_id = 0\<rparr>)) = Some 1"
    (is "\<exists>T. distance_table_new [?t] _ = _ \<and> map_option unat (table_distance T ?x ?t) = _")
proof -
  obtain T where T: "distance_table_new [?t] example_index = Some (Returned T)"
    "(\<lambda>(x, t). map_option unat (table_distance T x t))
      = (\<lambda>(x, t). if t \<in> set [?t] \<and> (x, t) \<in> (hop_graph example_index)\<^sup>* then Some (LEAST n. (x, t) \<in> hop_graph example_index ^^ n) else None)"
    using distance_table_spec[OF example_hops_small, of "[?t]"] by blast
  have e: "(?x, ?t) \<in> hop_graph example_index"
    unfolding hop_graph_arch[OF example_fits rearranges_rev]
    using index_lane_endpoints by (force simp: index_lane_def)
  have "?x \<noteq> ?t" by code_simp
  then have "hop_distance (hop_graph example_index) ?x ?t 1"
    using e by (simp add: hop_distance_def)
  from hop_distance_LEAST[OF this] have "map_option unat (table_distance T ?x ?t) = Some 1"
    using fun_cong[OF T(2), of "(?x, ?t)"] e by (simp add: r_into_rtrancl)
  then show ?thesis using T(1) by blast
qed

end
