(* ===== verification/Config.thy ===== *)
theory Config
  imports Addr Rust_Seq
begin

text \<open>
  Configurations of qubit positions: \<open>primitives/config.rs\<close> of the search crate.  A
  configuration is a vector of pairs of a qubit and an encoded location, sorted by qubit, with the
  hash of the vector beside it.  Equality looks at the entries and the \<open>Hash\<close> instance at the
  cached hash alone, so the transposition tables of the searches rest on the invariant
  \<open>config_wf\<close>.
\<close>

type_synonym config_entries = "(u32 \<times> u64) list"

record config =
  entries :: config_entries
  cached_hash :: u64

section \<open>Operations\<close>

text \<open>FNV-1a over the entries.\<close>
definition hash_entries :: "config_entries \<Rightarrow> u64" where
  "hash_entries es =
     foldl (\<lambda>h (qid, loc). ((h XOR ucast qid) * 0x100000001b3 XOR loc) * 0x100000001b3) 0xcbf29ce484222325 es"

text \<open>The error is the qubit that appears more than once.\<close>
fun adjacent_duplicate :: "config_entries \<Rightarrow> u32 option" where
  "adjacent_duplicate (a # b # es) = (if fst a = fst b then Some (fst a) else adjacent_duplicate (b # es))"
| "adjacent_duplicate es = None"

definition config_new :: "(u32 \<times> location_addr) list \<Rightarrow> u32 + config" where
  "config_new pairs =
     (let es = sort_key fst (map (\<lambda>(qid, loc). (qid, location_encode loc)) pairs)
      in case adjacent_duplicate es of
           Some qid \<Rightarrow> Inl qid
         | None \<Rightarrow> Inr \<lparr>entries = es, cached_hash = hash_entries es\<rparr>)"

definition config_len :: "config \<Rightarrow> nat" where "config_len c = length (entries c)"

definition location_of :: "config \<Rightarrow> u32 \<Rightarrow> location_addr option" where
  "location_of c qubit_id =
     map_option (\<lambda>i. location_decode (snd (entries c ! i))) (binary_search fst (entries c) qubit_id)"

definition qubit_at :: "config \<Rightarrow> location_addr \<Rightarrow> u32 option" where
  "qubit_at c loc = map_option fst (find (\<lambda>(qid, eloc). eloc = location_encode loc) (entries c))"

definition is_occupied :: "config \<Rightarrow> location_addr \<Rightarrow> bool" where
  "is_occupied c loc \<longleftrightarrow> list_ex (\<lambda>(qid, eloc). eloc = location_encode loc) (entries c)"

text \<open>\<open>collect\<close> into a map: a later entry replaces an earlier one.\<close>
definition location_to_qubit_map :: "config \<Rightarrow> (u64 \<rightharpoonup> u32)" where
  "location_to_qubit_map c = foldl (\<lambda>m (qid, eloc). m(eloc \<mapsto> qid)) Map.empty (entries c)"

definition config_iter :: "config \<Rightarrow> (u32 \<times> location_addr) list" where
  "config_iter c = map (\<lambda>(qid, eloc). (qid, location_decode eloc)) (entries c)"

definition with_move :: "config_entries \<Rightarrow> u32 \<times> location_addr \<Rightarrow> config_entries" where
  "with_move es m =
     (case binary_search fst es (fst m) of
        None \<Rightarrow> es | Some i \<Rightarrow> es[i := (fst (es ! i), location_encode (snd m))])"

definition with_moves :: "config \<Rightarrow> (u32 \<times> location_addr) list \<Rightarrow> config" where
  "with_moves c moves =
     (let es = foldl with_move (entries c) moves in \<lparr>entries = es, cached_hash = hash_entries es\<rparr>)"

definition config_eq :: "config \<Rightarrow> config \<Rightarrow> bool" where
  "config_eq c d \<longleftrightarrow> entries c = entries d"

section \<open>The invariant\<close>

definition config_wf :: "config \<Rightarrow> bool" where
  "config_wf c \<longleftrightarrow> sorted (map fst (entries c)) \<and> distinct (map fst (entries c))
     \<and> cached_hash c = hash_entries (entries c)"

text \<open>The abstract value: where each qubit is, as the encoded location.\<close>
definition config_map :: "config \<Rightarrow> (u32 \<rightharpoonup> u64)" where
  "config_map c = map_of (entries c)"

lemma adjacent_duplicate_None:
  "sorted (map fst es) \<Longrightarrow> adjacent_duplicate es = None \<longleftrightarrow> distinct (map fst es)"
proof (induction es rule: adjacent_duplicate.induct)
  case (1 a b es)
  then show ?case by auto
qed auto

lemma adjacent_duplicate_Some:
  "adjacent_duplicate es = Some q \<Longrightarrow> \<exists>i j. i < j \<and> j < length es \<and> fst (es ! i) = q \<and> fst (es ! j) = q"
proof (induction es rule: adjacent_duplicate.induct)
  case (1 a b es)
  show ?case
  proof (cases "fst a = fst b")
    case True
    then show ?thesis using 1 by (intro exI[of _ 0] exI[of _ 1]) simp
  next
    case False
    then obtain i j where "i < j" "j < length (b # es)" "fst ((b # es) ! i) = q" "fst ((b # es) ! j) = q"
      using 1 by auto
    then show ?thesis by (intro exI[of _ "Suc i"] exI[of _ "Suc j"]) simp
  qed
qed auto

lemma location_of_map: "config_wf c \<Longrightarrow> location_of c q = map_option location_decode (config_map c q)"
proof -
  have "location_of c q =
      map_option location_decode (map_option (\<lambda>i. snd (entries c ! i)) (binary_search fst (entries c) q))"
    by (simp add: location_of_def option.map_comp comp_def)
  then show "config_wf c \<Longrightarrow> ?thesis"
    using binary_search_map_of[of "entries c" q] by (simp add: config_wf_def config_map_def)
qed

lemma with_move_keys [simp]: "map fst (with_move es m) = map fst es"
proof -
  have "map fst (es[i := (fst (es ! i), v)]) = map fst es" for i v
    by (cases "i < length es") (simp_all add: map_update list_update_same_conv list_update_beyond)
  then show ?thesis by (simp add: with_move_def split: option.split)
qed

lemma with_moves_keys [simp]: "map fst (entries (with_moves c moves)) = map fst (entries c)"
proof -
  have "map fst (foldl with_move es moves) = map fst es" for es
    by (induction moves arbitrary: es) auto
  then show ?thesis by (simp add: with_moves_def Let_def)
qed

lemma with_moves_wf: "config_wf c \<Longrightarrow> config_wf (with_moves c moves)"
proof -
  have "cached_hash (with_moves c moves) = hash_entries (entries (with_moves c moves))"
    by (simp add: with_moves_def Let_def)
  then show "config_wf c \<Longrightarrow> ?thesis" unfolding config_wf_def with_moves_keys by simp
qed

lemma with_move_map:
  assumes "sorted (map fst es)" "distinct (map fst es)"
  shows "map_of (with_move es (q, l)) =
    (if q \<in> fst ` set es then (map_of es)(q \<mapsto> location_encode l) else map_of es)"
proof (cases "binary_search fst es q")
  case None
  then have "q \<notin> fst ` set es"
    using binary_search_Some_iff[OF assms, of q] by (force simp: in_set_conv_nth)
  with None show ?thesis by (simp add: with_move_def)
next
  case (Some i)
  then have i: "i < length es" "fst (es ! i) = q" using binary_search_Some_iff[OF assms] by blast+
  then have "q \<in> fst ` set es" by (metis image_eqI nth_mem)
  then show ?thesis using map_of_update_nth[OF assms(2) i(1)] by (simp add: Some i(2) with_move_def)
qed

lemma with_moves_map:
  assumes "config_wf c"
  shows "config_map (with_moves c moves) =
    (\<lambda>q. if q \<in> dom (config_map c) then
           (case map_of (rev moves) q of Some l \<Rightarrow> Some (location_encode l) | None \<Rightarrow> config_map c q)
         else None)"
proof -
  have "map_of (foldl with_move es moves) =
      (\<lambda>q. if q \<in> fst ` set es then
           (case map_of (rev moves) q of Some l \<Rightarrow> Some (location_encode l) | None \<Rightarrow> map_of es q) else None)"
    if "sorted (map fst es)" "distinct (map fst es)" for es
    using that
  proof (induction moves arbitrary: es)
    case Nil
    then show ?case by (auto simp: fun_eq_iff map_of_eq_None_iff split: option.split)
  next
    case (Cons m moves)
    obtain q l where m: "m = (q, l)" by force
    have keys: "fst ` set (with_move es m) = fst ` set es"
      using with_move_keys[of es m] by (metis list.set_map)
    show ?case
    proof
      fix x
      have "map_of (foldl with_move es (m # moves)) x =
          (if x \<in> fst ` set es then
             (case map_of (rev moves) x of Some l \<Rightarrow> Some (location_encode l) | None \<Rightarrow> map_of (with_move es m) x)
           else None)"
        using fun_cong[OF Cons.IH[of "with_move es m"], of x] Cons.prems by (simp add: keys)
      then show "map_of (foldl with_move es (m # moves)) x =
          (if x \<in> fst ` set es then
             (case map_of (rev (m # moves)) x of Some l \<Rightarrow> Some (location_encode l) | None \<Rightarrow> map_of es x)
           else None)"
        using fun_cong[OF with_move_map[OF Cons.prems, of q l], of x] by (simp add: m map_add_def split: option.split)
    qed
  qed
  from this[of "entries c"] assms show ?thesis
    unfolding config_map_def by (simp add: config_wf_def with_moves_def Let_def dom_map_of_conv_image_fst)
qed

section \<open>Construction\<close>

definition encoded_pairs :: "(u32 \<times> location_addr) list \<Rightarrow> config_entries" where
  "encoded_pairs pairs = map (\<lambda>(qid, loc). (qid, location_encode loc)) pairs"

lemma encoded_keys [simp]: "map fst (encoded_pairs ps) = map fst ps"
  by (induction ps) (auto simp: encoded_pairs_def)

lemma map_of_encoded: "map_of (encoded_pairs ps) q = map_option location_encode (map_of ps q)"
  by (induction ps) (auto simp: encoded_pairs_def)

lemma map_sort_key: "map f (sort_key f xs) = sort (map f xs)"
  by (intro properties_for_sort[symmetric]) (simp_all add: mset_map)

lemma config_new_cases:
  "config_new ps = (if distinct (map fst ps)
     then let es = sort_key fst (encoded_pairs ps) in Inr \<lparr>entries = es, cached_hash = hash_entries es\<rparr>
     else Inl (the (adjacent_duplicate (sort_key fst (encoded_pairs ps)))))"
proof -
  let ?es = "sort_key fst (encoded_pairs ps)"
  have "distinct (map fst ?es) \<longleftrightarrow> distinct (map fst ps)" by (simp add: map_sort_key)
  then have "adjacent_duplicate ?es = None \<longleftrightarrow> distinct (map fst ps)"
    using adjacent_duplicate_None[of ?es] by simp
  then show ?thesis
    by (auto simp: config_new_def Let_def simp flip: encoded_pairs_def split: option.split)
qed

text \<open>The duplicate found depends on the multiset of the keys alone.\<close>
lemma adjacent_duplicate_keys: "map fst es = map fst es' \<Longrightarrow> adjacent_duplicate es = adjacent_duplicate es'"
proof (induction es arbitrary: es' rule: adjacent_duplicate.induct)
  case (1 a b es)
  then obtain a' b' r where "es' = a' # b' # r" "fst a' = fst a" "fst b' = fst b" "map fst r = map fst es"
    by (auto simp: map_eq_Cons_conv Cons_eq_map_conv)
  with 1 show ?case by simp
qed (auto simp: map_eq_Cons_conv Cons_eq_map_conv)

lemma config_new_wf: "config_new ps = Inr c \<Longrightarrow> config_wf c \<and> distinct (map fst ps)
    \<and> (\<forall>q. config_map c q = map_option location_encode (map_of ps q))"
proof -
  let ?es = "sort_key fst (encoded_pairs ps)"
  assume c: "config_new ps = Inr c"
  then have d: "distinct (map fst ps)" by (simp add: config_new_cases Let_def split: if_splits)
  then have ces: "entries c = ?es" "cached_hash c = hash_entries ?es"
    using c by (auto simp: config_new_cases Let_def)
  have de: "distinct (map fst ?es)" using d by (simp add: map_sort_key)
  have "map_of ?es = map_of (encoded_pairs ps)"
    using de d by (intro map_of_inject_set[THEN iffD2]) simp_all
  then show ?thesis
    using d de ces by (simp add: config_wf_def config_map_def map_of_encoded)
qed

lemma two_of_count_list: "i < j \<Longrightarrow> j < length xs \<Longrightarrow> xs ! i = x \<Longrightarrow> xs ! j = x \<Longrightarrow> 2 \<le> count_list xs x"
proof (induction xs arbitrary: i j)
  case (Cons y xs)
  then obtain j' where j: "j = Suc j'" by (cases j) auto
  show ?case
  proof (cases i)
    case 0
    then have "x \<in> set xs" using Cons.prems j by auto
    then have "count_list xs x \<noteq> 0" by (simp add: count_list_0_iff)
    then show ?thesis using 0 Cons.prems by simp
  next
    case (Suc i')
    then have "2 \<le> count_list xs x" using Cons.IH[of i' j'] Cons.prems j by simp
    then show ?thesis by simp
  qed
qed simp

section \<open>Properties\<close>

text \<open>C25. A configuration is canonical: the pairs are accepted in any order with the same result, an
  error names a qubit that occurs twice, and otherwise the entries are sorted with distinct qubits,
  hold the given locations, and carry their hash; so two configurations that are equal hash alike.\<close>
theorem config_new_canonical:
  assumes "mset ps = mset qs"
  shows "config_new ps = config_new qs
    \<and> (case config_new ps of
         Inl q \<Rightarrow> 2 \<le> count_list (map fst ps) q
       | Inr c \<Rightarrow> config_wf c \<and> distinct (map fst ps)
           \<and> (\<forall>q. location_of c q = map_option loc_norm (map_of ps q)))"
proof
  let ?e = encoded_pairs
  have keys: "mset (map fst ps) = mset (map fst qs)" using assms by simp
  then have sortk: "map fst (sort_key fst (?e ps)) = map fst (sort_key fst (?e qs))"
    unfolding map_sort_key encoded_keys by (metis properties_for_sort mset_sort sorted_sort)
  have dist: "distinct (map fst ps) \<longleftrightarrow> distinct (map fst qs)" using keys by (metis mset_eq_imp_distinct_iff)
  show "config_new ps = config_new qs"
  proof (cases "distinct (map fst ps)")
    case True
    have "mset (?e ps) = mset (?e qs)" using assms by (simp add: encoded_pairs_def)
    then have "set (sort_key fst (?e ps)) = set (sort_key fst (?e qs))" by (metis mset_eq_setD set_sort)
    moreover have "distinct (map fst (sort_key fst (?e ps)))" "distinct (map fst (sort_key fst (?e qs)))"
      using True dist by (simp_all only: map_sort_key encoded_keys distinct_sort)
    moreover from this(2) have "inj_on fst (set (sort_key fst (?e qs)))" by (simp only: distinct_map)
    ultimately have "sort_key fst (?e ps) = sort_key fst (?e qs)"
      by (intro map_sorted_distinct_set_unique[where f = fst]) (simp_all add: map_sort_key distinct_map)
    then show ?thesis using dist by (simp add: config_new_cases)
  next
    case False
    then show ?thesis using dist adjacent_duplicate_keys[OF sortk] by (simp add: config_new_cases)
  qed
  show "case config_new ps of
         Inl q \<Rightarrow> 2 \<le> count_list (map fst ps) q
       | Inr c \<Rightarrow> config_wf c \<and> distinct (map fst ps)
           \<and> (\<forall>q. location_of c q = map_option loc_norm (map_of ps q))"
  proof (cases "config_new ps")
    case (Inr c)
    then show ?thesis
      using config_new_wf[OF Inr]
      by (simp add: location_of_map option.map_comp comp_def location_decode_encode)
  next
    case (Inl q)
    then have "adjacent_duplicate (sort_key fst (?e ps)) = Some q"
      by (auto simp: config_new_def Let_def simp flip: encoded_pairs_def split: option.splits)
    then have "2 \<le> count_list (map fst (sort_key fst (?e ps))) q"
      using adjacent_duplicate_Some[of "sort_key fst (?e ps)" q] two_of_count_list[of _ _ "map fst (sort_key fst (?e ps))"]
      by auto
    moreover have "count_list (map fst (sort_key fst (?e ps))) q = count_list (map fst ps) q"
      unfolding map_sort_key encoded_keys by (metis count_mset mset_sort)
    ultimately show ?thesis by (simp add: Inl)
  qed
qed

theorem config_new_canonical_witness:
  "config_new [(2, \<lparr>loc_zone_id = 0, loc_word_id = 1, loc_site_id = 0\<rparr>), (1, \<lparr>loc_zone_id = 0, loc_word_id = 0, loc_site_id = 3\<rparr>)] =
   config_new [(1, \<lparr>loc_zone_id = 0, loc_word_id = 0, loc_site_id = 3\<rparr>), (2, \<lparr>loc_zone_id = 0, loc_word_id = 1, loc_site_id = 0\<rparr>)]"
  using config_new_canonical[of
      "[(2, \<lparr>loc_zone_id = 0, loc_word_id = 1, loc_site_id = 0\<rparr>), (1, \<lparr>loc_zone_id = 0, loc_word_id = 0, loc_site_id = 3\<rparr>)]"
      "[(1, \<lparr>loc_zone_id = 0, loc_word_id = 0, loc_site_id = 3\<rparr>), (2, \<lparr>loc_zone_id = 0, loc_word_id = 1, loc_site_id = 0\<rparr>)]"]
  by simp

text \<open>Moving qubits keeps the invariant, hence the domain and the cached hash; the last move of a
  qubit wins, moves of qubits the configuration does not hold are ignored, and the other qubits stay.\<close>
theorem with_moves_spec:
  assumes "config_wf c"
  shows "config_wf (with_moves c moves)
    \<and> (\<forall>q. location_of (with_moves c moves) q =
        (case location_of c q of
           None \<Rightarrow> None
         | Some l \<Rightarrow> Some (case map_of (rev moves) q of Some l' \<Rightarrow> loc_norm l' | None \<Rightarrow> l)))"
proof
  show wf: "config_wf (with_moves c moves)" using assms by (rule with_moves_wf)
  show "\<forall>q. location_of (with_moves c moves) q =
        (case location_of c q of
           None \<Rightarrow> None
         | Some l \<Rightarrow> Some (case map_of (rev moves) q of Some l' \<Rightarrow> loc_norm l' | None \<Rightarrow> l))"
    unfolding location_of_map[OF wf] location_of_map[OF assms] with_moves_map[OF assms]
    by (auto simp: location_decode_encode split: option.splits)
qed

theorem with_moves_spec_witness:
  "location_of (with_moves \<lparr>entries = [(1, 5), (4, 7)], cached_hash = hash_entries [(1, 5), (4, 7)]\<rparr>
      [(4, \<lparr>loc_zone_id = 0, loc_word_id = 0, loc_site_id = 3\<rparr>)]) 9 = None"
  using with_moves_spec[of "\<lparr>entries = [(1, 5), (4, 7)], cached_hash = hash_entries [(1, 5), (4, 7)]\<rparr>"
      "[(4, \<lparr>loc_zone_id = 0, loc_word_id = 0, loc_site_id = 3\<rparr>)]"]
  by (simp add: config_wf_def location_of_def binary_search_def search_base.simps Let_def)

end
