(* ===== verification/Search_Graph.thy ===== *)
theory Search_Graph
  imports Float64 Config Move_Set Rust_Loop
begin

text \<open>
  The search graph: \<open>primitives/graph.rs\<close>.  Nodes live in a vector and are named by their index
  (a \<open>NodeId\<close> is a \<open>u32\<close>, and an insertion that would need a larger one panics); a table maps
  each configuration to the node that reached it at the lowest cost.  \<open>HashMap<Config, NodeId>\<close> is
  a map from entries, which is what equality of configurations compares.  An index that may be out
  of range is read with \<open>node_at\<close>, whose panic is a value.
\<close>

record node_data =
  nd_config :: config
  nd_parent :: "nat option"
  nd_parent_move :: "move_set option"
  nd_g_score :: f64
  nd_depth :: u32

record search_graph =
  sg_nodes :: "node_data list"
  sg_seen :: "config_entries \<rightharpoonup> nat"

section \<open>Operations\<close>

definition graph_new :: "config \<Rightarrow> search_graph" where
  "graph_new root =
     \<lparr>sg_nodes = [\<lparr>nd_config = root, nd_parent = None, nd_parent_move = None, nd_g_score = pos_zero, nd_depth = 0\<rparr>],
      sg_seen = [entries root \<mapsto> 0]\<rparr>"

definition node_at :: "search_graph \<Rightarrow> nat \<Rightarrow> node_data outcome" where
  "node_at g i = (case list_get (sg_nodes g) i of Some n \<Rightarrow> Returned n | None \<Rightarrow> Panicked)"

definition graph_config :: "search_graph \<Rightarrow> nat \<Rightarrow> config outcome" where
  "graph_config g i = bind_outcome (node_at g i) (\<lambda>n. Returned (nd_config n))"

definition graph_g_score :: "search_graph \<Rightarrow> nat \<Rightarrow> f64 outcome" where
  "graph_g_score g i = bind_outcome (node_at g i) (\<lambda>n. Returned (nd_g_score n))"

definition graph_depth :: "search_graph \<Rightarrow> nat \<Rightarrow> u32 outcome" where
  "graph_depth g i = bind_outcome (node_at g i) (\<lambda>n. Returned (nd_depth n))"

definition graph_parent :: "search_graph \<Rightarrow> nat \<Rightarrow> nat option outcome" where
  "graph_parent g i = bind_outcome (node_at g i) (\<lambda>n. Returned (nd_parent n))"

definition graph_len :: "search_graph \<Rightarrow> nat" where
  "graph_len g = length (sg_nodes g)"

definition seen_id :: "search_graph \<Rightarrow> config \<Rightarrow> nat option" where
  "seen_id g c = sg_seen g (entries c)"

text \<open>The node that already reaches the configuration at an equal or lower cost, if any.\<close>
definition known_node :: "search_graph \<Rightarrow> config \<Rightarrow> f64 \<Rightarrow> nat option outcome" where
  "known_node g new_config new_g =
     (case seen_id g new_config of
        None \<Rightarrow> Returned None
      | Some existing_id \<Rightarrow>
          bind_outcome (graph_g_score g existing_id)
            (\<lambda>existing_g. Returned (if fle existing_g new_g then Some existing_id else None)))"

definition graph_insert ::
  "search_graph \<Rightarrow> nat \<Rightarrow> move_set \<Rightarrow> config \<Rightarrow> f64 \<Rightarrow> (search_graph \<times> nat \<times> bool) outcome" where
  "graph_insert g parent move_set new_config new_g =
     bind_outcome (known_node g new_config new_g) (\<lambda>known.
       case known of
         Some existing_id \<Rightarrow> Returned (g, existing_id, False)
       | None \<Rightarrow>
           bind_outcome (graph_depth g parent) (\<lambda>parent_depth.
             let new_id = length (sg_nodes g)
             in if 2 ^ 32 \<le> new_id then Panicked
                else Returned
                  (\<lparr>sg_nodes = sg_nodes g @
                      [\<lparr>nd_config = new_config, nd_parent = Some parent, nd_parent_move = Some move_set,
                        nd_g_score = new_g, nd_depth = parent_depth + 1\<rparr>],
                    sg_seen = (sg_seen g)(entries new_config \<mapsto> new_id)\<rparr>,
                   new_id, True)))"

text \<open>One iteration of the walk up the parents; the moves are collected in reverse.\<close>
definition path_step ::
  "search_graph \<Rightarrow> move_set list \<times> nat \<Rightarrow> (move_set list \<times> nat) + move_set list outcome" where
  "path_step g = (\<lambda>(moves, current).
     case node_at g current of
       Panicked \<Rightarrow> Inr Panicked
     | Returned n \<Rightarrow>
         (case nd_parent n of
            None \<Rightarrow> Inr (Returned (rev moves))
          | Some parent_id \<Rightarrow>
              (case nd_parent_move n of
                 None \<Rightarrow> Inr Panicked
               | Some m \<Rightarrow> Inl (moves @ [m], parent_id))))"

definition reconstruct_path :: "search_graph \<Rightarrow> nat \<Rightarrow> move_set list outcome option" where
  "reconstruct_path g i = iterate (path_step g) ([], i)"

section \<open>The invariant\<close>

text \<open>Node 0 is the root; every other node has an earlier parent, the move that led from it and one
  more step of depth; the table names a node for each configuration that occurs.\<close>
definition node_ok :: "search_graph \<Rightarrow> nat \<Rightarrow> bool" where
  "node_ok g i \<longleftrightarrow>
     (let n = sg_nodes g ! i
      in if i = 0 then nd_parent n = None \<and> nd_depth n = 0
         else case nd_parent n of
                None \<Rightarrow> False
              | Some p \<Rightarrow> p < i \<and> nd_parent_move n \<noteq> None
                  \<and> unat (nd_depth n) = Suc (unat (nd_depth (sg_nodes g ! p))) \<and> unat (nd_depth n) \<le> i)"

definition graph_wf :: "search_graph \<Rightarrow> bool" where
  "graph_wf g \<longleftrightarrow>
     0 < graph_len g \<and> graph_len g \<le> 2 ^ 32
     \<and> (\<forall>i < graph_len g. node_ok g i)
     \<and> (\<forall>es i. sg_seen g es = Some i \<longrightarrow> i < graph_len g \<and> entries (nd_config (sg_nodes g ! i)) = es)
     \<and> (\<forall>i < graph_len g. sg_seen g (entries (nd_config (sg_nodes g ! i))) \<noteq> None)"

text \<open>The table names the node of lowest cost.\<close>
definition graph_best :: "search_graph \<Rightarrow> bool" where
  "graph_best g \<longleftrightarrow>
     (\<forall>i < graph_len g. \<not> is_nan (nd_g_score (sg_nodes g ! i)))
     \<and> (\<forall>i < graph_len g. \<forall>j. sg_seen g (entries (nd_config (sg_nodes g ! i))) = Some j \<longrightarrow> i \<noteq> j \<longrightarrow>
          flt (nd_g_score (sg_nodes g ! j)) (nd_g_score (sg_nodes g ! i)))"

text \<open>The moves on the way from the root to a node.\<close>
inductive graph_path :: "search_graph \<Rightarrow> nat \<Rightarrow> move_set list \<Rightarrow> bool" for g where
  root: "nd_parent (sg_nodes g ! i) = None \<Longrightarrow> graph_path g i []"
| step: "nd_parent (sg_nodes g ! i) = Some p \<Longrightarrow> nd_parent_move (sg_nodes g ! i) = Some m \<Longrightarrow>
         graph_path g p ms \<Longrightarrow> graph_path g i (ms @ [m])"

text \<open>A graph that has grown: the old nodes are where they were.\<close>
definition grows_to :: "search_graph \<Rightarrow> search_graph \<Rightarrow> bool" where
  "grows_to g g' \<longleftrightarrow> (\<exists>ns. sg_nodes g' = sg_nodes g @ ns)"

lemma grows_refl [simp]: "grows_to g g"
  by (simp add: grows_to_def)

lemma grows_trans: "grows_to g g' \<Longrightarrow> grows_to g' g'' \<Longrightarrow> grows_to g g''"
  by (auto simp: grows_to_def)

lemma grows_len: "grows_to g g' \<Longrightarrow> graph_len g \<le> graph_len g'"
  by (auto simp: grows_to_def graph_len_def)

lemma grows_node: "grows_to g g' \<Longrightarrow> i < graph_len g \<Longrightarrow> sg_nodes g' ! i = sg_nodes g ! i"
  by (auto simp: grows_to_def graph_len_def nth_append)

lemma node_at_in [simp]: "i < graph_len g \<Longrightarrow> node_at g i = Returned (sg_nodes g ! i)"
  by (simp add: node_at_def graph_len_def list_get_def)

lemma graph_reads [simp]:
  assumes "i < graph_len g"
  shows "graph_config g i = Returned (nd_config (sg_nodes g ! i))"
    "graph_g_score g i = Returned (nd_g_score (sg_nodes g ! i))"
    "graph_depth g i = Returned (nd_depth (sg_nodes g ! i))"
    "graph_parent g i = Returned (nd_parent (sg_nodes g ! i))"
  using assms by (simp_all add: graph_config_def graph_g_score_def graph_depth_def graph_parent_def)

lemma graph_new_nodes [simp]: "graph_len (graph_new c) = 1" "nd_config (sg_nodes (graph_new c) ! 0) = c"
  by (simp_all add: graph_new_def graph_len_def)

lemma graph_new_wf: "graph_wf (graph_new c)"
  by (simp add: graph_wf_def graph_new_def graph_len_def node_ok_def)

lemma graph_new_best: "graph_best (graph_new c)"
proof -
  have "\<not> is_nan pos_zero" by code_simp
  then show ?thesis by (simp add: graph_best_def graph_new_def graph_len_def)
qed

lemma known_node_Some: "graph_wf g \<Longrightarrow> known_node g c ng = Returned (Some i) \<longleftrightarrow>
    sg_seen g (entries c) = Some i \<and> fle (nd_g_score (sg_nodes g ! i)) ng"
  by (auto simp: known_node_def seen_id_def graph_wf_def split: option.split)

lemma known_node_returns: "graph_wf g \<Longrightarrow> \<exists>k. known_node g c ng = Returned k"
  by (auto simp: known_node_def seen_id_def graph_wf_def split: option.split)

text \<open>Case analysis of an insertion.\<close>
lemma graph_insert_cases:
  assumes "graph_wf g" "p < graph_len g"
  obtains (known) i where "sg_seen g (entries c) = Some i" "fle (nd_g_score (sg_nodes g ! i)) ng"
      "graph_insert g p m c ng = Returned (g, i, False)"
  | (full) "known_node g c ng = Returned None" "graph_len g = 2 ^ 32" "graph_insert g p m c ng = Panicked"
  | (grown) g' n where "known_node g c ng = Returned None" "graph_len g < 2 ^ 32"
      "graph_insert g p m c ng = Returned (g', graph_len g, True)"
      "sg_nodes g' = sg_nodes g @ [n]" "sg_seen g' = (sg_seen g)(entries c \<mapsto> graph_len g)"
      "nd_config n = c" "nd_parent n = Some p" "nd_parent_move n = Some m" "nd_g_score n = ng"
      "nd_depth n = nd_depth (sg_nodes g ! p) + 1"
proof -
  obtain k where k: "known_node g c ng = Returned k" using known_node_returns[OF assms(1)] by blast
  show thesis
  proof (cases k)
    case (Some i)
    have "graph_insert g p m c ng = Returned (g, i, False)" unfolding graph_insert_def k Some by simp
    with k Some assms show thesis by (intro known) (simp_all add: known_node_Some)
  next
    case None
    have ins: "graph_insert g p m c ng =
       (if 2 ^ 32 \<le> graph_len g then Panicked
        else Returned (\<lparr>sg_nodes = sg_nodes g @ [\<lparr>nd_config = c, nd_parent = Some p, nd_parent_move = Some m,
                        nd_g_score = ng, nd_depth = nd_depth (sg_nodes g ! p) + 1\<rparr>],
                    sg_seen = (sg_seen g)(entries c \<mapsto> graph_len g)\<rparr>, graph_len g, True))"
      unfolding graph_insert_def k None using assms(2) by (simp add: Let_def graph_len_def)
    show thesis
    proof (cases "graph_len g < 2 ^ 32")
      case True
      then have "\<not> 2 ^ 32 \<le> graph_len g" by simp
      note ins' = ins[unfolded if_not_P[OF this]]
      show thesis by (rule grown[OF k[unfolded None] True ins'], simp, simp, simp_all)
    next
      case False
      then have "graph_len g = 2 ^ 32" using assms(1) by (simp add: graph_wf_def)
      then show thesis using ins k None by (intro full) simp_all
    qed
  qed
qed

section \<open>What an insertion keeps\<close>

lemma node_ok_grows: "grows_to g g' \<Longrightarrow> i < graph_len g \<Longrightarrow> node_ok g' i \<longleftrightarrow> node_ok g i"
  by (auto simp: node_ok_def grows_node Let_def split: option.split)

lemma graph_wf_node: "graph_wf g \<Longrightarrow> i < graph_len g \<Longrightarrow> node_ok g i"
  by (simp add: graph_wf_def)

lemma graph_wf_parent:
  assumes "graph_wf g" "i < graph_len g" "nd_parent (sg_nodes g ! i) = Some p"
  shows "p < i \<and> p < graph_len g \<and> (\<exists>m. nd_parent_move (sg_nodes g ! i) = Some m)
    \<and> unat (nd_depth (sg_nodes g ! i)) = Suc (unat (nd_depth (sg_nodes g ! p)))"
  using graph_wf_node[OF assms(1,2)] assms by (auto simp: node_ok_def Let_def split: if_splits)

lemma graph_wf_root:
  "graph_wf g \<Longrightarrow> i < graph_len g \<Longrightarrow> nd_parent (sg_nodes g ! i) = None \<longleftrightarrow> i = 0"
  using graph_wf_node[of g i] by (auto simp: node_ok_def Let_def split: if_splits option.splits)

lemma graph_wf_depth:
  "graph_wf g \<Longrightarrow> i < graph_len g \<Longrightarrow> unat (nd_depth (sg_nodes g ! i)) \<le> i"
  using graph_wf_node[of g i] by (auto simp: node_ok_def Let_def split: if_splits option.splits)

lemma graph_wf_seen: "graph_wf g \<Longrightarrow> sg_seen g es = Some i \<Longrightarrow> i < graph_len g \<and> entries (nd_config (sg_nodes g ! i)) = es"
  by (auto simp: graph_wf_def)

lemma unat_suc_depth: "unat (d :: u32) < i \<Longrightarrow> i < 2 ^ 32 \<Longrightarrow> unat (d + 1) = Suc (unat d)"
  using unat_add_lem[of d 1] by simp

lemma grown_wf:
  assumes wf: "graph_wf g" and p: "p < graph_len g" and len: "graph_len g < 2 ^ 32"
    and g': "sg_nodes g' = sg_nodes g @ [n]" "sg_seen g' = (sg_seen g)(entries c \<mapsto> graph_len g)"
    and n: "nd_config n = c" "nd_parent n = Some p" "nd_parent_move n = Some m"
      "nd_depth n = nd_depth (sg_nodes g ! p) + 1"
  shows "graph_wf g'"
proof -
  have grow: "grows_to g g'" and len': "graph_len g' = Suc (graph_len g)"
    by (auto simp: grows_to_def g'(1) graph_len_def)
  have last: "sg_nodes g' ! graph_len g = n" by (simp add: g'(1) graph_len_def)
  have "unat (nd_depth (sg_nodes g ! p)) \<le> p" using graph_wf_depth[OF wf p] .
  then have d: "unat (nd_depth n) = Suc (unat (nd_depth (sg_nodes g ! p)))" "unat (nd_depth n) \<le> graph_len g"
    using p len unfolding n(4) by (subst unat_suc_depth[of _ "graph_len g"]; simp)+
  have new: "node_ok g' (graph_len g)"
    using p d grows_node[OF grow p] by (simp add: node_ok_def last n Let_def)
  have old: "node_ok g' i" if "i < graph_len g" for i
    using wf that node_ok_grows[OF grow that] by (simp add: graph_wf_def)
  have "\<forall>es i. sg_seen g' es = Some i \<longrightarrow> i < graph_len g' \<and> entries (nd_config (sg_nodes g' ! i)) = es"
    using graph_wf_seen[OF wf] grows_node[OF grow] last by (auto simp: g'(2) len' n(1) less_Suc_eq)
  moreover have "\<forall>i < graph_len g'. sg_seen g' (entries (nd_config (sg_nodes g' ! i))) \<noteq> None"
    using wf grows_node[OF grow] last by (auto simp: g'(2) len' n(1) less_Suc_eq graph_wf_def)
  ultimately show ?thesis
    using new old len by (auto simp: graph_wf_def len' less_Suc_eq)
qed

lemma grown_best:
  assumes wf: "graph_wf g" and best: "graph_best g" and nan: "\<not> is_nan ng"
    and unknown: "known_node g c ng = Returned None"
    and g': "sg_nodes g' = sg_nodes g @ [n]" "sg_seen g' = (sg_seen g)(entries c \<mapsto> graph_len g)"
    and n: "nd_config n = c" "nd_g_score n = ng"
  shows "graph_best g'"
proof -
  have grow: "grows_to g g'" and len': "graph_len g' = Suc (graph_len g)"
    by (auto simp: grows_to_def g'(1) graph_len_def)
  have last: "sg_nodes g' ! graph_len g = n" by (simp add: g'(1) graph_len_def)
  have lower: "flt ng (nd_g_score (sg_nodes g ! i))"
    if i: "i < graph_len g" "entries (nd_config (sg_nodes g ! i)) = entries c" for i
  proof -
    obtain j where j: "sg_seen g (entries c) = Some j" using wf i by (auto simp: graph_wf_def)
    then have jl: "j < graph_len g" using graph_wf_seen[OF wf] by blast
    have "\<not> fle (nd_g_score (sg_nodes g ! j)) ng" using unknown j jl by (auto simp: known_node_def seen_id_def split: if_splits)
    then have nj: "flt ng (nd_g_score (sg_nodes g ! j))"
      using best jl nan by (auto simp: fle_def flt_def graph_best_def)
    show ?thesis
    proof (cases "i = j")
      case False
      then have "flt (nd_g_score (sg_nodes g ! j)) (nd_g_score (sg_nodes g ! i))"
        using best i j by (simp add: graph_best_def)
      with nj show ?thesis by (rule flt_trans)
    qed (use nj in simp)
  qed
  have seen_node: "sg_seen g es = Some j \<Longrightarrow> sg_nodes g' ! j = sg_nodes g ! j" for es j
    using graph_wf_seen[OF wf] grows_node[OF grow] by blast
  show ?thesis
    using best nan lower grows_node[OF grow]
    by (auto simp: graph_best_def g'(2) len' last n less_Suc_eq seen_node)
qed

lemma graph_path_parent_grows:
  assumes "graph_path g i ms" "grows_to g g'" "graph_wf g" "i < graph_len g"
  shows "graph_path g' i ms"
  using assms(1,4)
proof induction
  case (root i)
  then show ?case using grows_node[OF assms(2)] by (intro graph_path.root) simp
next
  case (step i p m ms)
  then have "p < graph_len g" using graph_wf_parent[OF assms(3)] by blast
  with step show ?case using grows_node[OF assms(2)] by (intro graph_path.step) simp_all
qed

section \<open>The walk up the parents\<close>

lemma reconstruct_path_returns:
  assumes "graph_wf g" "i < graph_len g"
  shows "\<exists>ms. reconstruct_path g i = Some (Returned ms) \<and> graph_path g i ms
    \<and> length ms = unat (nd_depth (sg_nodes g ! i))"
proof -
  let ?I = "\<lambda>(moves, cur). cur < graph_len g
    \<and> (\<forall>ms. graph_path g cur ms \<longrightarrow> graph_path g i (ms @ rev moves))
    \<and> unat (nd_depth (sg_nodes g ! i)) = unat (nd_depth (sg_nodes g ! cur)) + length moves"
  have "\<exists>r. iterate (path_step g) ([], i) = Some r
    \<and> (\<exists>ms. r = Returned ms \<and> graph_path g i ms \<and> length ms = unat (nd_depth (sg_nodes g ! i)))"
  proof (rule iterate_total[where I = ?I and m = snd])
    show "?I ([], i)" using assms(2) by simp
  next
    fix s s' assume I: "?I s" and s': "path_step g s = Inl s'"
    obtain moves cur where s: "s = (moves, cur)" by force
    with I have cur: "cur < graph_len g" by simp
    then obtain p m where p: "nd_parent (sg_nodes g ! cur) = Some p" "nd_parent_move (sg_nodes g ! cur) = Some m"
        "s' = (moves @ [m], p)"
      using s' by (auto simp: path_step_def s split: option.splits)
    show "?I s' \<and> snd s' < snd s"
      using I graph_wf_parent[OF assms(1) cur p(1)] p(3) graph_path.step[OF p(1,2)] by (fastforce simp: s)
  next
    fix s r assume I: "?I s" and r: "path_step g s = Inr r"
    obtain moves cur where s: "s = (moves, cur)" by force
    with I have cur: "cur < graph_len g" by simp
    show "\<exists>ms. r = Returned ms \<and> graph_path g i ms \<and> length ms = unat (nd_depth (sg_nodes g ! i))"
    proof (cases "nd_parent (sg_nodes g ! cur)")
      case None
      then have "nd_depth (sg_nodes g ! cur) = 0"
        using graph_wf_root[OF assms(1) cur] assms(1) by (auto simp: graph_wf_def node_ok_def)
      then show ?thesis
        using I r cur None graph_path.root[OF None] by (auto simp: path_step_def s)
    next
      case (Some p)
      then show ?thesis
        using graph_wf_parent[OF assms(1) cur Some] r cur by (auto simp: path_step_def s)
    qed
  qed
  then show ?thesis unfolding reconstruct_path_def by blast
qed

section \<open>Properties\<close>

text \<open>C15. Inserting a successor keeps the graph well formed and leaves the old nodes in place.  It
  panics exactly when a new node is needed and the graph holds 2^32 nodes; it answers with a node
  of that configuration, the one the table names, and a new node, at the end of the vector, exactly
  when no known node reaches the configuration at an equal or lower cost.  As long as no cost is
  NaN, the table keeps naming the cheapest node of every configuration.\<close>
theorem graph_insert_spec:
  assumes "graph_wf g" "p < graph_len g"
  shows "case graph_insert g p m c new_g of
      Panicked \<Rightarrow> graph_len g = 2 ^ 32 \<and> known_node g c new_g = Returned None
    | Returned (g', i, created) \<Rightarrow>
        graph_wf g' \<and> grows_to g g' \<and> seen_id g' c = Some i
        \<and> (created \<longleftrightarrow> known_node g c new_g = Returned None)
        \<and> graph_len g' = (if created then Suc (graph_len g) else graph_len g)
        \<and> (created \<longrightarrow> i = graph_len g \<and> graph_config g' i = Returned c \<and> graph_g_score g' i = Returned new_g
             \<and> graph_parent g' i = Returned (Some p))
        \<and> (graph_best g \<longrightarrow> \<not> is_nan new_g \<longrightarrow> graph_best g')"
  using assms
proof (cases rule: graph_insert_cases[of g p c new_g m])
  case (known i)
  then have "known_node g c new_g = Returned (Some i)" using known_node_Some[OF assms(1)] by blast
  with known show ?thesis using assms(1) by (simp add: seen_id_def)
next
  case full
  then show ?thesis by simp
next
  case (grown g' n)
  have "graph_wf g'" by (rule grown_wf[OF assms grown(2,4-8,10)])
  moreover have "graph_best g \<Longrightarrow> \<not> is_nan new_g \<Longrightarrow> graph_best g'"
    by (rule grown_best[OF assms(1) _ _ grown(1,4-6,9)])
  moreover have "grows_to g g'" "graph_len g' = Suc (graph_len g)" "sg_nodes g' ! graph_len g = n"
    using grown(4) by (auto simp: grows_to_def graph_len_def)
  ultimately show ?thesis using grown by (simp add: seen_id_def)
qed

theorem graph_insert_spec_witness:
  "case graph_insert (graph_new \<lparr>entries = [(1, 5)], cached_hash = 7\<rparr>) 0 (MoveSet [3])
      \<lparr>entries = [(1, 9)], cached_hash = 8\<rparr> pos_zero of
     Panicked \<Rightarrow> False
   | Returned (g', i, created) \<Rightarrow> graph_wf g' \<and> i = 1 \<and> created"
  using graph_insert_spec[of "graph_new \<lparr>entries = [(1, 5)], cached_hash = 7\<rparr>" 0 "\<lparr>entries = [(1, 9)], cached_hash = 8\<rparr>"
      pos_zero "MoveSet [3]"]
  by (auto simp: graph_new_wf known_node_def seen_id_def split: outcome.splits) (simp add: graph_new_def)+

text \<open>C23. The walk up the parents of a node of a well-formed graph ends without a panic, and returns
  the moves on the way from the root to that node, in order, one per step of its depth.\<close>
theorem reconstruct_path_terminates:
  assumes "graph_wf g" "i < graph_len g"
  shows "\<exists>ms. reconstruct_path g i = Some (Returned ms) \<and> graph_path g i ms
    \<and> length ms = unat (nd_depth (sg_nodes g ! i))"
  using assms by (rule reconstruct_path_returns)

text \<open>A root and the result of one move.\<close>
definition two_nodes :: search_graph where
  "two_nodes =
     \<lparr>sg_nodes = [\<lparr>nd_config = \<lparr>entries = [(1, 5)], cached_hash = 7\<rparr>, nd_parent = None, nd_parent_move = None,
          nd_g_score = pos_zero, nd_depth = 0\<rparr>,
        \<lparr>nd_config = \<lparr>entries = [(1, 9)], cached_hash = 8\<rparr>, nd_parent = Some 0, nd_parent_move = Some (MoveSet [3]),
          nd_g_score = pos_zero, nd_depth = 1\<rparr>],
      sg_seen = [[(1, 5)] \<mapsto> 0, [(1, 9)] \<mapsto> 1]\<rparr>"

theorem reconstruct_path_terminates_witness:
  "reconstruct_path two_nodes 1 = Some (Returned [MoveSet [3]])"
proof -
  have wf: "graph_wf two_nodes" "1 < graph_len two_nodes"
    by (auto simp: graph_wf_def two_nodes_def graph_len_def node_ok_def less_Suc_eq)
  obtain ms where ms: "reconstruct_path two_nodes 1 = Some (Returned ms)" "graph_path two_nodes 1 ms" "length ms = 1"
    using reconstruct_path_terminates[OF wf] by (auto simp: two_nodes_def)
  from ms(2) have "ms = [MoveSet [3]]"
  proof cases
    case root
    then show ?thesis by (simp add: two_nodes_def)
  next
    case (step p m ms')
    then show ?thesis using ms(3) by (simp add: two_nodes_def)
  qed
  with ms(1) show ?thesis by simp
qed

end
