(* ===== verification/Frontier.thy ===== *)
theory Frontier
  imports Search_Graph Float_Mul "HOL-Library.Multiset" "HOL-Library.Product_Lexorder"
begin

text \<open>
  The frontiers of \<open>drivers/frontier.rs\<close>: the order in which a search takes its nodes.  The trait
  \<open>Frontier\<close> is the record of its operations over a state of any type; the locale \<open>frontier\<close>
  states what the search loop relies on, over the multiset of nodes a state holds, and the four
  implementations interpret it.  A heuristic is a parameter: an estimate of every configuration.
\<close>

section \<open>The trait\<close>

record 'f frontier_ops =
  select_next :: "'f \<Rightarrow> (nat \<times> 'f) option"
  receive_children :: "'f \<Rightarrow> nat list \<Rightarrow> search_graph \<Rightarrow> 'f outcome"
  check_goal_on_pop :: "'f \<Rightarrow> bool"
  check_goal_on_generate :: "'f \<Rightarrow> bool"

type_synonym heuristic = "config \<Rightarrow> f64"

text \<open>A frontier holds nodes of the graph: it hands out one it holds, as long as it holds any, keeps
  every node it receives, and checks the goal either when a node is taken or when it is made.\<close>
locale frontier =
  fixes ops :: "'f frontier_ops"
    and held :: "'f \<Rightarrow> nat multiset"
  assumes select_None: "select_next ops f = None \<longleftrightarrow> held f = {#}"
    and select_Some: "select_next ops f = Some (i, f') \<Longrightarrow>
      held f = add_mset i (held f') \<and> check_goal_on_pop ops f' = check_goal_on_pop ops f"
    and receive: "graph_wf g \<Longrightarrow> \<forall>i \<in> set is. i < graph_len g \<Longrightarrow>
      \<exists>f'. receive_children ops f is g = Returned f' \<and> held f' = held f + mset is
        \<and> check_goal_on_pop ops f' = check_goal_on_pop ops f"
    and one_check: "check_goal_on_generate ops f \<longleftrightarrow> \<not> check_goal_on_pop ops f"
begin

lemma select_in: "select_next ops f = Some (i, f') \<Longrightarrow> i \<in># held f \<and> size (held f') < size (held f)"
  using select_Some by fastforce

lemma receive_Returned:
  "graph_wf g \<Longrightarrow> \<forall>i \<in> set is. i < graph_len g \<Longrightarrow> receive_children ops f is g = Returned f' \<Longrightarrow>
   held f' = held f + mset is \<and> check_goal_on_pop ops f' = check_goal_on_pop ops f"
  using receive[of g "is" f] by fastforce

end

section \<open>The binary heap\<close>

text \<open>A \<open>BinaryHeap\<close> gives back a greatest entry; the order of its vector is not observable.  Entries
  are compared by a key into a linear order.\<close>
definition max_by_key :: "('e \<Rightarrow> 'k::linorder) \<Rightarrow> 'e \<Rightarrow> 'e list \<Rightarrow> 'e" where
  "max_by_key key x xs = foldl (\<lambda>m y. if key m < key y then y else m) x xs"

definition heap_pop :: "('e \<Rightarrow> 'k::linorder) \<Rightarrow> 'e list \<Rightarrow> ('e \<times> 'e list) option" where
  "heap_pop key h = (case h of [] \<Rightarrow> None | x # xs \<Rightarrow> let m = max_by_key key x xs in Some (m, remove1 m h))"

lemma max_by_key_spec: "max_by_key key x xs \<in> set (x # xs) \<and> (\<forall>y \<in> set (x # xs). key y \<le> key (max_by_key key x xs))"
proof (induction xs arbitrary: x)
  case Nil
  then show ?case by (simp add: max_by_key_def)
next
  case (Cons y ys)
  let ?z = "if key x < key y then y else x"
  have "max_by_key key x (y # ys) = max_by_key key ?z ys" by (simp add: max_by_key_def)
  moreover have "key x \<le> key ?z" "key y \<le> key ?z" by auto
  ultimately show ?case using Cons.IH[of ?z] by (auto split: if_splits intro: order_trans)
qed

lemma heap_pop_None [simp]: "heap_pop key h = None \<longleftrightarrow> h = []"
  by (simp add: heap_pop_def Let_def split: list.split)

lemma heap_pop_Nil [simp]: "heap_pop key [] = None"
  by (simp add: heap_pop_def)

lemma heap_pop_Some:
  assumes "heap_pop key h = Some (m, h')"
  shows "m \<in> set h \<and> mset h = add_mset m (mset h') \<and> (\<forall>e \<in> set h. key e \<le> key m)"
proof -
  obtain x xs where h: "h = x # xs" using assms by (cases h) (auto simp: heap_pop_def)
  then have "m = max_by_key key x xs" "h' = remove1 m h" using assms by (auto simp: heap_pop_def Let_def)
  then show ?thesis using max_by_key_spec[of key x xs] by (auto simp: h)
qed

section \<open>Priority: A* and greedy\<close>

datatype priority_entry = PriorityEntry (pe_f_score: f64) (pe_g_score: f64) (pe_node_id: nat)

text \<open>\<open>Ord for PriorityEntry\<close>: lower \<open>f\<close>, then higher \<open>g\<close>, then lower node is greater.\<close>
definition priority_key :: "priority_entry \<Rightarrow> int \<times> int \<times> int" where
  "priority_key e = (- total_key (pe_f_score e), total_key (pe_g_score e), - int (pe_node_id e))"

record priority_frontier =
  pf_heap :: "priority_entry list"
  pf_weight :: f64
  pf_use_cost :: bool
  pf_goal_on_pop :: bool

definition astar_frontier :: "f64 \<Rightarrow> priority_frontier" where
  "astar_frontier weight = \<lparr>pf_heap = [], pf_weight = weight, pf_use_cost = True, pf_goal_on_pop = True\<rparr>"

definition greedy_frontier :: priority_frontier where
  "greedy_frontier = \<lparr>pf_heap = [], pf_weight = pos_zero, pf_use_cost = False, pf_goal_on_pop = False\<rparr>"

definition priority_select :: "priority_frontier \<Rightarrow> (nat \<times> priority_frontier) option" where
  "priority_select f = map_option (\<lambda>(e, h). (pe_node_id e, f\<lparr>pf_heap := h\<rparr>)) (heap_pop priority_key (pf_heap f))"

definition priority_push :: "heuristic \<Rightarrow> search_graph \<Rightarrow> priority_frontier \<Rightarrow> nat \<Rightarrow> priority_frontier outcome" where
  "priority_push heuristic g f child_id =
     bind_outcome (graph_g_score g child_id) (\<lambda>gs.
     bind_outcome (graph_config g child_id) (\<lambda>c.
       let h = heuristic c;
           fs = if pf_use_cost f then fadd gs (fmul (pf_weight f) h) else h
       in Returned (f\<lparr>pf_heap := PriorityEntry fs gs child_id # pf_heap f\<rparr>)))"

definition priority_ops :: "heuristic \<Rightarrow> priority_frontier frontier_ops" where
  "priority_ops heuristic =
     \<lparr>select_next = priority_select,
      receive_children = (\<lambda>f children g. fold_outcome (priority_push heuristic g) f children),
      check_goal_on_pop = pf_goal_on_pop,
      check_goal_on_generate = (\<lambda>f. \<not> pf_goal_on_pop f)\<rparr>"

section \<open>Breadth first and depth first\<close>

definition bfs_ops :: "nat list frontier_ops" where
  "bfs_ops =
     \<lparr>select_next = (\<lambda>queue. case queue of [] \<Rightarrow> None | i # rest \<Rightarrow> Some (i, rest)),
      receive_children = (\<lambda>queue children g. Returned (queue @ children)),
      check_goal_on_pop = (\<lambda>_. False),
      check_goal_on_generate = (\<lambda>_. True)\<rparr>"

definition dfs_select :: "nat list \<Rightarrow> (nat \<times> nat list) option" where
  "dfs_select stack = (if stack = [] then None else Some (last stack, butlast stack))"

text \<open>The stable sort puts the worst estimate first.\<close>
definition dfs_receive :: "heuristic \<Rightarrow> nat list \<Rightarrow> nat list \<Rightarrow> search_graph \<Rightarrow> nat list outcome" where
  "dfs_receive heuristic stack children g =
     (if children = [] then Returned stack
      else bind_outcome (traverse_outcome (\<lambda>i. bind_outcome (graph_config g i) (\<lambda>c. Returned (heuristic c, i))) children)
        (\<lambda>scored. Returned (stack @ map snd (sort_key (\<lambda>(h, _). - total_key h) scored))))"

definition dfs_ops :: "heuristic \<Rightarrow> nat list frontier_ops" where
  "dfs_ops heuristic =
     \<lparr>select_next = dfs_select, receive_children = dfs_receive heuristic,
      check_goal_on_pop = (\<lambda>_. False), check_goal_on_generate = (\<lambda>_. True)\<rparr>"

section \<open>Iterative diving\<close>

datatype ids_entry = IdsEntry (ie_depth: u32) (ie_insertion_order: u64) (ie_h_score: f64) (ie_node_id: nat)

text \<open>\<open>Ord for IdsEntry\<close>: lower estimate, then deeper, then earlier is greater.\<close>
definition ids_key :: "ids_entry \<Rightarrow> int \<times> int \<times> int" where
  "ids_key e = (- total_key (ie_h_score e), uint (ie_depth e), - uint (ie_insertion_order e))"

record ids_frontier =
  if_heap :: "ids_entry list"
  if_insertion_counter :: u64

definition ids_new :: ids_frontier where
  "ids_new = \<lparr>if_heap = [], if_insertion_counter = 0\<rparr>"

definition IDS_REVERSAL_LOOKBACK :: nat where "IDS_REVERSAL_LOOKBACK = 10"
definition IDS_REVERSAL_PENALTY :: f64 where "IDS_REVERSAL_PENALTY = F64 0x3FE0000000000000"

text \<open>The locations that the qubits left in a step, added to those left before.\<close>
definition add_sources :: "config \<Rightarrow> config \<Rightarrow> (u32 \<Rightarrow> u64 set) \<Rightarrow> u32 \<Rightarrow> u64 set" where
  "add_sources parent_cfg child_cfg sources =
     foldl (\<lambda>s (qid, child_loc).
        case location_of parent_cfg qid of
          None \<Rightarrow> s
        | Some parent_loc \<Rightarrow>
            if location_encode parent_loc \<noteq> location_encode child_loc
            then s(qid := insert (location_encode parent_loc) (s qid)) else s) sources (config_iter child_cfg)"

text \<open>The number is that of the steps left to walk.\<close>
fun recent_sources_loop :: "search_graph \<Rightarrow> nat \<Rightarrow> nat \<Rightarrow> (u32 \<Rightarrow> u64 set) \<Rightarrow> (u32 \<Rightarrow> u64 set) outcome" where
  "recent_sources_loop g cur 0 sources = bind_outcome (graph_parent g cur) (\<lambda>_. Returned sources)"
| "recent_sources_loop g cur (Suc steps) sources =
     bind_outcome (graph_parent g cur) (\<lambda>p. case p of
       None \<Rightarrow> Returned sources
     | Some parent \<Rightarrow>
         bind_outcome (graph_config g parent) (\<lambda>parent_cfg.
         bind_outcome (graph_config g cur) (\<lambda>child_cfg.
           recent_sources_loop g parent steps (add_sources parent_cfg child_cfg sources))))"

definition compute_recent_sources :: "search_graph \<Rightarrow> nat \<Rightarrow> nat \<Rightarrow> (u32 \<Rightarrow> u64 set) outcome" where
  "compute_recent_sources g node_id lookback = recent_sources_loop g node_id lookback (\<lambda>_. {})"

definition reversal_count :: "config \<Rightarrow> config \<Rightarrow> (u32 \<Rightarrow> u64 set) \<Rightarrow> u32" where
  "reversal_count parent_cfg child_cfg sources =
     foldl (\<lambda>count (qid, child_loc).
        case location_of parent_cfg qid of
          None \<Rightarrow> count
        | Some parent_loc \<Rightarrow>
            let dst = location_encode child_loc
            in if location_encode parent_loc = dst then count
               else if dst \<in> sources qid then count + 1 else count) 0 (config_iter child_cfg)"

definition count_reversals :: "search_graph \<Rightarrow> nat \<Rightarrow> nat \<Rightarrow> (u32 \<Rightarrow> u64 set) \<Rightarrow> u32 outcome" where
  "count_reversals g parent_id child_id sources =
     bind_outcome (graph_config g parent_id) (\<lambda>parent_cfg.
     bind_outcome (graph_config g child_id) (\<lambda>child_cfg.
       Returned (reversal_count parent_cfg child_cfg sources)))"

definition ids_push ::
  "heuristic \<Rightarrow> search_graph \<Rightarrow> (nat \<times> (u32 \<Rightarrow> u64 set)) option \<Rightarrow> ids_frontier \<Rightarrow> nat \<Rightarrow> ids_frontier outcome" where
  "ids_push heuristic g parent f child_id =
     bind_outcome (graph_config g child_id) (\<lambda>c.
     bind_outcome (graph_depth g child_id) (\<lambda>depth.
     bind_outcome (case parent of
         Some (pid, rs) \<Rightarrow> count_reversals g pid child_id rs | None \<Rightarrow> Returned 0) (\<lambda>penalty.
       let h_with_penalty = fadd (heuristic c) (fmul IDS_REVERSAL_PENALTY (f64_of_nat (unat penalty)))
       in Returned \<lparr>if_heap = IdsEntry depth (if_insertion_counter f) h_with_penalty child_id # if_heap f,
                    if_insertion_counter = if_insertion_counter f + 1\<rparr>)))"

definition ids_parent :: "search_graph \<Rightarrow> nat \<Rightarrow> (nat \<times> (u32 \<Rightarrow> u64 set)) option outcome" where
  "ids_parent g first_child =
     bind_outcome (graph_parent g first_child) (\<lambda>p. case p of
       None \<Rightarrow> Returned None
     | Some pid \<Rightarrow> bind_outcome (compute_recent_sources g pid IDS_REVERSAL_LOOKBACK) (\<lambda>rs. Returned (Some (pid, rs))))"

definition ids_receive :: "heuristic \<Rightarrow> ids_frontier \<Rightarrow> nat list \<Rightarrow> search_graph \<Rightarrow> ids_frontier outcome" where
  "ids_receive heuristic f children g =
     (case children of
        [] \<Rightarrow> Returned f
      | first # _ \<Rightarrow>
          bind_outcome (ids_parent g first) (\<lambda>parent. fold_outcome (ids_push heuristic g parent) f children))"

definition ids_select :: "ids_frontier \<Rightarrow> (nat \<times> ids_frontier) option" where
  "ids_select f = map_option (\<lambda>(e, h). (ie_node_id e, f\<lparr>if_heap := h\<rparr>)) (heap_pop ids_key (if_heap f))"

definition ids_ops :: "heuristic \<Rightarrow> ids_frontier frontier_ops" where
  "ids_ops heuristic =
     \<lparr>select_next = ids_select, receive_children = ids_receive heuristic,
      check_goal_on_pop = (\<lambda>_. False), check_goal_on_generate = (\<lambda>_. True)\<rparr>"

section \<open>The implementations keep the contract\<close>

interpretation bfs: frontier bfs_ops mset
  by unfold_locales (auto simp: bfs_ops_def split: list.splits)

lemma traverse_scores:
  "\<forall>i \<in> set is. i < graph_len g \<Longrightarrow>
   traverse_outcome (\<lambda>i. bind_outcome (graph_config g i) (\<lambda>c. Returned (h c, i))) is =
   Returned (map (\<lambda>i. (h (nd_config (sg_nodes g ! i)), i)) is)"
  by (induction "is") auto

lemma dfs_receive_in:
  assumes "\<forall>i \<in> set is. i < graph_len g"
  shows "dfs_receive h f is g = Returned (f @ map snd (sort_key (\<lambda>(s, _). - total_key s)
    (map (\<lambda>i. (h (nd_config (sg_nodes g ! i)), i)) is)))"
  by (cases "is = []") (simp_all add: dfs_receive_def traverse_scores[OF assms])

interpretation dfs: frontier "dfs_ops h" mset for h
proof
  show "select_next (dfs_ops h) f = None \<longleftrightarrow> mset f = {#}" for f
    by (simp add: dfs_ops_def dfs_select_def)
  show "select_next (dfs_ops h) f = Some (i, f') \<Longrightarrow>
      mset f = add_mset i (mset f') \<and> check_goal_on_pop (dfs_ops h) f' = check_goal_on_pop (dfs_ops h) f" for f i f'
    by (cases f rule: rev_cases) (auto simp: dfs_ops_def dfs_select_def)
  show "\<exists>f'. receive_children (dfs_ops h) f is g = Returned f' \<and> mset f' = mset f + mset is
        \<and> check_goal_on_pop (dfs_ops h) f' = check_goal_on_pop (dfs_ops h) f"
    if "graph_wf g" "\<forall>i \<in> set is. i < graph_len g" for f "is" g
    using dfs_receive_in[OF that(2), of h f]
    by (simp add: dfs_ops_def image_mset.compositionality comp_def)
qed (simp add: dfs_ops_def)

definition priority_held :: "priority_frontier \<Rightarrow> nat multiset" where
  "priority_held f = image_mset pe_node_id (mset (pf_heap f))"

lemma priority_push_in:
  "i < graph_len g \<Longrightarrow> \<exists>f'. priority_push h g f i = Returned f' \<and> priority_held f' = add_mset i (priority_held f)
     \<and> pf_goal_on_pop f' = pf_goal_on_pop f"
  by (simp add: priority_push_def priority_held_def Let_def)

lemma priority_select_Some:
  "priority_select f = Some (i, f') \<Longrightarrow> \<exists>e h. heap_pop priority_key (pf_heap f) = Some (e, h) \<and> i = pe_node_id e \<and> f' = f\<lparr>pf_heap := h\<rparr>"
  by (auto simp: priority_select_def)

text \<open>A body that pushes one node at a time.\<close>
lemma fold_push:
  assumes "\<And>f i. i \<in> set is \<Longrightarrow> \<exists>f'. push f i = Returned f' \<and> held f' = add_mset i (held f) \<and> same f' = same f"
  shows "\<exists>f'. fold_outcome push f is = Returned f' \<and> held f' = held f + mset is \<and> same f' = same f"
  using assms
proof (induction "is" arbitrary: f)
  case (Cons i "is")
  obtain f1 where f1: "push f i = Returned f1" "held f1 = add_mset i (held f)" "same f1 = same f"
    using Cons.prems[of i f] by auto
  then show ?case using Cons.IH[of f1] Cons.prems by auto
qed simp

interpretation priority: frontier "priority_ops h" priority_held for h
proof
  show "select_next (priority_ops h) f = None \<longleftrightarrow> priority_held f = {#}" for f
    by (simp add: priority_ops_def priority_select_def priority_held_def)
  show "select_next (priority_ops h) f = Some (i, f') \<Longrightarrow>
      priority_held f = add_mset i (priority_held f')
      \<and> check_goal_on_pop (priority_ops h) f' = check_goal_on_pop (priority_ops h) f" for f i f'
    by (auto simp: priority_ops_def priority_held_def dest!: priority_select_Some heap_pop_Some)
  show "\<exists>f'. receive_children (priority_ops h) f is g = Returned f' \<and> priority_held f' = priority_held f + mset is
        \<and> check_goal_on_pop (priority_ops h) f' = check_goal_on_pop (priority_ops h) f"
    if "graph_wf g" "\<forall>i \<in> set is. i < graph_len g" for f "is" g
    using fold_push[of "is" "priority_push h g" priority_held pf_goal_on_pop f] priority_push_in that(2)
    by (simp add: priority_ops_def)
qed (simp add: priority_ops_def)

definition ids_held :: "ids_frontier \<Rightarrow> nat multiset" where
  "ids_held f = image_mset ie_node_id (mset (if_heap f))"

lemma recent_sources_in: "graph_wf g \<Longrightarrow> i < graph_len g \<Longrightarrow> \<exists>rs. recent_sources_loop g i k s = Returned rs"
proof (induction k arbitrary: i s)
  case (Suc k)
  then show ?case
    by (auto split: option.split dest: graph_wf_parent[OF Suc.prems(1,2)])
qed simp

lemma ids_parent_in:
  assumes "graph_wf g" "i < graph_len g"
  shows "\<exists>p. ids_parent g i = Returned p \<and> (case p of None \<Rightarrow> True | Some (pid, rs) \<Rightarrow> pid < graph_len g)"
proof (cases "nd_parent (sg_nodes g ! i)")
  case (Some p)
  then have p: "p < graph_len g" using graph_wf_parent[OF assms] by blast
  obtain rs where "recent_sources_loop g p IDS_REVERSAL_LOOKBACK (\<lambda>_. {}) = Returned rs"
    using recent_sources_in[OF assms(1) p] by blast
  then show ?thesis using assms p Some by (simp add: ids_parent_def compute_recent_sources_def)
qed (use assms in \<open>simp add: ids_parent_def\<close>)

lemma ids_push_in:
  assumes "i < graph_len g" "case p of None \<Rightarrow> True | Some (pid, rs) \<Rightarrow> pid < graph_len g"
  shows "\<exists>f'. ids_push h g p f i = Returned f' \<and> ids_held f' = add_mset i (ids_held f) \<and> True = True"
  using assms by (auto simp: ids_push_def ids_held_def count_reversals_def Let_def split: option.splits)

lemma ids_receive_in:
  assumes "graph_wf g" "\<forall>i \<in> set is. i < graph_len g"
  shows "\<exists>f'. ids_receive h f is g = Returned f' \<and> ids_held f' = ids_held f + mset is"
proof (cases "is")
  case (Cons i rest)
  then obtain p where p: "ids_parent g i = Returned p" "case p of None \<Rightarrow> True | Some (pid, rs) \<Rightarrow> pid < graph_len g"
    using ids_parent_in[OF assms(1), of i] assms(2) by auto
  have "\<exists>f'. fold_outcome (ids_push h g p) f is = Returned f' \<and> ids_held f' = ids_held f + mset is \<and> True = True"
    using fold_push[of "is" "ids_push h g p" ids_held "\<lambda>_. True" f] ids_push_in[OF _ p(2)] assms(2) by blast
  moreover have "ids_receive h f is g = fold_outcome (ids_push h g p) f is"
    unfolding ids_receive_def Cons list.case p(1) bind_outcome_simps by simp
  ultimately show ?thesis by simp
qed (simp add: ids_receive_def)

interpretation ids: frontier "ids_ops h" ids_held for h
proof
  show "select_next (ids_ops h) f = None \<longleftrightarrow> ids_held f = {#}" for f
    by (simp add: ids_ops_def ids_select_def ids_held_def)
  show "select_next (ids_ops h) f = Some (i, f') \<Longrightarrow>
      ids_held f = add_mset i (ids_held f') \<and> check_goal_on_pop (ids_ops h) f' = check_goal_on_pop (ids_ops h) f" for f i f'
    by (auto simp: ids_ops_def ids_held_def ids_select_def dest!: heap_pop_Some)
  show "\<exists>f'. receive_children (ids_ops h) f is g = Returned f' \<and> ids_held f' = ids_held f + mset is
        \<and> check_goal_on_pop (ids_ops h) f' = check_goal_on_pop (ids_ops h) f"
    if "graph_wf g" "\<forall>i \<in> set is. i < graph_len g" for f "is" g
    using ids_receive_in[OF that, of h f] by (simp add: ids_ops_def)
qed (simp add: ids_ops_def)

section \<open>The order in which nodes are handed out\<close>

lemma priority_key_le: "priority_key e' \<le> priority_key e \<longleftrightarrow>
    (pe_f_score e, - total_key (pe_g_score e), pe_node_id e)
      \<le> (pe_f_score e', - total_key (pe_g_score e'), pe_node_id e')"
  by (auto simp: priority_key_def less_eq_prod_simp less_f64_def less_eq_f64_def dest: total_key_inj)

lemma ids_key_le: "ids_key e' \<le> ids_key e \<longleftrightarrow>
    (ie_h_score e, - uint (ie_depth e), uint (ie_insertion_order e))
      \<le> (ie_h_score e', - uint (ie_depth e'), uint (ie_insertion_order e'))"
  by (auto simp: ids_key_def less_eq_prod_simp less_f64_def less_eq_f64_def dest: total_key_inj)

lemma priority_select_order:
  assumes "priority_select f = Some (i, f')"
  shows "\<exists>e. pe_node_id e = i \<and> mset (pf_heap f) = add_mset e (mset (pf_heap f'))
        \<and> set (pf_heap f) \<subseteq> {e'. (pe_f_score e, - total_key (pe_g_score e), i)
             \<le> (pe_f_score e', - total_key (pe_g_score e'), pe_node_id e')}"
proof -
  obtain e h where e: "heap_pop priority_key (pf_heap f) = Some (e, h)" "i = pe_node_id e" "f' = f\<lparr>pf_heap := h\<rparr>"
    using priority_select_Some[OF assms] by blast
  show ?thesis
    using heap_pop_Some[OF e(1)] e(2,3) priority_key_le[of _ e] by (intro exI[of _ e]) (simp add: subset_iff)
qed

lemma ids_select_order:
  assumes "ids_select d = Some (i, d')"
  shows "\<exists>e. ie_node_id e = i \<and> mset (if_heap d) = add_mset e (mset (if_heap d'))
        \<and> set (if_heap d) \<subseteq> {e'. (ie_h_score e, - uint (ie_depth e), uint (ie_insertion_order e))
             \<le> (ie_h_score e', - uint (ie_depth e'), uint (ie_insertion_order e'))}"
proof -
  obtain e h where e: "heap_pop ids_key (if_heap d) = Some (e, h)" "i = ie_node_id e" "d' = d\<lparr>if_heap := h\<rparr>"
    using assms by (auto simp: ids_select_def)
  show ?thesis
    using heap_pop_Some[OF e(1)] e(2,3) ids_key_le[of _ e] by (intro exI[of _ e]) (simp add: subset_iff)
qed

lemma sorted_last_max: "sorted (map k ys) \<Longrightarrow> y \<in> set ys \<Longrightarrow> k y \<le> k (last ys)"
  by (cases ys rule: rev_cases) (auto simp: sorted_append)

lemma dfs_order:
  assumes "\<forall>i \<in> set is. i < graph_len g" "is \<noteq> []"
  shows "\<exists>stack' i rest. dfs_receive h stack is g = Returned stack' \<and> dfs_select stack' = Some (i, rest)
    \<and> i \<in> set is \<and> (\<forall>j \<in> set is. h (nd_config (sg_nodes g ! i)) \<le> h (nd_config (sg_nodes g ! j)))"
proof -
  let ?score = "\<lambda>i. h (nd_config (sg_nodes g ! i))"
  let ?key = "\<lambda>(s, _ :: nat). - total_key s"
  define xs where "xs = sort_key ?key (map (\<lambda>i. (?score i, i)) is)"
  have xs: "set xs = (\<lambda>i. (?score i, i)) ` set is" unfolding xs_def set_sort by simp
  have sorted: "sorted (map ?key xs)" unfolding xs_def by (rule sorted_sort_key)
  have ne: "xs \<noteq> []" using xs assms(2) by (metis image_is_empty set_empty)
  then obtain i where i: "i \<in> set is" "last xs = (?score i, i)"
    using last_in_set[OF ne] unfolding xs by blast
  have "?score i \<le> ?score j" if "j \<in> set is" for j
  proof -
    have "(?score j, j) \<in> set xs" using that xs by blast
    from sorted_last_max[OF sorted this] show ?thesis by (simp add: i(2) less_eq_f64_def)
  qed
  moreover have "dfs_select (stack @ map snd xs) = Some (i, butlast (stack @ map snd xs))"
    using ne i(2) by (simp add: dfs_select_def last_map)
  moreover have "dfs_receive h stack is g = Returned (stack @ map snd xs)"
    using dfs_receive_in[OF assms(1), of h stack] unfolding xs_def .
  ultimately show ?thesis using i(1) by blast
qed

lemma graph_config_Panicked: "graph_config g i = Panicked \<longleftrightarrow> graph_len g \<le> i"
  by (cases "i < graph_len g") (simp_all add: graph_config_def node_at_def graph_len_def list_get_def)

lemma dfs_receive_Panicked:
  "dfs_receive h stack (c # cs) g = Panicked \<longleftrightarrow> list_ex (\<lambda>i. graph_len g \<le> i) (c # cs)"
proof -
  have "dfs_receive h stack (c # cs) g = Panicked \<longleftrightarrow>
      traverse_outcome (\<lambda>i. bind_outcome (graph_config g i) (\<lambda>c. Returned (h c, i))) (c # cs) = Panicked"
    unfolding dfs_receive_def by (simp del: traverse_outcome.simps)
  then show ?thesis
    unfolding traverse_outcome_Panicked_iff list_ex_iff by (simp add: graph_config_Panicked)
qed

section \<open>Properties\<close>

text \<open>C24. The frontiers hand out the best node they hold.  The priority frontier takes an entry of
  least \<open>f\<close>, among those one of greatest \<open>g\<close>, and among those the one of least node; the diving
  frontier one of least estimate, then the deepest, then the first inserted; and the depth-first
  frontier a child of least estimate among those it has just received.  Scores compare by \<open>total_cmp\<close>.\<close>
theorem frontier_order:
  "(case priority_select f of
      None \<Rightarrow> pf_heap f = []
    | Some (i, f') \<Rightarrow> (\<exists>e. pe_node_id e = i \<and> mset (pf_heap f) = add_mset e (mset (pf_heap f'))
        \<and> set (pf_heap f) \<subseteq> {e'. (pe_f_score e, - total_key (pe_g_score e), i)
             \<le> (pe_f_score e', - total_key (pe_g_score e'), pe_node_id e')}))
   \<and> (case ids_select d of
      None \<Rightarrow> if_heap d = []
    | Some (i, d') \<Rightarrow> (\<exists>e. ie_node_id e = i \<and> mset (if_heap d) = add_mset e (mset (if_heap d'))
        \<and> set (if_heap d) \<subseteq> {e'. (ie_h_score e, - uint (ie_depth e), uint (ie_insertion_order e))
             \<le> (ie_h_score e', - uint (ie_depth e'), uint (ie_insertion_order e'))}))
   \<and> (case dfs_receive h stack (c # cs) g of
        Panicked \<Rightarrow> list_ex (\<lambda>i. graph_len g \<le> i) (c # cs)
      | Returned stack' \<Rightarrow>
          (case dfs_select stack' of
             None \<Rightarrow> False
           | Some (i, rest) \<Rightarrow> i \<in> set (c # cs)
               \<and> set (c # cs) \<subseteq> {j. h (nd_config (sg_nodes g ! i)) \<le> h (nd_config (sg_nodes g ! j))}))"
proof (intro conjI)
  show "case priority_select f of
      None \<Rightarrow> pf_heap f = []
    | Some (i, f') \<Rightarrow> (\<exists>e. pe_node_id e = i \<and> mset (pf_heap f) = add_mset e (mset (pf_heap f'))
        \<and> set (pf_heap f) \<subseteq> {e'. (pe_f_score e, - total_key (pe_g_score e), i)
             \<le> (pe_f_score e', - total_key (pe_g_score e'), pe_node_id e')})"
  proof (cases "priority_select f")
    case (Some r)
    then obtain i f' where "priority_select f = Some (i, f')" by (cases r) auto
    from priority_select_order[OF this] this show ?thesis by simp
  qed (simp add: priority_select_def)
  show "case ids_select d of
      None \<Rightarrow> if_heap d = []
    | Some (i, d') \<Rightarrow> (\<exists>e. ie_node_id e = i \<and> mset (if_heap d) = add_mset e (mset (if_heap d'))
        \<and> set (if_heap d) \<subseteq> {e'. (ie_h_score e, - uint (ie_depth e), uint (ie_insertion_order e))
             \<le> (ie_h_score e', - uint (ie_depth e'), uint (ie_insertion_order e'))})"
  proof (cases "ids_select d")
    case (Some r)
    then obtain i d' where "ids_select d = Some (i, d')" by (cases r) auto
    from ids_select_order[OF this] this show ?thesis by simp
  qed (simp add: ids_select_def)
  show "case dfs_receive h stack (c # cs) g of
        Panicked \<Rightarrow> list_ex (\<lambda>i. graph_len g \<le> i) (c # cs)
      | Returned stack' \<Rightarrow>
          (case dfs_select stack' of
             None \<Rightarrow> False
           | Some (i, rest) \<Rightarrow> i \<in> set (c # cs)
               \<and> set (c # cs) \<subseteq> {j. h (nd_config (sg_nodes g ! i)) \<le> h (nd_config (sg_nodes g ! j))})"
  proof (cases "list_ex (\<lambda>i. graph_len g \<le> i) (c # cs)")
    case True
    then have "dfs_receive h stack (c # cs) g = Panicked" using dfs_receive_Panicked by blast
    with True show ?thesis by simp
  next
    case False
    then have "\<forall>i \<in> set (c # cs). i < graph_len g" by (auto simp: list_ex_iff)
    from dfs_order[OF this, of h stack] obtain stack' i rest
      where "dfs_receive h stack (c # cs) g = Returned stack'" "dfs_select stack' = Some (i, rest)"
        "i \<in> set (c # cs)" "\<forall>j \<in> set (c # cs). h (nd_config (sg_nodes g ! i)) \<le> h (nd_config (sg_nodes g ! j))"
      by blast
    then show ?thesis by (simp add: subset_iff)
  qed
qed

end
