(* ===== verification/Heuristics.thy ===== *)
theory Heuristics
  imports Distance Frontier
begin

text \<open>
  The estimates of the cost still to pay: \<open>MisplacedHeuristic\<close> and \<open>HopDistanceHeuristic\<close> of
  \<open>primitives/distance.rs\<close> and their wrappers in \<open>heuristics.rs\<close>.  Both read the places of the
  targeted qubits in a configuration and look distances up in a table.  The sum is accumulated in
  \<open>u32\<close> with the wrap-around of a release build.
\<close>

definition f64_infinity :: f64 where "f64_infinity = F64 0x7FF0000000000000"

type_synonym qubit_targets = "(u32 \<times> u64) list"

section \<open>The estimates\<close>

fun misplaced_estimate :: "qubit_targets \<Rightarrow> config \<Rightarrow> f64" where
  "misplaced_estimate [] c = pos_zero"
| "misplaced_estimate ((qid, target_enc) # ts) c =
     (case location_of c qid of
        Some loc \<Rightarrow> if location_encode loc \<noteq> target_enc then one_f64 else misplaced_estimate ts c
      | None \<Rightarrow> f64_infinity)"

text \<open>The loops of \<open>estimate_max\<close> and \<open>estimate_sum\<close>; \<open>None\<close> is the early return of infinity.\<close>
fun max_hops :: "distance_table \<Rightarrow> config \<Rightarrow> u32 \<Rightarrow> qubit_targets \<Rightarrow> u32 option" where
  "max_hops T c max_dist [] = Some max_dist"
| "max_hops T c max_dist ((qid, target_enc) # ts) =
     (case location_of c qid of
        None \<Rightarrow> None
      | Some loc \<Rightarrow>
          let loc_enc = location_encode loc
          in if loc_enc = target_enc then max_hops T c max_dist ts
             else (case table_distance T loc_enc target_enc of
                     None \<Rightarrow> None
                   | Some d \<Rightarrow> max_hops T c (max max_dist d) ts))"

fun sum_hops :: "distance_table \<Rightarrow> config \<Rightarrow> u32 \<Rightarrow> qubit_targets \<Rightarrow> u32 option" where
  "sum_hops T c acc [] = Some acc"
| "sum_hops T c acc ((qid, target_enc) # ts) =
     (case location_of c qid of
        None \<Rightarrow> None
      | Some loc \<Rightarrow>
          let loc_enc = location_encode loc
          in if loc_enc = target_enc then sum_hops T c acc ts
             else (case table_distance T loc_enc target_enc of
                     None \<Rightarrow> None
                   | Some d \<Rightarrow> sum_hops T c (acc + d) ts))"

definition hops_as_f64 :: "u32 option \<Rightarrow> f64" where
  "hops_as_f64 d = (case d of None \<Rightarrow> f64_infinity | Some n \<Rightarrow> f64_of_nat (unat n))"

definition estimate_max :: "distance_table \<Rightarrow> qubit_targets \<Rightarrow> config \<Rightarrow> f64" where
  "estimate_max T targets c = hops_as_f64 (max_hops T c 0 targets)"

definition estimate_sum :: "distance_table \<Rightarrow> qubit_targets \<Rightarrow> config \<Rightarrow> f64" where
  "estimate_sum T targets c = hops_as_f64 (sum_hops T c 0 targets)"

definition encode_targets :: "(u32 \<times> location_addr) list \<Rightarrow> qubit_targets" where
  "encode_targets target = map (\<lambda>(q, l). (q, location_encode l)) target"

text \<open>The wrappers.\<close>
definition max_hop_heuristic :: "distance_table \<Rightarrow> (u32 \<times> location_addr) list \<Rightarrow> heuristic" where
  "max_hop_heuristic T target = estimate_max T (encode_targets target)"

definition sum_hop_heuristic :: "distance_table \<Rightarrow> (u32 \<times> location_addr) list \<Rightarrow> heuristic" where
  "sum_hop_heuristic T target = estimate_sum T (encode_targets target)"

section \<open>What one qubit needs\<close>

definition place :: "config \<Rightarrow> u32 \<Rightarrow> u64 option" where
  "place c q = map_option location_encode (location_of c q)"

definition hop_need :: "distance_table \<Rightarrow> config \<Rightarrow> u32 \<Rightarrow> u64 \<Rightarrow> u32 option" where
  "hop_need T c q t = Option.bind (place c q) (\<lambda>x. if x = t then Some 0 else table_distance T x t)"

lemma max_hops_Cons:
  "max_hops T c m ((q, t) # ts) = Option.bind (hop_need T c q t) (\<lambda>d. max_hops T c (max m d) ts)"
  by (auto simp: hop_need_def place_def Let_def max_def split: option.splits)

lemma sum_hops_Cons:
  "sum_hops T c m ((q, t) # ts) = Option.bind (hop_need T c q t) (\<lambda>d. sum_hops T c (m + d) ts)"
  by (auto simp: hop_need_def place_def Let_def split: option.splits)

lemma max_hops_Some_iff:
  "max_hops T c m ts = Some d \<longleftrightarrow>
     (\<forall>(q, t) \<in> set ts. hop_need T c q t \<noteq> None) \<and> d = Max (insert m ((\<lambda>(q, t). the (hop_need T c q t)) ` set ts))"
proof (induction ts arbitrary: m)
  case (Cons qt ts)
  obtain q t where qt: "qt = (q, t)" by (cases qt)
  show ?case
  proof (cases "hop_need T c q t")
    case None
    then show ?thesis by (simp add: qt max_hops_Cons del: max_hops.simps)
  next
    case (Some n)
    have "Max (insert (max m n) A) = Max (insert m (insert n A))" if "finite A" for A
      using that by (cases "A = {}") (simp_all add: Max_insert max.assoc)
    then show ?thesis using Some Cons.IH[of "max m n"] by (simp add: qt max_hops_Cons del: max_hops.simps)
  qed
qed auto

text \<open>The configuration after each qubit has stayed where it is or followed one lane.\<close>
definition moves_along :: "(u64 \<times> u64) set \<Rightarrow> (config \<times> config) set" where
  "moves_along E = {(c, c'). \<forall>q. rel_option (\<lambda>x y. x = y \<or> (x, y) \<in> E) (place c q) (place c' q)}"

definition at_targets :: "qubit_targets \<Rightarrow> config \<Rightarrow> bool" where
  "at_targets targets c \<longleftrightarrow> (\<forall>(q, t) \<in> set targets. place c q = Some t)"

lemma hop_need_exact:
  assumes "table_exact E ts T" "t \<in> ts" "place c q = Some x" "hop_need T c q t = Some d"
  shows "hop_distance E x t (unat d)"
  using assms by (auto simp: hop_need_def hop_distance_zero table_exact_def split: if_splits)

lemma hop_need_defined:
  assumes "table_exact E ts T" "finite E" "card E < 2 ^ 32 - 1" "t \<in> ts" "place c q = Some x" "hop_distance E x t n"
  shows "\<exists>d. hop_need T c q t = Some d \<and> unat d = n"
proof (cases "x = t")
  case True
  then have "hop_distance E x t 0" by (simp add: hop_distance_zero)
  then have "n = 0" using hop_distance_unique[OF assms(6)] by blast
  then show ?thesis using True assms(5) by (simp add: hop_need_def)
next
  case False
  then show ?thesis using table_exact_defined[OF assms(1-4,6)] assms(5) by (simp add: hop_need_def)
qed

lemma moves_along_path:
  assumes "(c, c') \<in> moves_along E ^^ n" "place c' q = Some t"
  shows "\<exists>x m. place c q = Some x \<and> m \<le> n \<and> hop_distance E x t m"
  using assms(1)
proof (induction n arbitrary: c)
  case 0
  then show ?case using assms(2) hop_distance_zero by auto
next
  case (Suc n)
  then obtain c1 where c1: "(c, c1) \<in> moves_along E" "(c1, c') \<in> moves_along E ^^ n" using relpow_front by metis
  from Suc.IH[OF c1(2)] obtain y m where y: "place c1 q = Some y" "m \<le> n" "hop_distance E y t m" by blast
  have "rel_option (\<lambda>x y. x = y \<or> (x, y) \<in> E) (place c q) (Some y)"
    using c1(1) y(1) unfolding moves_along_def by (metis (mono_tags, lifting) case_prodD mem_Collect_eq)
  then obtain x where x: "place c q = Some x" "x = y \<or> (x, y) \<in> E" by (cases "place c q") auto
  show ?case
  proof (cases "x = y")
    case True
    then show ?thesis using x(1) y(2,3) le_SucI by blast
  next
    case False
    then have "(x, t) \<in> E ^^ Suc m" using x(2) y(3) relpow_front unfolding hop_distance_def by metis
    from hop_distance_least[OF this] obtain k where "k \<le> Suc m" "hop_distance E x t k" by blast
    then show ?thesis using x(1) y(2) by (meson Suc_le_mono le_trans)
  qed
qed

text \<open>C17. The maximum is admissible: when some sequence of \<open>n\<close> steps, in each of which every qubit
  stays or follows one lane, brings all qubits to their targets, then the estimate is a number of
  at most \<open>n\<close>.\<close>
theorem estimate_max_admissible:
  assumes "table_exact (hop_graph idx) (snd ` set targets) T" "card (hop_graph idx) < 2 ^ 32 - 1"
    "(c, c') \<in> moves_along (hop_graph idx) ^^ n" "at_targets targets c'"
  shows "\<exists>d \<le> n. estimate_max T targets c = f64_of_nat d"
proof -
  have need: "\<exists>d. hop_need T c q t = Some d \<and> unat d \<le> n" if qt: "(q, t) \<in> set targets" for q t
  proof -
    have "place c' q = Some t" using assms(4) qt by (auto simp: at_targets_def)
    from moves_along_path[OF assms(3) this] obtain x m where
      x: "place c q = Some x" "m \<le> n" "hop_distance (hop_graph idx) x t m" by blast
    have "t \<in> snd ` set targets" using qt by force
    from hop_need_defined[OF assms(1) finite_hop_graph assms(2) this x(1,3)] x(2) show ?thesis by auto
  qed
  define d where "d = Max (insert 0 ((\<lambda>(q, t). the (hop_need T c q t)) ` set targets))"
  have "max_hops T c 0 targets = Some d"
    unfolding max_hops_Some_iff d_def using need by fastforce
  moreover have "d \<in> insert 0 ((\<lambda>(q, t). the (hop_need T c q t)) ` set targets)"
    unfolding d_def by (rule Max_in) simp_all
  then have "unat d \<le> n" using need by fastforce
  ultimately show ?thesis by (auto simp: estimate_max_def hops_as_f64_def)
qed


section \<open>When the estimate is zero\<close>

lemma bitlen_le: "n < 2 ^ k \<Longrightarrow> bitlen n \<le> k"
proof (induction k arbitrary: n)
  case 0
  then show ?case by (simp add: bitlen.simps)
next
  case (Suc k)
  then have "n div 2 < 2 ^ k" by simp
  from Suc.IH[OF this] show ?case by (simp add: bitlen.simps[of n])
qed

lemma less_bitlen: "n < 2 ^ bitlen n"
proof (induction n rule: bitlen.induct)
  case (1 n)
  show ?case
  proof (cases "n \<le> 0")
    case True
    then show ?thesis by (simp add: bitlen.simps)
  next
    case False
    then have "n div 2 < 2 ^ bitlen (n div 2)" using 1 by simp
    then have "n < 2 * 2 ^ bitlen (n div 2)" by linarith
    then show ?thesis using False by (simp add: bitlen.simps[of n])
  qed
qed

lemma f64_of_nat_bits:
  assumes "0 < n" "n < 2 ^ 32"
  shows "0 < round_magnitude (int n) 1074 \<and> round_magnitude (int n) 1074 < 2047 * 2 ^ 52"
proof -
  define l where "l = bitlen (int n)"
  have l: "l \<le> 32" using bitlen_le[of "int n" 32] assms(2) by (simp add: l_def)
  have "int n * 2 ^ (53 - l) < 2 ^ l * 2 ^ (53 - l)"
    using less_bitlen[of "int n"] by (simp add: l_def)
  also have "(2 :: int) ^ l * 2 ^ (53 - l) = 2 ^ 53" using l by (simp add: power_add[symmetric])
  finally have up: "int n * 2 ^ (53 - l) < 2 ^ 53" .
  have "round_magnitude (int n) 1074 = min (2047 * 2 ^ 52) (int n * 2 ^ (53 - l) + int (l + 1074 - 53) * 2 ^ 52)"
    using l by (simp add: round_magnitude_def l_def[symmetric] Let_def)
  moreover have "int (l + 1074 - 53) \<le> 1053" using l by simp
  then have "int (l + 1074 - 53) * 2 ^ 52 \<le> 1053 * 2 ^ 52" by (intro mult_right_mono) simp_all
  moreover have "0 < int n * 2 ^ (53 - l)" using assms(1) by simp
  ultimately show ?thesis using up by (simp add: add_pos_nonneg)
qed

lemma f64_of_nat_nonzero:
  assumes "0 < n" "n < 2 ^ 32"
  shows "f64_of_nat n \<noteq> pos_zero" "f64_of_nat n \<noteq> f64_infinity"
proof -
  let ?m = "round_magnitude (int n) 1074"
  have m: "0 < ?m" "?m < 2047 * 2 ^ 52" using f64_of_nat_bits[OF assms] by auto
  have u: "uint (word_of_int ?m :: u64) = ?m" using m by (simp add: take_bit_int_eq_self unsigned_of_int)
  have "f64_of_nat n = F64 (word_of_int ?m)" using assms(1) by (simp add: f64_of_nat_def round_scaled_def make_f64_def)
  then show "f64_of_nat n \<noteq> pos_zero" "f64_of_nat n \<noteq> f64_infinity"
    using u m by (auto simp: pos_zero_def f64_infinity_def)
qed

lemma infinity_not_zero: "f64_infinity \<noteq> pos_zero"
  by code_simp

lemma hops_as_f64_zero: "hops_as_f64 d = pos_zero \<longleftrightarrow> d = Some 0"
proof (cases d)
  case None
  then show ?thesis by (simp add: hops_as_f64_def infinity_not_zero)
next
  case (Some n)
  have "unat n < 2 ^ 32" using unsigned_less[of n, where 'a = nat] by simp
  then show ?thesis
    using Some f64_of_nat_nonzero(1)[of "unat n"] f64_of_zero by (cases "n = 0") (auto simp: hops_as_f64_def unat_gt_0)
qed

text \<open>The estimate is zero exactly for the configurations with every qubit at its target.\<close>
theorem estimate_max_zero_iff:
  assumes "table_exact E (snd ` set targets) T"
  shows "estimate_max T targets c = pos_zero \<longleftrightarrow> at_targets targets c"
proof -
  have zero: "hop_need T c q t = Some 0 \<longleftrightarrow> place c q = Some t" if "(q, t) \<in> set targets" for q t
  proof
    assume a: "hop_need T c q t = Some 0"
    then obtain x where x: "place c q = Some x" by (auto simp: hop_need_def bind_eq_Some_conv)
    have "t \<in> snd ` set targets" using that by force
    from hop_need_exact[OF assms this x a] x show "place c q = Some t" by (simp add: hop_distance_zero_iff)
  qed (simp add: hop_need_def)
  have "estimate_max T targets c = pos_zero \<longleftrightarrow> max_hops T c 0 targets = Some 0"
    by (simp add: estimate_max_def hops_as_f64_zero)
  also have "\<dots> \<longleftrightarrow> (\<forall>(q, t) \<in> set targets. hop_need T c q t = Some 0)"
  proof
    assume m: "max_hops T c 0 targets = Some 0"
    show "\<forall>(q, t) \<in> set targets. hop_need T c q t = Some 0"
    proof (clarify)
      fix q t assume qt: "(q, t) \<in> set targets"
      then obtain d where d: "hop_need T c q t = Some d" using m unfolding max_hops_Some_iff by fastforce
      have "d \<le> Max (insert 0 ((\<lambda>(q, t). the (hop_need T c q t)) ` set targets))"
        using qt d by (intro Max_ge) force+
      then have "d = 0" using m unfolding max_hops_Some_iff by simp
      then show "hop_need T c q t = Some 0" using d by simp
    qed
  next
    assume a: "\<forall>(q, t) \<in> set targets. hop_need T c q t = Some 0"
    then have "(\<lambda>(q, t). the (hop_need T c q t)) ` set targets \<subseteq> {0}" by fastforce
    then have eq: "insert 0 ((\<lambda>(q, t). the (hop_need T c q t)) ` set targets) = {0}" by auto
    show "max_hops T c 0 targets = Some 0" unfolding max_hops_Some_iff eq using a by auto
  qed
  also have "\<dots> \<longleftrightarrow> at_targets targets c" unfolding at_targets_def using zero by fastforce
  finally show ?thesis .
qed

lemma misplaced_zero_iff: "misplaced_estimate targets c = pos_zero \<longleftrightarrow> at_targets targets c"
proof -
  have "one_f64 \<noteq> pos_zero" by code_simp
  then show ?thesis
    by (induction targets)
      (auto simp: at_targets_def place_def infinity_not_zero split: option.splits if_splits)
qed

text \<open>C20. The maximum is consistent: a step changes it by at most one.\<close>
theorem estimate_max_consistent:
  assumes "table_exact (hop_graph idx) (snd ` set targets) T" "card (hop_graph idx) < 2 ^ 32 - 1"
    "(c, c') \<in> moves_along (hop_graph idx)" "max_hops T c' 0 targets = Some d'"
  shows "\<exists>d. max_hops T c 0 targets = Some d \<and> unat d \<le> Suc (unat d')"
proof -
  have all: "\<forall>(q, t) \<in> set targets. hop_need T c' q t \<noteq> None"
    and d': "d' = Max (insert 0 ((\<lambda>(q, t). the (hop_need T c' q t)) ` set targets))"
    using assms(4) unfolding max_hops_Some_iff by blast+
  have need: "\<exists>d. hop_need T c q t = Some d \<and> unat d \<le> Suc (unat d')" if qt: "(q, t) \<in> set targets" for q t
  proof -
    obtain e where e: "hop_need T c' q t = Some e" using all qt by fastforce
    have "e \<le> d'" unfolding d' using qt e by (intro Max_ge) force+
    then have le: "unat e \<le> unat d'" by (simp add: word_le_nat_alt)
    have t: "t \<in> snd ` set targets" using qt by force
    obtain y where y: "place c' q = Some y" using e by (auto simp: hop_need_def bind_eq_Some_conv)
    from hop_need_exact[OF assms(1) t y e] have hy: "hop_distance (hop_graph idx) y t (unat e)" .
    have "rel_option (\<lambda>x y. x = y \<or> (x, y) \<in> hop_graph idx) (place c q) (Some y)"
      using assms(3) y unfolding moves_along_def by (metis (mono_tags, lifting) case_prodD mem_Collect_eq)
    then obtain x where x: "place c q = Some x" "x = y \<or> (x, y) \<in> hop_graph idx" by (cases "place c q") auto
    have "\<exists>k \<le> Suc (unat e). hop_distance (hop_graph idx) x t k"
    proof (cases "x = y")
      case True
      then show ?thesis using hy by (intro exI[of _ "unat e"]) simp
    next
      case False
      then have "(x, t) \<in> hop_graph idx ^^ Suc (unat e)" using x(2) hy relpow_front unfolding hop_distance_def by metis
      from hop_distance_least[OF this] show ?thesis by blast
    qed
    then obtain k where k: "k \<le> Suc (unat e)" "hop_distance (hop_graph idx) x t k" by blast
    from hop_need_defined[OF assms(1) finite_hop_graph assms(2) t x(1) k(2)] k(1) le
    show ?thesis by fastforce
  qed
  define d where "d = Max (insert 0 ((\<lambda>(q, t). the (hop_need T c q t)) ` set targets))"
  have "max_hops T c 0 targets = Some d"
    unfolding max_hops_Some_iff d_def using need by fastforce
  moreover have "d \<in> insert 0 ((\<lambda>(q, t). the (hop_need T c q t)) ` set targets)"
    unfolding d_def by (rule Max_in) simp_all
  then have "unat d \<le> Suc (unat d')" using need by fastforce
  ultimately show ?thesis by blast
qed


section \<open>On the example architecture\<close>

abbreviation example_source :: location_addr where
  "example_source \<equiv> \<lparr>loc_zone_id = 0, loc_word_id = 1, loc_site_id = 1\<rparr>"

abbreviation example_target :: location_addr where
  "example_target \<equiv> \<lparr>loc_zone_id = 0, loc_word_id = 1, loc_site_id = 0\<rparr>"

lemma example_table:
  obtains T where "distance_table_new (map snd (encode_targets [(0, example_target)])) example_index = Some (Returned T)"
    "table_exact (hop_graph example_index) (snd ` set (encode_targets [(0, example_target)])) T"
  using distance_table_new_exact[OF example_hops_small, of "map snd (encode_targets [(0, example_target)])"] by auto

definition one_qubit_at :: "location_addr \<Rightarrow> config" where
  "one_qubit_at loc = (let es = [(0, location_encode loc)] in \<lparr>entries = es, cached_hash = hash_entries es\<rparr>)"

lemma one_qubit_new: "config_new [(0, loc)] = Inr (one_qubit_at loc)"
  by (simp add: config_new_def one_qubit_at_def Let_def)

lemma one_qubit_place:
  assumes "loc_fits loc"
  shows "place (one_qubit_at loc) q = (if q = 0 then Some (location_encode loc) else None)"
proof -
  have "config_wf (one_qubit_at loc)" by (simp add: config_wf_def one_qubit_at_def Let_def)
  from location_of_map[OF this] show ?thesis
    using loc_codec.roundtrip[OF assms] by (auto simp: place_def config_map_def one_qubit_at_def Let_def)
qed

lemma example_locs_fit: "loc_fits example_source" "loc_fits example_target"
  by (simp_all add: loc_fits_def)

lemma example_step: "(one_qubit_at example_source, one_qubit_at example_target) \<in> moves_along (hop_graph example_index)"
proof -
  have "(location_encode example_source, location_encode example_target) \<in> hop_graph example_index"
    unfolding hop_graph_arch[OF example_fits rearranges_rev]
    using index_lane_endpoints by (force simp: index_lane_def)
  then show ?thesis by (simp add: moves_along_def one_qubit_place example_locs_fit)
qed

lemma example_at_target: "at_targets (encode_targets [(0, example_target)]) (one_qubit_at example_target)"
  by (simp add: at_targets_def encode_targets_def one_qubit_place example_locs_fit)

theorem estimate_max_admissible_witness:
  "\<exists>T. distance_table_new (map snd (encode_targets [(0, example_target)])) example_index = Some (Returned T)
     \<and> (\<exists>d \<le> 1. estimate_max T (encode_targets [(0, example_target)]) (one_qubit_at example_source) = f64_of_nat d)"
proof -
  obtain T where T: "distance_table_new (map snd (encode_targets [(0, example_target)])) example_index = Some (Returned T)"
    "table_exact (hop_graph example_index) (snd ` set (encode_targets [(0, example_target)])) T" by (rule example_table)
  have "(one_qubit_at example_source, one_qubit_at example_target) \<in> moves_along (hop_graph example_index) ^^ 1"
    using example_step by simp
  from estimate_max_admissible[OF T(2) example_hops_small this example_at_target] T(1) show ?thesis by blast
qed

theorem estimate_max_zero_iff_witness:
  "\<exists>T. distance_table_new (map snd (encode_targets [(0, example_target)])) example_index = Some (Returned T)
     \<and> estimate_max T (encode_targets [(0, example_target)]) (one_qubit_at example_target) = pos_zero
     \<and> estimate_max T (encode_targets [(0, example_target)]) (one_qubit_at example_source) \<noteq> pos_zero"
proof -
  obtain T where T: "distance_table_new (map snd (encode_targets [(0, example_target)])) example_index = Some (Returned T)"
    "table_exact (hop_graph example_index) (snd ` set (encode_targets [(0, example_target)])) T" by (rule example_table)
  have "location_encode example_source \<noteq> location_encode example_target" by code_simp
  then have "\<not> at_targets (encode_targets [(0, example_target)]) (one_qubit_at example_source)"
    by (simp add: at_targets_def encode_targets_def one_qubit_place example_locs_fit)
  then show ?thesis using estimate_max_zero_iff[OF T(2)] example_at_target T(1) by blast
qed

theorem estimate_max_consistent_witness:
  "\<exists>T. distance_table_new (map snd (encode_targets [(0, example_target)])) example_index = Some (Returned T)
     \<and> (\<exists>d. max_hops T (one_qubit_at example_source) 0 (encode_targets [(0, example_target)]) = Some d \<and> unat d \<le> 1)"
proof -
  obtain T where T: "distance_table_new (map snd (encode_targets [(0, example_target)])) example_index = Some (Returned T)"
    "table_exact (hop_graph example_index) (snd ` set (encode_targets [(0, example_target)])) T" by (rule example_table)
  have "hop_need T (one_qubit_at example_target) 0 (location_encode example_target) = Some 0"
    by (simp add: hop_need_def one_qubit_place example_locs_fit)
  then have "max_hops T (one_qubit_at example_target) 0 (encode_targets [(0, example_target)]) = Some 0"
    by (simp add: encode_targets_def max_hops_Cons del: max_hops.simps(2))
  from estimate_max_consistent[OF T(2) example_hops_small example_step this] T(1) show ?thesis by auto
qed

end
