(* ===== verification/Entangling_Set.thy ===== *)
theory Entangling_Set
  imports Heuristics Rust_Map
begin

text \<open>
  The entangling positions of an architecture and the distances to them: the first part of
  \<open>ops/entangling.rs\<close>, and \<open>PairDistanceHeuristic\<close> of \<open>primitives/distance.rs\<close>.  A hash set that
  is traversed is kept as its elements in the order of the traversal, which the parameter
  \<open>order\<close> decides.
\<close>

record word_pair =
  wp_zone_id :: u32
  wp_word_a :: u32
  wp_word_b :: u32

definition enumerate_word_pairs :: "arch_spec \<Rightarrow> word_pair list" where
  "enumerate_word_pairs a =
     concat (map (\<lambda>(zone_id, z). map (\<lambda>(w_a, w_b). \<lparr>wp_zone_id = of_nat zone_id, wp_word_a = w_a, wp_word_b = w_b\<rparr>)
       (entangling_pairs z)) (enumerate 0 (zones a)))"

text \<open>The two halves of a slot: one site on either word.\<close>
definition slot_at :: "word_pair \<Rightarrow> u32 \<Rightarrow> u64 \<times> u64" where
  "slot_at wp site =
     (location_encode \<lparr>loc_zone_id = wp_zone_id wp, loc_word_id = wp_word_a wp, loc_site_id = site\<rparr>,
      location_encode \<lparr>loc_zone_id = wp_zone_id wp, loc_word_id = wp_word_b wp, loc_site_id = site\<rparr>)"

text \<open>\<open>0..sites_per_word\<close> after the cast to \<open>u32\<close>.\<close>
definition site_range :: "arch_spec \<Rightarrow> u32 list" where
  "site_range a = map of_nat [0..<unat (num_sites a)]"

definition position_slots :: "arch_spec \<Rightarrow> (u64 \<times> u64) list" where
  "position_slots a = concat (map (\<lambda>wp. map (slot_at wp) (site_range a)) (enumerate_word_pairs a))"

definition all_entangling_locations :: "arch_spec \<Rightarrow> u64 list" where
  "all_entangling_locations a =
     remdups_adj (sort (concat (map (\<lambda>wp. concat (map (\<lambda>site. [fst (slot_at wp site), snd (slot_at wp site)])
       (site_range a))) (enumerate_word_pairs a))))"

type_synonym pair_order = "(u64 \<times> u64) list \<Rightarrow> (u64 \<times> u64) list"

definition build_entangling_set :: "pair_order \<Rightarrow> arch_spec \<Rightarrow> (u64 \<times> u64) list" where
  "build_entangling_set order a =
     order (remdups (concat (map (\<lambda>wp. concat (map (\<lambda>site. let (x, y) = slot_at wp site in [(x, y), (y, x)])
       (site_range a))) (enumerate_word_pairs a))))"

definition build_partner_map :: "(u64 \<times> u64) list \<Rightarrow> (u64 \<rightharpoonup> u64)" where
  "build_partner_map entangling_set = foldl (\<lambda>m (a, b). m(a \<mapsto> b)) Map.empty entangling_set"

section \<open>Distances to the words of a pair\<close>

text \<open>\<open>entry(src).or_insert(u32::MAX)\<close>, then the minimum.\<close>
definition lower_entry :: "(u64 \<rightharpoonup> u32) \<Rightarrow> u64 \<times> u32 \<Rightarrow> (u64 \<rightharpoonup> u32)" where
  "lower_entry m = (\<lambda>(src_enc, d). m(src_enc \<mapsto> min (case m src_enc of Some e \<Rightarrow> e | None \<Rightarrow> max_u32) d))"

definition collapse_min_distances :: "distance_table \<Rightarrow> u64 list \<Rightarrow> (u64 \<rightharpoonup> u32)" where
  "collapse_min_distances T targets =
     foldl (\<lambda>m target_enc. foldl lower_entry m (for_each_source T target_enc)) Map.empty targets"

record word_pair_entry =
  wpe_word_pair :: word_pair
  wpe_min_dist_a :: "u64 \<rightharpoonup> u32"
  wpe_min_dist_b :: "u64 \<rightharpoonup> u32"

definition word_pair_distances :: "word_pair list \<Rightarrow> arch_spec \<Rightarrow> distance_table \<Rightarrow> word_pair_entry list" where
  "word_pair_distances word_pairs a T =
     map (\<lambda>wp. \<lparr>wpe_word_pair = wp,
                wpe_min_dist_a = collapse_min_distances T (map (\<lambda>s. fst (slot_at wp s)) (site_range a)),
                wpe_min_dist_b = collapse_min_distances T (map (\<lambda>s. snd (slot_at wp s)) (site_range a))\<rparr>) word_pairs"

section \<open>The pair heuristic\<close>

definition or_max_u32 :: "u32 option \<Rightarrow> u32" where
  "or_max_u32 d = (case d of Some n \<Rightarrow> n | None \<Rightarrow> max_u32)"

definition min_pair_cost :: "word_pair_entry list \<Rightarrow> u32 \<Rightarrow> u32 \<Rightarrow> config \<Rightarrow> u32" where
  "min_pair_cost wpd qa qb c =
     (case location_of c qa of None \<Rightarrow> max_u32
      | Some loc_a \<Rightarrow>
          (case location_of c qb of None \<Rightarrow> max_u32
           | Some loc_b \<Rightarrow>
               foldl (\<lambda>min_cost e.
                  let dist_a = wpe_min_dist_a e; dist_b = wpe_min_dist_b e;
                      a_enc = location_encode loc_a; b_enc = location_encode loc_b;
                      cost1 = max (or_max_u32 (dist_a a_enc)) (or_max_u32 (dist_b b_enc));
                      cost2 = max (or_max_u32 (dist_b a_enc)) (or_max_u32 (dist_a b_enc))
                  in min (min min_cost cost1) cost2) max_u32 wpd))"

definition u32_saturating_add :: "u32 \<Rightarrow> u32 \<Rightarrow> u32" where
  "u32_saturating_add a b = (if unat a + unat b < 2 ^ 32 then a + b else max_u32)"

fun pair_costs :: "(u32 \<Rightarrow> u32 \<Rightarrow> u32) \<Rightarrow> word_pair_entry list \<Rightarrow> config \<Rightarrow> u32 \<Rightarrow> (u32 \<times> u32) list \<Rightarrow> u32 option" where
  "pair_costs combine wpd c acc [] = Some acc"
| "pair_costs combine wpd c acc ((qa, qb) # ps) =
     (let cost = min_pair_cost wpd qa qb c
      in if cost = max_u32 then None else pair_costs combine wpd c (combine acc cost) ps)"

definition pair_estimate_max :: "word_pair_entry list \<Rightarrow> (u32 \<times> u32) list \<Rightarrow> config \<Rightarrow> f64" where
  "pair_estimate_max wpd pairs c = hops_as_f64 (pair_costs max wpd c 0 pairs)"

definition pair_estimate_sum :: "word_pair_entry list \<Rightarrow> (u32 \<times> u32) list \<Rightarrow> config \<Rightarrow> f64" where
  "pair_estimate_sum wpd pairs c = hops_as_f64 (pair_costs u32_saturating_add wpd c 0 pairs)"

section \<open>Conflicts outside the pairs\<close>

text \<open>The spectators of a configuration that sit opposite each other.\<close>
definition accidental_cz :: "(u64 \<rightharpoonup> u64) \<Rightarrow> u32 set \<Rightarrow> config \<Rightarrow> bool" where
  "accidental_cz partner_map cz_qubits c \<longleftrightarrow>
     list_ex (\<lambda>(qid, loc). qid \<notin> cz_qubits \<and>
       (case partner_map (location_encode loc) of
          None \<Rightarrow> False
        | Some partner_enc \<Rightarrow>
            (case qubit_at c (location_decode partner_enc) of
               None \<Rightarrow> False
             | Some other_qid \<Rightarrow> other_qid \<notin> cz_qubits))) (config_iter c)"


text \<open>The spectators to move out of such positions: of each pair of places the qubit with the
  higher number, once.\<close>
definition accidental_step ::
  "(u64 \<rightharpoonup> u64) \<Rightarrow> u32 set \<Rightarrow> config \<Rightarrow> (u32 \<times> location_addr) list \<times> (u64 \<times> u64) set \<Rightarrow> u32 \<times> location_addr
     \<Rightarrow> (u32 \<times> location_addr) list \<times> (u64 \<times> u64) set" where
  "accidental_step partner_map cz_qubits c = (\<lambda>(result, seen_pairs) (qid, loc).
     if qid \<in> cz_qubits then (result, seen_pairs)
     else case partner_map (location_encode loc) of
            None \<Rightarrow> (result, seen_pairs)
          | Some partner_enc \<Rightarrow>
              (case qubit_at c (location_decode partner_enc) of
                 None \<Rightarrow> (result, seen_pairs)
               | Some other_qid \<Rightarrow>
                   if other_qid \<in> cz_qubits then (result, seen_pairs)
                   else let loc_enc = location_encode loc;
                            pair = (if loc_enc < partner_enc then (loc_enc, partner_enc) else (partner_enc, loc_enc))
                        in if pair \<in> seen_pairs then (result, seen_pairs)
                           else (result @ [if other_qid < qid then (qid, loc) else (other_qid, location_decode partner_enc)],
                                 insert pair seen_pairs)))"

definition find_accidental_cz :: "config \<Rightarrow> u32 set \<Rightarrow> (u64 \<rightharpoonup> u64) \<Rightarrow> (u32 \<times> location_addr) list" where
  "find_accidental_cz c cz_qubits partner_map =
     fst (foldl (accidental_step partner_map cz_qubits c) ([], {}) (config_iter c))"

text \<open>\<open>None\<close> is the early return of \<open>u32::MAX\<close> for a qubit that is not there.\<close>
fun assignment_hops :: "distance_table \<Rightarrow> config \<Rightarrow> u32 \<Rightarrow> qubit_targets \<Rightarrow> u32" where
  "assignment_hops T c acc [] = acc"
| "assignment_hops T c acc ((qid, target_enc) # ts) =
     (case location_of c qid of
        None \<Rightarrow> max_u32
      | Some loc \<Rightarrow>
          let loc_enc = location_encode loc
          in if loc_enc = target_enc then assignment_hops T c acc ts
             else assignment_hops T c (u32_saturating_add acc
                    (case table_distance T loc_enc target_enc of Some d \<Rightarrow> d | None \<Rightarrow> max_u32 div 2)) ts)"

definition assignment_cost :: "config \<Rightarrow> qubit_targets \<Rightarrow> distance_table \<Rightarrow> u32" where
  "assignment_cost c targets T = assignment_hops T c 0 targets"

section \<open>Slots\<close>

lemma position_slots_iff:
  "s \<in> set (position_slots a) \<longleftrightarrow> (\<exists>wp \<in> set (enumerate_word_pairs a). \<exists>site \<in> set (site_range a). s = slot_at wp site)"
  by (auto simp: position_slots_def)

lemma entangling_set_iff:
  assumes "rearranges order"
  shows "(x, y) \<in> set (build_entangling_set order a) \<longleftrightarrow> (x, y) \<in> set (position_slots a) \<or> (y, x) \<in> set (position_slots a)"
  unfolding build_entangling_set_def rearranges_set[OF assms]
  by (fastforce simp: position_slots_def split: prod.splits)

lemma partner_map_SomeD: "build_partner_map ps x = Some y \<Longrightarrow> (x, y) \<in> set ps"
  by (induction ps arbitrary: y rule: rev_induct) (auto simp: build_partner_map_def split: if_splits)

lemma partner_map_defined: "(x, y) \<in> set ps \<Longrightarrow> \<exists>y'. build_partner_map ps x = Some y'"
  by (induction ps rule: rev_induct) (auto simp: build_partner_map_def)

text \<open>No place belongs to two pairs: what the comment of \<open>build_partner_map\<close> relies on.\<close>
definition unique_partners :: "(u64 \<times> u64) list \<Rightarrow> bool" where
  "unique_partners ps \<longleftrightarrow> (\<forall>x y z. (x, y) \<in> set ps \<longrightarrow> (x, z) \<in> set ps \<longrightarrow> y = z)"

lemma partner_map_unique: "unique_partners ps \<Longrightarrow> build_partner_map ps x = Some y \<longleftrightarrow> (x, y) \<in> set ps"
  using partner_map_SomeD partner_map_defined unfolding unique_partners_def by metis

section \<open>The collapsed distances are the least\<close>

lemma for_each_source_set:
  assumes "table_wf T"
  shows "set (for_each_source T t) = {(x, d). table_distance T x t = Some d}"
proof (cases "dt_loc_index T t")
  case None
  then show ?thesis by (simp add: for_each_source_def table_distance_def)
next
  case (Some j)
  have li: "dt_loc_index T x = Some i \<longleftrightarrow> i < dt_n_loc T \<and> dt_loc_by_index T ! i = x" for x i
    using assms by (simp add: table_wf_def interned_def)
  show ?thesis
  proof (intro set_eqI)
    fix p :: "u64 \<times> u32"
    obtain x d where p: "p = (x, d)" by (cases p)
    have "p \<in> set (for_each_source T t) \<longleftrightarrow> (\<exists>i < dt_n_loc T. dt_loc_by_index T ! i = x
        \<and> d = dt_flat T ! (i * dt_n_loc T + j) \<and> d \<noteq> max_u32)"
      by (auto simp: for_each_source_def Some p Let_def split: if_splits)
    also have "\<dots> \<longleftrightarrow> table_distance T x t = Some d"
      by (auto simp: table_distance_def Some Let_def bind_eq_Some_conv li split: if_splits)
    finally show "p \<in> set (for_each_source T t) \<longleftrightarrow> p \<in> {(x, d). table_distance T x t = Some d}"
      by (simp add: p)
  qed
qed

lemma le_max_u32: "(b :: u32) \<le> max_u32"
proof -
  have "unat b < 2 ^ 32" using unsigned_less[of b, where 'a = nat] by simp
  then show ?thesis by (simp add: word_le_nat_alt)
qed

lemma lower_entry_pair: "lower_entry m (y, b) = m(y \<mapsto> min (or_max_u32 (m y)) b)"
  by (simp add: lower_entry_def or_max_u32_def)

lemma lower_all: "(x, d) \<in> set xs \<Longrightarrow> \<exists>e \<le> d. foldl lower_entry m xs x = Some e"
proof (induction xs rule: rev_induct)
  case (snoc p xs)
  obtain y b where p: "p = (y, b)" by (cases p)
  show ?case
  proof (cases "p = (x, d)")
    case True
    then show ?thesis by (auto simp: lower_entry_pair)
  next
    case False
    then obtain e where "e \<le> d" "foldl lower_entry m xs x = Some e" using snoc by auto
    then show ?thesis by (auto simp: lower_entry_pair p min.coboundedI1 or_max_u32_def)
  qed
qed simp

lemma lower_attained: "foldl lower_entry Map.empty xs x = Some e \<Longrightarrow> (x, e) \<in> set xs"
proof (induction xs arbitrary: e rule: rev_induct)
  case (snoc p xs)
  obtain y b where p: "p = (y, b)" by (cases p)
  show ?case
  proof (cases "y = x")
    case False
    then show ?thesis using snoc by (simp add: lower_entry_pair p)
  next
    case True
    have "min max_u32 b = b" using le_max_u32 by (rule min.absorb2)
    then show ?thesis using snoc True
      by (cases "foldl lower_entry Map.empty xs x") (auto simp: lower_entry_pair p or_max_u32_def min_def split: if_splits)
  qed
qed simp

lemma collapse_concat: "collapse_min_distances T ts = foldl lower_entry Map.empty (concat (map (for_each_source T) ts))"
  unfolding collapse_min_distances_def by (induction ts rule: rev_induct) simp_all

lemma collapse_le:
  assumes "table_wf T" "t \<in> set ts" "table_distance T x t = Some d"
  shows "\<exists>e \<le> d. collapse_min_distances T ts x = Some e"
  unfolding collapse_concat by (rule lower_all) (use assms for_each_source_set in auto)

lemma collapse_attained:
  assumes "table_wf T" "collapse_min_distances T ts x = Some e"
  shows "\<exists>t \<in> set ts. table_distance T x t = Some e"
  using lower_attained[OF assms(2)[unfolded collapse_concat]] for_each_source_set[OF assms(1)] by auto

end
