(* ===== verification/Goals.thy ===== *)
theory Goals
  imports Entangling_Set
begin

text \<open>
  The goals of a search: \<open>goals.rs\<close>.  A goal is a test of configurations; the goals built from an
  architecture carry the data they were built with.
\<close>

section \<open>The grid\<close>

definition pair_separation_min_grid_distance :: u32 where
  "pair_separation_min_grid_distance = 2"

definition location_grid_index :: "location_addr \<Rightarrow> lane_index \<Rightarrow> (u32 \<times> u32 \<times> u32) option" where
  "location_grid_index loc idx =
     Option.bind (list_get (words (li_arch idx)) (unat (loc_word_id loc))) (\<lambda>word.
     Option.bind (list_get (sites word) (unat (loc_site_id loc))) (\<lambda>(x, y).
       Some (loc_zone_id loc, x, y)))"

definition qubit_grid_index :: "config \<Rightarrow> u32 \<Rightarrow> lane_index \<Rightarrow> (u32 \<times> u32 \<times> u32) option" where
  "qubit_grid_index c qid idx = Option.bind (location_of c qid) (\<lambda>loc. location_grid_index loc idx)"

definition abs_diff :: "u32 \<Rightarrow> u32 \<Rightarrow> u32" where
  "abs_diff a b = (if a < b then b - a else a - b)"

definition atoms_grid_separated :: "u32 \<times> u32 \<times> u32 \<Rightarrow> u32 \<times> u32 \<times> u32 \<Rightarrow> bool" where
  "atoms_grid_separated = (\<lambda>(za, xa, ya) (zb, xb, yb).
     za \<noteq> zb \<or> pair_separation_min_grid_distance \<le> max (abs_diff xa xb) (abs_diff ya yb))"

text \<open>The grid indices of the pairs, or the early return when a qubit has none.\<close>
fun pair_grids :: "config \<Rightarrow> lane_index \<Rightarrow> (u32 \<times> u32) list \<Rightarrow> (u32 \<times> u32 \<times> u32) list list option" where
  "pair_grids c idx [] = Some []"
| "pair_grids c idx ((qa, qb) # ps) =
     Option.bind (qubit_grid_index c qa idx) (\<lambda>ga.
     Option.bind (qubit_grid_index c qb idx) (\<lambda>gb.
     map_option (\<lambda>gs. [ga, gb] # gs) (pair_grids c idx ps)))"

definition pairs_grid_separated :: "config \<Rightarrow> (u32 \<times> u32) list \<Rightarrow> lane_index \<Rightarrow> bool" where
  "pairs_grid_separated c pairs idx =
     (if length pairs < 2 then True
      else case pair_grids c idx pairs of
             None \<Rightarrow> False
           | Some gs \<Rightarrow>
               list_all (\<lambda>i. list_all (\<lambda>j. list_all (\<lambda>a. list_all (\<lambda>b. atoms_grid_separated a b) (gs ! j)) (gs ! i))
                 [i + 1..<length gs]) [0..<length gs])"

section \<open>The goals\<close>

type_synonym goal = "config \<Rightarrow> bool"

definition all_at_target :: "qubit_targets \<Rightarrow> goal" where
  "all_at_target targets c \<longleftrightarrow>
     list_all (\<lambda>(qid, target_enc). case location_of c qid of Some l \<Rightarrow> location_encode l = target_enc | None \<Rightarrow> False) targets"

definition partial_placement_goal :: "qubit_targets \<Rightarrow> nat option \<Rightarrow> goal" where
  "partial_placement_goal targets min_placed c \<longleftrightarrow>
     (case min_placed of Some n \<Rightarrow> n | None \<Rightarrow> length targets)
       \<le> length (filter (\<lambda>(qid, target_enc).
            case location_of c qid of Some l \<Rightarrow> location_encode l = target_enc | None \<Rightarrow> False) targets)"

record entangling_goal =
  eg_pairs :: "(u32 \<times> u32) list"
  eg_valid_placements :: "(u64 \<times> u64) list"
  eg_cz_qubits :: "u32 set"
  eg_partner_map :: "u64 \<rightharpoonup> u64"

definition pair_qubits :: "(u32 \<times> u32) list \<Rightarrow> u32 set" where
  "pair_qubits pairs = set (concat (map (\<lambda>(a, b). [a, b]) pairs))"

definition entangling_goal_new :: "(u32 \<times> u32) list \<Rightarrow> (u64 \<times> u64) list \<Rightarrow> entangling_goal" where
  "entangling_goal_new pairs valid_placements =
     \<lparr>eg_pairs = pairs, eg_valid_placements = valid_placements, eg_cz_qubits = pair_qubits pairs,
      eg_partner_map = build_partner_map valid_placements\<rparr>"

definition entangling_is_goal :: "entangling_goal \<Rightarrow> goal" where
  "entangling_is_goal g c \<longleftrightarrow>
     list_all (\<lambda>(qa, qb).
        case (map_option location_encode (location_of c qa), map_option location_encode (location_of c qb)) of
          (Some a, Some b) \<Rightarrow> (a, b) \<in> set (eg_valid_placements g)
        | _ \<Rightarrow> False) (eg_pairs g)
     \<and> \<not> accidental_cz (eg_partner_map g) (eg_cz_qubits g) c"

definition pair_separation_goal :: "goal \<Rightarrow> (u32 \<times> u32) list \<Rightarrow> lane_index \<Rightarrow> goal" where
  "pair_separation_goal inner pairs idx c \<longleftrightarrow> inner c \<and> pairs_grid_separated c pairs idx"

section \<open>Fixed targets\<close>

lemma all_at_target_iff: "all_at_target targets c \<longleftrightarrow> at_targets targets c"
  by (fastforce simp: all_at_target_def at_targets_def place_def list_all_iff split: option.splits)

lemma partial_placement_all: "partial_placement_goal targets None c \<longleftrightarrow> all_at_target targets c"
proof -
  have "length targets \<le> length (filter P targets) \<longleftrightarrow> list_all P targets" for P :: "u32 \<times> u64 \<Rightarrow> bool"
    by (metis filter_id_conv le_antisym length_filter_le length_filter_less list_all_iff nless_le)
  then show ?thesis by (simp add: partial_placement_goal_def all_at_target_def)
qed

lemma partial_placement_mono:
  "m \<le> n \<Longrightarrow> partial_placement_goal targets (Some n) c \<Longrightarrow> partial_placement_goal targets (Some m) c"
  by (simp add: partial_placement_goal_def)

section \<open>Entangling positions\<close>

text \<open>The places a configuration names are packed addresses, and no two atoms share one.\<close>
definition encoded_config :: "config \<Rightarrow> bool" where
  "encoded_config c \<longleftrightarrow> (\<forall>(q, e) \<in> set (entries c). location_encode (location_decode e) = e)"

definition apart :: "config \<Rightarrow> bool" where
  "apart c \<longleftrightarrow> distinct (map snd (entries c))"

lemma place_map:
  assumes "config_wf c" "encoded_config c"
  shows "place c q = config_map c q"
proof -
  have "location_encode (location_decode e) = e" if "config_map c q = Some e" for e
    using that assms(2) map_of_SomeD by (fastforce simp: config_map_def encoded_config_def)
  then show ?thesis
    using location_of_map[OF assms(1)] by (cases "config_map c q") (auto simp: place_def)
qed

lemma place_entry:
  assumes "config_wf c" "encoded_config c"
  shows "place c q = Some x \<longleftrightarrow> (q, x) \<in> set (entries c)"
  using assms(1) by (simp add: place_map[OF assms] config_map_def config_wf_def)

lemma apart_inj:
  assumes "apart c" "(q, x) \<in> set (entries c)" "(r, x) \<in> set (entries c)"
  shows "q = r"
proof -
  have "inj_on snd (set (entries c))" using assms(1) by (simp add: apart_def distinct_map)
  from inj_onD[OF this _ assms(2,3)] show ?thesis by simp
qed

lemma qubit_at_entry:
  assumes "config_wf c" "encoded_config c" "apart c" "location_encode (location_decode y) = y"
  shows "qubit_at c (location_decode y) = Some r \<longleftrightarrow> place c r = Some y"
proof
  assume "qubit_at c (location_decode y) = Some r"
  then show "place c r = Some y"
    unfolding place_entry[OF assms(1,2)] by (clarsimp simp: qubit_at_def find_Some_iff assms(4)) (metis nth_mem)
next
  assume "place c r = Some y"
  then have r: "(r, y) \<in> set (entries c)" by (simp add: place_entry[OF assms(1,2)])
  then have "find (\<lambda>(qid, eloc). eloc = y) (entries c) \<noteq> None" by (auto simp: find_None_iff)
  then obtain p where p: "find (\<lambda>(qid, eloc). eloc = y) (entries c) = Some p" by blast
  then have "p \<in> set (entries c)" "snd p = y" by (auto simp: find_Some_iff) (metis nth_mem)
  then have "fst p = r" using apart_inj[OF assms(3) _ r, of "fst p"] by (metis prod.collapse)
  then show "qubit_at c (location_decode y) = Some r" using p by (simp add: qubit_at_def assms(4))
qed

text \<open>C19. The entangling goal, for placements in which no place has two partners and a
  configuration of distinct places: every pair of qubits occupies a placement, and no two
  qubits outside the pairs occupy one.\<close>
theorem entangling_goal_spec:
  assumes "config_wf c" "encoded_config c" "apart c" "unique_partners valid"
    "list_all (\<lambda>(x, y). location_encode (location_decode y) = y) valid"
  shows "entangling_is_goal (entangling_goal_new pairs valid) c \<longleftrightarrow>
    (\<forall>(qa, qb) \<in> set pairs. \<exists>x y. place c qa = Some x \<and> place c qb = Some y \<and> (x, y) \<in> set valid)
    \<and> (\<nexists>q r x y. q \<notin> pair_qubits pairs \<and> r \<notin> pair_qubits pairs \<and> place c q = Some x \<and> place c r = Some y \<and> (x, y) \<in> set valid)"
proof -
  have enc: "location_encode (location_decode y) = y" if "(x, y) \<in> set valid" for x y
    using assms(5) that by (fastforce simp: list_all_iff)
  have acc: "accidental_cz (build_partner_map valid) Q c \<longleftrightarrow>
      (\<exists>q r x y. q \<notin> Q \<and> r \<notin> Q \<and> place c q = Some x \<and> place c r = Some y \<and> (x, y) \<in> set valid)" for Q
  proof -
    have one: "(case build_partner_map valid (location_encode (location_decode x)) of None \<Rightarrow> False
        | Some y \<Rightarrow> (case qubit_at c (location_decode y) of None \<Rightarrow> False | Some r \<Rightarrow> r \<notin> Q))
      \<longleftrightarrow> (\<exists>r y. r \<notin> Q \<and> place c r = Some y \<and> (x, y) \<in> set valid)" if x: "(q, x) \<in> set (entries c)" for q x
    proof -
      have e: "location_encode (location_decode x) = x" using assms(2) x by (fastforce simp: encoded_config_def)
      show ?thesis
      proof (cases "build_partner_map valid x")
        case None
        then show ?thesis using partner_map_defined unfolding e by fastforce
      next
        case (Some y)
        then have y: "(x, y) \<in> set valid" by (rule partner_map_SomeD)
        have only: "(x, z) \<in> set valid \<longleftrightarrow> z = y" for z using y assms(4) unfolding unique_partners_def by blast
        show ?thesis unfolding e Some option.case only
          using qubit_at_entry[OF assms(1-3) enc[OF y]] by (auto split: option.split) (metis option.inject)
      qed
    qed
    have "accidental_cz (build_partner_map valid) Q c \<longleftrightarrow>
        (\<exists>(q, x) \<in> set (entries c). q \<notin> Q \<and> (case build_partner_map valid (location_encode (location_decode x)) of None \<Rightarrow> False
          | Some y \<Rightarrow> (case qubit_at c (location_decode y) of None \<Rightarrow> False | Some r \<Rightarrow> r \<notin> Q)))"
      unfolding accidental_cz_def config_iter_def list_ex_iff set_map Set.bex_simps(7)
      by (rule bex_cong[OF refl]) (simp only: split_paired_all prod.case)
    also have "\<dots> \<longleftrightarrow> (\<exists>(q, x) \<in> set (entries c). q \<notin> Q \<and> (\<exists>r y. r \<notin> Q \<and> place c r = Some y \<and> (x, y) \<in> set valid))"
      by (rule bex_cong[OF refl]) (auto simp only: split_paired_all prod.case one)
    also have "\<dots> \<longleftrightarrow> (\<exists>q r x y. q \<notin> Q \<and> r \<notin> Q \<and> place c q = Some x \<and> place c r = Some y \<and> (x, y) \<in> set valid)"
      unfolding place_entry[OF assms(1,2)] by blast
    finally show ?thesis .
  qed
  have both: "(case (map_option location_encode (location_of c qa), map_option location_encode (location_of c qb)) of
        (Some a, Some b) \<Rightarrow> (a, b) \<in> set valid | _ \<Rightarrow> False)
      \<longleftrightarrow> (\<exists>x y. place c qa = Some x \<and> place c qb = Some y \<and> (x, y) \<in> set valid)" for qa qb
    by (auto simp: place_def split: option.splits)
  show ?thesis
    by (simp only: entangling_is_goal_def entangling_goal_new_def entangling_goal.select_convs list_all_iff acc both)
qed


section \<open>The pair heuristic never overestimates\<close>

lemma fold_min_le:
  fixes m :: "'a::linorder"
  assumes "e \<in> set es"
  shows "foldl (\<lambda>m e. min (min m (f e)) (g e)) m es \<le> f e \<and> foldl (\<lambda>m e. min (min m (f e)) (g e)) m es \<le> g e"
  using assms
proof (induction es rule: rev_induct)
  case (snoc x es)
  then show ?case by (auto simp: min.coboundedI1 min.coboundedI2)
qed simp

lemma slot_locations:
  assumes "wp \<in> set (enumerate_word_pairs a)" "site \<in> set (site_range a)"
  shows "fst (slot_at wp site) \<in> set (all_entangling_locations a)" "snd (slot_at wp site) \<in> set (all_entangling_locations a)"
  using assms by (auto simp: all_entangling_locations_def)

lemma pair_costs_max_le:
  assumes "\<forall>(qa, qb) \<in> set ps. min_pair_cost wpd qa qb c \<noteq> max_u32 \<and> unat (min_pair_cost wpd qa qb c) \<le> n"
    "unat acc \<le> n"
  shows "\<exists>d. pair_costs max wpd c acc ps = Some d \<and> unat d \<le> n"
  using assms
proof (induction ps arbitrary: acc)
  case (Cons p ps)
  obtain qa qb where p: "p = (qa, qb)" by (cases p)
  have "unat (max acc (min_pair_cost wpd qa qb c)) \<le> n" using Cons.prems by (auto simp: p max_def)
  then show ?case using Cons by (simp add: p Let_def)
qed simp

definition on_slots :: "arch_spec \<Rightarrow> (u32 \<times> u32) list \<Rightarrow> config \<Rightarrow> bool" where
  "on_slots a pairs c \<longleftrightarrow> (\<forall>(qa, qb) \<in> set pairs. \<exists>x y. place c qa = Some x \<and> place c qb = Some y
     \<and> ((x, y) \<in> set (position_slots a) \<or> (y, x) \<in> set (position_slots a)))"

text \<open>C21. When some sequence of \<open>n\<close> steps brings every pair of qubits to an entangling slot, the
  estimate for a goal without fixed places is a number of at most \<open>n\<close>.\<close>
theorem pair_estimate_admissible:
  assumes "table_exact (hop_graph idx) (set (all_entangling_locations a)) T" "table_wf T"
    "card (hop_graph idx) < 2 ^ 32 - 1" "(c, c') \<in> moves_along (hop_graph idx) ^^ n" "on_slots a pairs c'"
  shows "\<exists>d \<le> n. pair_estimate_max (word_pair_distances (enumerate_word_pairs a) a T) pairs c = f64_of_nat d"
proof -
  let ?wpd = "word_pair_distances (enumerate_word_pairs a) a T"
  have half: "\<exists>y e. place c q = Some y \<and> collapse_min_distances T ts y = Some e \<and> unat e \<le> n \<and> e \<noteq> max_u32"
    if x: "place c' q = Some x" "x \<in> set (all_entangling_locations a)" "x \<in> set ts" for q x ts
  proof -
    from moves_along_path[OF assms(4) x(1)] obtain y k where
      y: "place c q = Some y" "k \<le> n" "hop_distance (hop_graph idx) y x k" by blast
    from table_exact_defined[OF assms(1) finite_hop_graph assms(3) x(2) y(3)]
    have t: "table_distance T y x = Some (of_nat k)" "unat (of_nat k :: u32) = k" by auto
    from collapse_le[OF assms(2) x(3) t(1)] obtain e where e: "e \<le> of_nat k" "collapse_min_distances T ts y = Some e" by blast
    have "unat e \<le> k" using e(1) t(2) by (simp add: word_le_nat_alt)
    moreover have "e \<noteq> max_u32"
      using collapse_attained[OF assms(2) e(2)] assms(1) unfolding table_exact_def by blast
    ultimately show ?thesis using y e(2) by auto
  qed
  have cost: "min_pair_cost ?wpd qa qb c \<noteq> max_u32 \<and> unat (min_pair_cost ?wpd qa qb c) \<le> n"
    if q: "(qa, qb) \<in> set pairs" for qa qb
  proof -
    obtain x y where xy: "place c' qa = Some x" "place c' qb = Some y"
      "(x, y) \<in> set (position_slots a) \<or> (y, x) \<in> set (position_slots a)"
      using assms(5) q unfolding on_slots_def by blast
    then obtain wp site where wp: "wp \<in> set (enumerate_word_pairs a)" "site \<in> set (site_range a)"
      "(x, y) = slot_at wp site \<or> (y, x) = slot_at wp site" unfolding position_slots_iff by blast
    define as where "as = map (\<lambda>s. fst (slot_at wp s)) (site_range a)"
    define bs where "bs = map (\<lambda>s. snd (slot_at wp s)) (site_range a)"
    have slots: "fst (slot_at wp site) \<in> set as" "snd (slot_at wp site) \<in> set bs" using wp(2) by (simp_all add: as_def bs_def)
    note locs = slot_locations[OF wp(1,2)]
    define entry where "entry = \<lparr>wpe_word_pair = wp, wpe_min_dist_a = collapse_min_distances T as, wpe_min_dist_b = collapse_min_distances T bs\<rparr>"
    have mem: "entry \<in> set ?wpd" using wp(1) by (simp add: entry_def word_pair_distances_def as_def bs_def)
    have "place c qa \<noteq> None" "place c qb \<noteq> None"
      using moves_along_path[OF assms(4) xy(1)] moves_along_path[OF assms(4) xy(2)] by auto
    then obtain la lb where l: "location_of c qa = Some la" "location_of c qb = Some lb" by (auto simp: place_def)
    let ?f = "\<lambda>e. max (or_max_u32 (wpe_min_dist_a e (location_encode la))) (or_max_u32 (wpe_min_dist_b e (location_encode lb)))"
    let ?g = "\<lambda>e. max (or_max_u32 (wpe_min_dist_b e (location_encode la))) (or_max_u32 (wpe_min_dist_a e (location_encode lb)))"
    have m: "min_pair_cost ?wpd qa qb c = foldl (\<lambda>m e. min (min m (?f e)) (?g e)) max_u32 ?wpd"
      by (simp add: min_pair_cost_def l Let_def)
    have "\<exists>z. min_pair_cost ?wpd qa qb c \<le> z \<and> unat z \<le> n \<and> z \<noteq> max_u32"
    proof (cases "(x, y) = slot_at wp site")
      case True
      have "fst (slot_at wp site) = x" "snd (slot_at wp site) = y" unfolding True[symmetric] by simp_all
      then obtain ea eb where e: "collapse_min_distances T as (location_encode la) = Some ea" "unat ea \<le> n" "ea \<noteq> max_u32"
        "collapse_min_distances T bs (location_encode lb) = Some eb" "unat eb \<le> n" "eb \<noteq> max_u32"
        using half[OF xy(1), of as] half[OF xy(2), of bs] slots locs l by (simp add: place_def) blast
      have "?f entry = max ea eb" using e by (simp add: entry_def or_max_u32_def)
      then show ?thesis using fold_min_le[OF mem, of ?f ?g max_u32] e unfolding m by (intro exI[of _ "max ea eb"]) (auto simp: max_def)
    next
      case False
      then have yx: "(y, x) = slot_at wp site" using wp(3) by blast
      have "fst (slot_at wp site) = y" "snd (slot_at wp site) = x" unfolding yx[symmetric] by simp_all
      then obtain ea eb where e: "collapse_min_distances T bs (location_encode la) = Some ea" "unat ea \<le> n" "ea \<noteq> max_u32"
        "collapse_min_distances T as (location_encode lb) = Some eb" "unat eb \<le> n" "eb \<noteq> max_u32"
        using half[OF xy(1), of bs] half[OF xy(2), of as] slots locs l by (simp add: place_def) blast
      have "?g entry = max ea eb" using e by (simp add: entry_def or_max_u32_def)
      then show ?thesis using fold_min_le[OF mem, of ?f ?g max_u32] e unfolding m by (intro exI[of _ "max ea eb"]) (auto simp: max_def)
    qed
    then show ?thesis using le_max_u32 by (metis le_trans order_antisym word_le_nat_alt)
  qed
  obtain d where "pair_costs max ?wpd c 0 pairs = Some d" "unat d \<le> n"
    using pair_costs_max_le[of pairs ?wpd c n 0] cost by auto
  then show ?thesis by (auto simp: pair_estimate_max_def hops_as_f64_def)
qed


section \<open>On the example architecture\<close>

lemma example_placements:
  "build_entangling_set rev example_arch
     = [(1099528404992, 16777216), (16777216, 1099528404992), (1099511627776, 0), (0, 1099511627776)]"
  by code_simp

lemma example_slots: "position_slots example_arch = [(0, 1099511627776), (16777216, 1099528404992)]"
  by code_simp

text \<open>Two qubits on the first slot.\<close>
definition paired_config :: config where
  "paired_config = (let es = [(0, 0), (1, 1099511627776)] in \<lparr>entries = es, cached_hash = hash_entries es\<rparr>)"

lemma paired_new:
  "config_new [(1, \<lparr>loc_zone_id = 0, loc_word_id = 1, loc_site_id = 0\<rparr>), (0, \<lparr>loc_zone_id = 0, loc_word_id = 0, loc_site_id = 0\<rparr>)]
     = Inr paired_config"
  unfolding paired_config_def by code_simp

lemma paired_facts: "config_wf paired_config" "encoded_config paired_config" "apart paired_config"
proof -
  show "config_wf paired_config" by (simp add: config_wf_def paired_config_def Let_def)
  have "location_encode (location_decode 0) = 0" "location_encode (location_decode 1099511627776) = 1099511627776"
    by code_simp+
  then show "encoded_config paired_config" by (simp add: encoded_config_def paired_config_def Let_def)
  show "apart paired_config" by (simp add: apart_def paired_config_def Let_def)
qed

lemma paired_place: "place paired_config 0 = Some 0" "place paired_config 1 = Some 1099511627776"
  using place_entry[OF paired_facts(1,2)] by (simp_all add: paired_config_def Let_def)

theorem entangling_goal_spec_witness:
  "entangling_is_goal (entangling_goal_new [(0, 1)] (build_entangling_set rev example_arch)) paired_config"
proof -
  have u: "unique_partners (build_entangling_set rev example_arch)"
    unfolding example_placements by (auto simp: unique_partners_def)
  have e: "list_all (\<lambda>(x, y). location_encode (location_decode y) = y) (build_entangling_set rev example_arch)"
    unfolding example_placements by code_simp
  have q: "place paired_config q = Some x \<Longrightarrow> q \<in> pair_qubits [(0, 1)]" for q x
    using place_entry[OF paired_facts(1,2)] by (auto simp: paired_config_def Let_def pair_qubits_def)
  show ?thesis
    unfolding entangling_goal_spec[OF paired_facts u e]
    using q by (auto simp: paired_place example_placements)
qed

theorem pair_estimate_admissible_witness:
  "\<exists>T. distance_table_new (all_entangling_locations example_arch) example_index = Some (Returned T)
     \<and> (\<exists>d \<le> 0. pair_estimate_max (word_pair_distances (enumerate_word_pairs example_arch) example_arch T) [(0, 1)] paired_config
          = f64_of_nat d)"
proof -
  obtain T where T: "distance_table_new (all_entangling_locations example_arch) example_index = Some (Returned T)"
    "table_exact (hop_graph example_index) (set (all_entangling_locations example_arch)) T" "table_wf T"
    using distance_table_new_exact[OF example_hops_small, of "all_entangling_locations example_arch"] by blast
  have c: "(paired_config, paired_config) \<in> moves_along (hop_graph example_index) ^^ 0" by simp
  have "on_slots example_arch [(0, 1)] paired_config" by (simp add: on_slots_def paired_place example_slots)
  from pair_estimate_admissible[OF T(2,3) example_hops_small c this] T(1) show ?thesis by blast
qed

end
