(* ===== verification/Lane_Path.thy ===== *)
theory Lane_Path
  imports Distance Rust_Loop
begin

text \<open>
  Paths of lanes around occupied places: \<open>primitives/path.rs\<close>.  A breadth-first search from the
  start along outgoing lanes stops as soon as the destination is discovered and walks the parents
  back.  A hash set is a set; the outer \<open>option\<close> of the result says whether the loops end.
\<close>

record path_state =
  ps_visited :: "u64 set"
  ps_parent :: "u64 \<rightharpoonup> u64 \<times> lane_addr"
  ps_queue :: "u64 list"

section \<open>The search\<close>

text \<open>The loop over the outgoing lanes of the current place; \<open>Inr\<close> is the discovery of the
  destination.\<close>
fun scan_lanes ::
  "lane_index \<Rightarrow> u64 set \<Rightarrow> u64 \<Rightarrow> u64 \<Rightarrow> lane_addr list \<Rightarrow> path_state \<Rightarrow> path_state + (u64 \<rightharpoonup> u64 \<times> lane_addr)" where
  "scan_lanes idx occupied to_enc current_enc [] st = Inl st"
| "scan_lanes idx occupied to_enc current_enc (lane # lanes) st =
     (case index_endpoints idx lane of
        None \<Rightarrow> scan_lanes idx occupied to_enc current_enc lanes st
      | Some (_, dst) \<Rightarrow>
          let dst_enc = location_encode dst
          in if dst_enc \<in> occupied \<or> dst_enc \<in> ps_visited st
             then scan_lanes idx occupied to_enc current_enc lanes st
             else let st' = st\<lparr>ps_visited := insert dst_enc (ps_visited st),
                               ps_parent := (ps_parent st)(dst_enc \<mapsto> (current_enc, lane))\<rparr>
                  in if dst_enc = to_enc then Inr (ps_parent st')
                     else scan_lanes idx occupied to_enc current_enc lanes
                            (st'\<lparr>ps_queue := ps_queue st' @ [dst_enc]\<rparr>))"

definition path_search_step ::
  "lane_index \<Rightarrow> u64 set \<Rightarrow> u64 \<Rightarrow> path_state \<Rightarrow> path_state + (u64 \<rightharpoonup> u64 \<times> lane_addr) option" where
  "path_search_step idx occupied to_enc st =
     (case ps_queue st of
        [] \<Rightarrow> Inr None
      | current_enc # rest \<Rightarrow>
          (case scan_lanes idx occupied to_enc current_enc (outgoing_lanes idx (location_decode current_enc))
                  (st\<lparr>ps_queue := rest\<rparr>) of
             Inl st' \<Rightarrow> Inl st'
           | Inr parent \<Rightarrow> Inr (Some parent)))"

text \<open>The walk up the parents; the lanes are collected in reverse.\<close>
definition walk_step ::
  "(u64 \<rightharpoonup> u64 \<times> lane_addr) \<Rightarrow> lane_addr list \<times> u64 \<Rightarrow> (lane_addr list \<times> u64) + lane_addr list" where
  "walk_step parent = (\<lambda>(path, cur).
     case parent cur of
       Some (prev, lane) \<Rightarrow> Inl (path @ [lane], prev)
     | None \<Rightarrow> Inr (rev path))"

definition find_path_occupied ::
  "location_addr \<Rightarrow> location_addr \<Rightarrow> u64 set \<Rightarrow> lane_index \<Rightarrow> lane_addr list option option" where
  "find_path_occupied from_loc to_loc occupied idx =
     (let from_enc = location_encode from_loc; to_enc = location_encode to_loc
      in if from_enc = to_enc then Some (Some [])
         else Option.bind
           (iterate (path_search_step idx occupied to_enc)
              \<lparr>ps_visited = {from_enc}, ps_parent = Map.empty, ps_queue = [from_enc]\<rparr>)
           (\<lambda>found. case found of
              None \<Rightarrow> Some None
            | Some parent \<Rightarrow> map_option Some (iterate (walk_step parent) ([], to_enc))))"

section \<open>The specification\<close>

text \<open>The lanes out of a place to one that is not occupied.\<close>
definition free_lane :: "lane_index \<Rightarrow> u64 set \<Rightarrow> u64 \<Rightarrow> lane_addr \<Rightarrow> u64 \<Rightarrow> bool" where
  "free_lane idx occupied u l v \<longleftrightarrow> l \<in> set (outgoing_lanes idx (location_decode u))
     \<and> (\<exists>src dst. index_endpoints idx l = Some (src, dst) \<and> location_encode dst = v) \<and> v \<notin> occupied"

definition free_steps :: "lane_index \<Rightarrow> u64 set \<Rightarrow> (u64 \<times> u64) set" where
  "free_steps idx occupied = {(u, v). \<exists>l. free_lane idx occupied u l v}"

text \<open>A path of such lanes, in the order they are taken.\<close>
inductive lane_path :: "lane_index \<Rightarrow> u64 set \<Rightarrow> u64 \<Rightarrow> lane_addr list \<Rightarrow> u64 \<Rightarrow> bool" for idx occupied u where
  here: "lane_path idx occupied u [] u"
| more: "lane_path idx occupied u p v \<Longrightarrow> free_lane idx occupied v l w \<Longrightarrow> lane_path idx occupied u (p @ [l]) w"

text \<open>The edges in the direction of discovery.\<close>
abbreviation found_from :: "lane_index \<Rightarrow> u64 set \<Rightarrow> (u64 \<times> u64) set" where
  "found_from idx occupied \<equiv> (free_steps idx occupied)\<inverse>"

lemma lane_path_relpow: "lane_path idx occupied u p v \<Longrightarrow> (u, v) \<in> free_steps idx occupied ^^ length p"
proof (induction rule: lane_path.induct)
  case (more p v l w)
  then show ?case by (auto simp: free_steps_def)
qed simp

lemma relpow_converse:
  fixes R :: "('a \<times> 'a) set"
  shows "(x, y) \<in> (R\<inverse>) ^^ n \<longleftrightarrow> (y, x) \<in> R ^^ n"
proof (induction n arbitrary: x y)
  case (Suc n)
  have "(x, y) \<in> (R\<inverse>) ^^ Suc n \<longleftrightarrow> (\<exists>z. (x, z) \<in> (R\<inverse>) ^^ n \<and> (z, y) \<in> R\<inverse>)" by auto
  also have "\<dots> \<longleftrightarrow> (\<exists>z. (y, z) \<in> R \<and> (z, x) \<in> R ^^ n)" using Suc.IH by blast
  also have "\<dots> \<longleftrightarrow> (y, x) \<in> R ^^ Suc n" using relpow_front by metis
  finally show ?case .
qed auto

lemma hop_distance_converse:
  "hop_distance (R\<inverse>) x t n \<longleftrightarrow> (t, x) \<in> R ^^ n \<and> (\<forall>k<n. (t, x) \<notin> R ^^ k)"
  by (simp add: hop_distance_def relpow_converse)


section \<open>The loop over the lanes of one place\<close>

definition lane_ends :: "lane_index \<Rightarrow> u64 set \<Rightarrow> lane_addr list \<Rightarrow> u64 set" where
  "lane_ends idx occupied ls = {v. v \<notin> occupied \<and> (\<exists>l \<in> set ls. \<exists>src dst. index_endpoints idx l = Some (src, dst) \<and> location_encode dst = v)}"

definition new_parents ::
  "lane_index \<Rightarrow> u64 set \<Rightarrow> u64 \<Rightarrow> lane_addr list \<Rightarrow> path_state \<Rightarrow> (u64 \<rightharpoonup> u64 \<times> lane_addr) \<Rightarrow> bool" where
  "new_parents idx occupied c ls st parent' \<longleftrightarrow>
     (\<forall>v. parent' v = ps_parent st v
        \<or> v \<notin> ps_visited st \<and> v \<in> lane_ends idx occupied ls
          \<and> (\<exists>l \<in> set ls. \<exists>src dst. parent' v = Some (c, l) \<and> index_endpoints idx l = Some (src, dst) \<and> location_encode dst = v))"

lemma scan_lanes_effect:
  "case scan_lanes idx occupied t c ls st of
     Inl st' \<Rightarrow> (\<exists>P. ps_queue st' = ps_queue st @ P \<and> set P = lane_ends idx occupied ls - ps_visited st
         \<and> length P + card (- ps_visited st') = card (- ps_visited st))
       \<and> ps_visited st' = ps_visited st \<union> lane_ends idx occupied ls
       \<and> (t \<notin> ps_visited st \<longrightarrow> t \<notin> lane_ends idx occupied ls)
       \<and> new_parents idx occupied c ls st (ps_parent st')
       \<and> (\<forall>v \<in> lane_ends idx occupied ls - ps_visited st. \<exists>l. ps_parent st' v = Some (c, l))
   | Inr parent' \<Rightarrow> t \<in> lane_ends idx occupied ls - ps_visited st \<and> new_parents idx occupied c ls st parent'
       \<and> (\<exists>l. parent' t = Some (c, l))"
proof (induction ls arbitrary: st)
  case Nil
  then show ?case by (simp add: lane_ends_def new_parents_def)
next
  case (Cons l ls)
  have mono: "lane_ends idx occupied ls \<subseteq> lane_ends idx occupied (l # ls)"
    unfolding lane_ends_def by (intro Collect_mono) auto
  show ?case
  proof (cases "index_endpoints idx l")
    case None
    then have "lane_ends idx occupied (l # ls) = lane_ends idx occupied ls" by (simp add: lane_ends_def)
    then show ?thesis using None Cons.IH[of st] by (fastforce simp: new_parents_def split: sum.splits)
  next
    case (Some e)
    obtain src dst where e: "e = (src, dst)" by (cases e)
    define v where "v = location_encode dst"
    show ?thesis
    proof (cases "v \<in> occupied \<or> v \<in> ps_visited st")
      case True
      then have ends: "lane_ends idx occupied (l # ls) - ps_visited st = lane_ends idx occupied ls - ps_visited st"
        "ps_visited st \<union> lane_ends idx occupied (l # ls) = ps_visited st \<union> lane_ends idx occupied ls"
        "w \<notin> ps_visited st \<Longrightarrow> w \<in> lane_ends idx occupied (l # ls) \<longleftrightarrow> w \<in> lane_ends idx occupied ls" for w
        using Some e by (auto simp: lane_ends_def v_def)
      have np: "new_parents idx occupied c (l # ls) st p" if "new_parents idx occupied c ls st p" for p
        using that mono unfolding new_parents_def by (meson list.set_intros(2) subsetD)
      have scan: "scan_lanes idx occupied t c (l # ls) st = scan_lanes idx occupied t c ls st"
        using Some e True by (auto simp: v_def Let_def)
      show ?thesis
      proof (cases "scan_lanes idx occupied t c ls st")
        case (Inl st')
        note IH = Cons.IH[of st, unfolded Inl sum.case]
        show ?thesis unfolding scan Inl sum.case ends(1,2) using IH np[of "ps_parent st'"] ends(3)[of t] by blast
      next
        case (Inr parent')
        note IH = Cons.IH[of st, unfolded Inr sum.case]
        show ?thesis unfolding scan Inr sum.case ends(1) using IH np[of parent'] by blast
      qed
    next
      case False
      then have v: "v \<in> lane_ends idx occupied (l # ls) - ps_visited st"
        using Some e by (auto simp: lane_ends_def v_def)
      define st1 where "st1 = st\<lparr>ps_visited := insert v (ps_visited st), ps_parent := (ps_parent st)(v \<mapsto> (c, l))\<rparr>"
      define st2 where "st2 = st1\<lparr>ps_queue := ps_queue st1 @ [v]\<rparr>"
      have ends: "lane_ends idx occupied (l # ls) = insert v (lane_ends idx occupied ls)"
        using Some e False by (auto simp: lane_ends_def v_def)
      have np: "new_parents idx occupied c (l # ls) st p" if p: "new_parents idx occupied c ls st2 p" for p
        unfolding new_parents_def
      proof (intro allI)
        fix w
        have "p w = ps_parent st2 w \<or> w \<notin> ps_visited st2 \<and> w \<in> lane_ends idx occupied ls
          \<and> (\<exists>l \<in> set ls. \<exists>src dst. p w = Some (c, l) \<and> index_endpoints idx l = Some (src, dst) \<and> location_encode dst = w)"
          using p unfolding new_parents_def by blast
        then show "p w = ps_parent st w \<or> w \<notin> ps_visited st \<and> w \<in> lane_ends idx occupied (l # ls)
          \<and> (\<exists>l \<in> set (l # ls). \<exists>src dst. p w = Some (c, l) \<and> index_endpoints idx l = Some (src, dst) \<and> location_encode dst = w)"
          using v Some e by (cases "w = v") (auto simp: st2_def st1_def ends v_def)
      qed
      show ?thesis
      proof (cases "v = t")
        case True
        then have "scan_lanes idx occupied t c (l # ls) st = Inr (ps_parent st1)"
          using Some e False by (simp add: v_def st1_def Let_def)
        moreover have "new_parents idx occupied c (l # ls) st (ps_parent st1)"
          using v Some e by (auto simp: new_parents_def st1_def v_def)
        ultimately show ?thesis using v True by (simp add: st1_def)
      next
        case other: False
        then have scan: "scan_lanes idx occupied t c (l # ls) st = scan_lanes idx occupied t c ls st2"
          using Some e False by (simp add: v_def st1_def st2_def Let_def)
        have card: "Suc (card (- ps_visited st2)) = card (- ps_visited st)"
        proof -
          have "- ps_visited st = insert v (- ps_visited st2)" using v by (auto simp: st2_def st1_def)
          moreover have "v \<notin> - ps_visited st2" by (simp add: st2_def st1_def)
          ultimately show ?thesis by simp
        qed
        have st2: "ps_visited st2 = insert v (ps_visited st)" "ps_queue st2 = ps_queue st @ [v]"
          "ps_parent st2 = (ps_parent st)(v \<mapsto> (c, l))" by (simp_all add: st2_def st1_def)
        show ?thesis
        proof (cases "scan_lanes idx occupied t c ls st2")
          case (Inr parent')
          then show ?thesis using Cons.IH[of st2] scan np ends st2 by auto
        next
          case (Inl st')
          note IH = Cons.IH[of st2, unfolded Inl sum.case]
          then obtain P where P: "ps_queue st' = ps_queue st2 @ P" "set P = lane_ends idx occupied ls - ps_visited st2"
            "length P + card (- ps_visited st') = card (- ps_visited st2)" by blast
          have "ps_queue st' = ps_queue st @ (v # P)" using P(1) st2(2) by simp
          moreover have "set (v # P) = lane_ends idx occupied (l # ls) - ps_visited st"
            using P(2) v by (auto simp: ends st2(1))
          moreover have "length (v # P) + card (- ps_visited st') = card (- ps_visited st)"
            using P(3) card by simp
          moreover have "ps_visited st' = ps_visited st \<union> lane_ends idx occupied (l # ls)"
            using IH by (auto simp: ends st2(1))
          moreover have "t \<notin> ps_visited st \<longrightarrow> t \<notin> lane_ends idx occupied (l # ls)"
            using IH other by (auto simp: ends st2(1))
          moreover have "\<exists>l. ps_parent st' w = Some (c, l)" if w: "w \<in> lane_ends idx occupied (l # ls) - ps_visited st" for w
          proof (cases "w = v")
            case True
            have "new_parents idx occupied c ls st2 (ps_parent st')" using IH by blast
            then have "ps_parent st' v = ps_parent st2 v" unfolding new_parents_def using st2(1) by blast
            then show ?thesis using True st2(3) by simp
          next
            case False
            then show ?thesis using IH w by (auto simp: ends st2(1))
          qed
          ultimately show ?thesis using Inl scan np IH by auto
        qed
      qed
    qed
  qed
qed


section \<open>The loop over the queue\<close>

lemma lane_ends_outgoing:
  "v \<in> lane_ends idx occupied (outgoing_lanes idx (location_decode c)) \<longleftrightarrow> (c, v) \<in> free_steps idx occupied"
  by (auto simp: lane_ends_def free_steps_def free_lane_def)

definition parents_ok ::
  "lane_index \<Rightarrow> u64 set \<Rightarrow> u64 \<Rightarrow> (u64 \<rightharpoonup> u64 \<times> lane_addr) \<Rightarrow> (u64 \<Rightarrow> nat option) \<Rightarrow> u64 set \<Rightarrow> bool" where
  "parents_ok idx occupied u parent D V \<longleftrightarrow> parent u = None
     \<and> (\<forall>v \<in> V. v \<noteq> u \<longrightarrow> (\<exists>w l m. parent v = Some (w, l) \<and> free_lane idx occupied w l v \<and> w \<in> V
          \<and> D w = Some m \<and> D v = Some (Suc m)))"

definition path_inv :: "lane_index \<Rightarrow> u64 set \<Rightarrow> u64 \<Rightarrow> u64 \<Rightarrow> path_state \<Rightarrow> (u64 \<Rightarrow> nat option) \<Rightarrow> bool" where
  "path_inv idx occupied u t st D \<longleftrightarrow> bfs_levels (found_from idx occupied) u D (ps_queue st)
     \<and> ps_visited st = dom D \<and> t \<notin> dom D \<and> parents_ok idx occupied u (ps_parent st) D (dom D)"

text \<open>What the discovery of the destination leaves behind.\<close>
definition path_found :: "lane_index \<Rightarrow> u64 set \<Rightarrow> u64 \<Rightarrow> u64 \<Rightarrow> (u64 \<rightharpoonup> u64 \<times> lane_addr) \<Rightarrow> bool" where
  "path_found idx occupied u t parent \<longleftrightarrow>
     (\<exists>D V m. parents_ok idx occupied u parent D V \<and> t \<in> V \<and> D u = Some 0 \<and> D t = Some m
        \<and> (\<forall>x \<in> V. \<forall>k. D x = Some k \<longrightarrow> hop_distance (found_from idx occupied) x u k))"

lemma new_parent_lane:
  assumes "new_parents idx occupied c (outgoing_lanes idx (location_decode c)) st parent'"
    "parent' v = Some (c, l)" "ps_parent st v = None" "v \<notin> ps_visited st"
  shows "free_lane idx occupied c l v"
proof -
  have "v \<in> lane_ends idx occupied (outgoing_lanes idx (location_decode c))
      \<and> (\<exists>l \<in> set (outgoing_lanes idx (location_decode c)). \<exists>src dst. parent' v = Some (c, l)
            \<and> index_endpoints idx l = Some (src, dst) \<and> location_encode dst = v)"
    using assms unfolding new_parents_def by (metis option.distinct(1))
  then show ?thesis using assms(2) by (auto simp: free_lane_def lane_ends_def)
qed

lemma path_step_inv:
  assumes inv: "path_inv idx occupied u t st D" and q: "ps_queue st = c # rest"
    and fresh: "\<And>v. v \<notin> dom D \<Longrightarrow> ps_parent st v = None"
  shows "(\<exists>st' D'. path_search_step idx occupied t st = Inl st' \<and> path_inv idx occupied u t st' D'
      \<and> (\<forall>v. v \<notin> dom D' \<longrightarrow> ps_parent st' v = None)
      \<and> card (- ps_visited st') + length (ps_queue st') < card (- ps_visited st) + length (ps_queue st))
    \<or> (\<exists>parent. path_search_step idx occupied t st = Inr (Some parent) \<and> path_found idx occupied u t parent)"
proof -
  let ?E = "found_from idx occupied" and ?ls = "outgoing_lanes idx (location_decode c)" and ?st = "st\<lparr>ps_queue := rest\<rparr>"
  have lev: "bfs_levels ?E u D (c # rest)" and vis: "ps_visited st = dom D" and t: "t \<notin> dom D"
    and par: "parents_ok idx occupied u (ps_parent st) D (dom D)" using inv q by (simp_all add: path_inv_def)
  obtain m where m: "D c = Some m" using lev unfolding bfs_levels_def by auto
  have u: "D u = Some 0" and least: "\<And>x k. D x = Some k \<Longrightarrow> hop_distance ?E x u k"
    using lev unfolding bfs_levels_def by blast+
  note eff = scan_lanes_effect[where idx = idx and occupied = occupied and t = t and c = c and ls = ?ls and st = ?st]
  have st0: "ps_queue ?st = rest" "ps_visited ?st = ps_visited st" "ps_parent ?st = ps_parent st" by simp_all
  show ?thesis
  proof (cases "scan_lanes idx occupied t c ?ls ?st")
    case (Inl st')
    note E = eff[unfolded Inl sum.case st0]
    obtain P where P: "ps_queue st' = rest @ P" "set P = lane_ends idx occupied ?ls - ps_visited st"
      "length P + card (- ps_visited st') = card (- ps_visited st)" using E[THEN conjunct1] by (elim exE conjE) (rule that)
    define D' where "D' = (\<lambda>y. if D y = None \<and> (y, c) \<in> ?E then Some (Suc m) else D y)"
    have "set P = {p. (p, c) \<in> ?E \<and> D p = None}" unfolding P(2) vis using lane_ends_outgoing by auto
    from levels_step[OF lev m this, of D'] have lev': "bfs_levels ?E u D' (ps_queue st')" by (simp add: D'_def P(1))
    have dom': "dom D' = dom D \<union> lane_ends idx occupied ?ls"
      by (auto simp: D'_def lane_ends_outgoing split: if_splits)
    have np: "new_parents idx occupied c ?ls ?st (ps_parent st')" using E by blast
    have same: "ps_parent st' v = ps_parent st v" if "v \<in> dom D" for v
      using np that unfolding new_parents_def by (auto simp: vis)
    have "parents_ok idx occupied u (ps_parent st') D' (dom D')"
      unfolding parents_ok_def
    proof (intro conjI ballI impI)
      have "u \<in> dom D" using u by auto
      from same[OF this] show "ps_parent st' u = None" using par by (simp add: parents_ok_def)
    next
      fix v assume v: "v \<in> dom D'" "v \<noteq> u"
      show "\<exists>w l m. ps_parent st' v = Some (w, l) \<and> free_lane idx occupied w l v \<and> w \<in> dom D' \<and> D' w = Some m \<and> D' v = Some (Suc m)"
      proof (cases "v \<in> dom D")
        case True
        then obtain w l k where w: "ps_parent st v = Some (w, l)" "free_lane idx occupied w l v" "D w = Some k" "D v = Some (Suc k)"
          using par v(2) unfolding parents_ok_def by blast
        moreover have "D' w = Some k" "D' v = Some (Suc k)" using w(3,4) by (simp_all add: D'_def)
        ultimately show ?thesis using same[OF True] by auto
      next
        case False
        then have new: "v \<in> lane_ends idx occupied ?ls" using v(1) dom' by blast
        have "v \<in> lane_ends idx occupied ?ls - ps_visited st" unfolding vis using new False by blast
        then obtain l where l: "ps_parent st' v = Some (c, l)" using E by blast
        have "free_lane idx occupied c l v"
          using new_parent_lane[OF np l] fresh[OF False] False by (simp add: vis)
        moreover have "D' v = Some (Suc m)" using new False lane_ends_outgoing by (auto simp: D'_def)
        moreover have "D' c = Some m" using m by (simp add: D'_def)
        ultimately show ?thesis using l by auto
      qed
    qed
    moreover have "t \<notin> dom D'" using E t unfolding dom' by (auto simp: vis)
    moreover have "ps_visited st' = dom D'" using E unfolding dom' by (auto simp: vis)
    ultimately have "path_inv idx occupied u t st' D'" using lev' by (simp add: path_inv_def)
    moreover have "ps_parent st' v = None" if "v \<notin> dom D'" for v
      using np fresh[of v] that unfolding new_parents_def dom' st0 by (metis Un_iff)
    moreover have "card (- ps_visited st') + length (ps_queue st') < card (- ps_visited st) + length (ps_queue st)"
      using P(1,3) q by simp
    ultimately show ?thesis using Inl q by (auto simp: path_search_step_def)
  next
    case (Inr parent')
    note E = eff[unfolded Inr sum.case st0]
    have np: "new_parents idx occupied c ?ls ?st parent'" using E by blast
    obtain l where l: "parent' t = Some (c, l)" using E by blast
    have same: "parent' v = ps_parent st v" if "v \<in> dom D" for v
      using np that unfolding new_parents_def by (auto simp: vis)
    define D' where "D' = D(t \<mapsto> Suc m)"
    have te: "(t, c) \<in> ?E" using E lane_ends_outgoing by auto
    have "D t = None" using t by auto
    from levels_new[OF lev m te this] have ht: "hop_distance ?E t u (Suc m)" .
    have tu: "u \<noteq> t" using t u by auto
    have ct: "c \<noteq> t" using t m by auto
    have "parents_ok idx occupied u parent' D' (insert t (dom D))"
      unfolding parents_ok_def
    proof (intro conjI ballI impI)
      have "u \<in> dom D" using u by auto
      from same[OF this] show "parent' u = None" using par by (simp add: parents_ok_def)
    next
      fix v assume v: "v \<in> insert t (dom D)" "v \<noteq> u"
      show "\<exists>w l k. parent' v = Some (w, l) \<and> free_lane idx occupied w l v \<and> w \<in> insert t (dom D) \<and> D' w = Some k \<and> D' v = Some (Suc k)"
      proof (cases "v = t")
        case True
        have "free_lane idx occupied c l t"
          using new_parent_lane[OF np l] fresh[OF t] t by (simp add: vis)
        then show ?thesis using True l m ct by (auto simp: D'_def)
      next
        case False
        then obtain w l k where w: "ps_parent st v = Some (w, l)" "free_lane idx occupied w l v" "D w = Some k" "D v = Some (Suc k)"
          using par v unfolding parents_ok_def by blast
        moreover have "w \<noteq> t" using w(3) t by auto
        ultimately show ?thesis using same[of v] False by (auto simp: D'_def)
      qed
    qed
    moreover have "\<forall>x \<in> insert t (dom D). \<forall>k. D' x = Some k \<longrightarrow> hop_distance ?E x u k"
      using least ht by (auto simp: D'_def)
    moreover have "D' u = Some 0" "D' t = Some (Suc m)" using u tu by (simp_all add: D'_def)
    ultimately have "path_found idx occupied u t parent'" unfolding path_found_def by blast
    then show ?thesis using Inr q by (simp add: path_search_step_def)
  qed
qed


section \<open>The walk back, and the result\<close>

lemma walk_parents:
  assumes "parents_ok idx occupied u parent D V" "v \<in> V" "D v = Some n"
    "\<forall>x \<in> V. \<forall>k. D x = Some k \<longrightarrow> hop_distance (found_from idx occupied) x u k"
  shows "\<exists>p. lane_path idx occupied u p v \<and> length p = n \<and> iterate (walk_step parent) (acc, v) = Some (p @ rev acc)"
  using assms(2,3)
proof (induction n arbitrary: v acc)
  case 0
  then have "hop_distance (found_from idx occupied) v u 0" using assms(4) by blast
  then have v: "v = u" by (simp add: hop_distance_zero_iff)
  have "walk_step parent (acc, u) = Inr (rev acc)" using assms(1) by (simp add: walk_step_def parents_ok_def)
  from iterate_Inr[of "walk_step parent", OF this] show ?case unfolding v using lane_path.here by fastforce
next
  case (Suc n)
  have "v \<noteq> u"
  proof
    assume vu: "v = u"
    have "hop_distance (found_from idx occupied) v u (Suc n)" using assms(4) Suc.prems by blast
    from hop_distance_unique[OF this[unfolded vu] hop_distance_zero] show False by simp
  qed
  then obtain w l m where w: "parent v = Some (w, l)" "free_lane idx occupied w l v" "w \<in> V" "D w = Some m" "D v = Some (Suc m)"
    using assms(1) Suc.prems(1) unfolding parents_ok_def by blast
  then have "m = n" using Suc.prems(2) by simp
  then obtain p where p: "lane_path idx occupied u p w" "length p = n"
    "iterate (walk_step parent) (acc @ [l], w) = Some (p @ rev (acc @ [l]))"
    using Suc.IH[of w "acc @ [l]"] w(3,4) by blast
  have walk: "walk_step parent (acc, v) = Inl (acc @ [l], w)" using w(1) by (simp add: walk_step_def)
  have "iterate (walk_step parent) (acc, v) = Some ((p @ [l]) @ rev acc)"
    unfolding iterate_Inl[of "walk_step parent", OF walk] p(3) by simp
  moreover have "lane_path idx occupied u (p @ [l]) v" by (rule lane_path.more[OF p(1) w(2)])
  ultimately show ?case using p(2) by (intro exI[of _ "p @ [l]"]) simp
qed

lemma path_search_result:
  assumes "u \<noteq> t"
  shows "\<exists>r. iterate (path_search_step idx occupied t)
      \<lparr>ps_visited = {u}, ps_parent = Map.empty, ps_queue = [u]\<rparr> = Some r
    \<and> (case r of Some parent \<Rightarrow> path_found idx occupied u t parent | None \<Rightarrow> (u, t) \<notin> (free_steps idx occupied)\<^sup>*)"
proof (rule iterate_total[where m = "\<lambda>st. card (- ps_visited st) + length (ps_queue st)"
      and I = "\<lambda>st. \<exists>D. path_inv idx occupied u t st D \<and> (\<forall>v. v \<notin> dom D \<longrightarrow> ps_parent st v = None)"])
  fix st st' assume I: "\<exists>D. path_inv idx occupied u t st D \<and> (\<forall>v. v \<notin> dom D \<longrightarrow> ps_parent st v = None)"
    and step: "path_search_step idx occupied t st = Inl st'"
  then obtain D where D: "path_inv idx occupied u t st D" "\<And>v. v \<notin> dom D \<Longrightarrow> ps_parent st v = None" by blast
  obtain c rest where q: "ps_queue st = c # rest" using step by (cases "ps_queue st") (auto simp: path_search_step_def)
  from path_step_inv[OF D(1) q D(2)] step
  show "(\<exists>D. path_inv idx occupied u t st' D \<and> (\<forall>v. v \<notin> dom D \<longrightarrow> ps_parent st' v = None))
      \<and> card (- ps_visited st') + length (ps_queue st') < card (- ps_visited st) + length (ps_queue st)" by auto
next
  fix st r assume I: "\<exists>D. path_inv idx occupied u t st D \<and> (\<forall>v. v \<notin> dom D \<longrightarrow> ps_parent st v = None)"
    and step: "path_search_step idx occupied t st = Inr r"
  then obtain D where D: "path_inv idx occupied u t st D" "\<And>v. v \<notin> dom D \<Longrightarrow> ps_parent st v = None" by blast
  show "case r of Some parent \<Rightarrow> path_found idx occupied u t parent | None \<Rightarrow> (u, t) \<notin> (free_steps idx occupied)\<^sup>*"
  proof (cases "ps_queue st")
    case Nil
    then have "bfs_levels (found_from idx occupied) u D []" "t \<notin> dom D" using D(1) by (simp_all add: path_inv_def)
    then have no: "\<not> hop_distance (found_from idx occupied) t u n" for n using levels_end by fastforce
    have "(u, t) \<notin> (free_steps idx occupied)\<^sup>*"
    proof
      assume "(u, t) \<in> (free_steps idx occupied)\<^sup>*"
      then obtain n where "(u, t) \<in> free_steps idx occupied ^^ n" using rtrancl_power by metis
      then have "(t, u) \<in> found_from idx occupied ^^ n" by (simp add: relpow_converse)
      from hop_distance_least[OF this] show False using no by blast
    qed
    then show ?thesis using step Nil by (auto simp: path_search_step_def)
  next
    case (Cons c rest)
    from path_step_inv[OF D(1) Cons D(2)] step show ?thesis by auto
  qed
next
  let ?st = "\<lparr>ps_visited = {u}, ps_parent = Map.empty, ps_queue = [u]\<rparr>" and ?D = "\<lambda>y. if y = u then Some 0 else None"
  have "path_inv idx occupied u t ?st ?D"
    using levels_start[of ?D u "found_from idx occupied"] assms
    by (auto simp: path_inv_def parents_ok_def dom_def)
  then show "\<exists>D. path_inv idx occupied u t ?st D \<and> (\<forall>v. v \<notin> dom D \<longrightarrow> ps_parent ?st v = None)" by auto
qed

text \<open>C18. The path search ends.  A path it returns leads from the start to the destination over
  lanes that end in free places, and none is shorter; without one, no such path exists.\<close>
theorem find_path_occupied_spec:
  "case find_path_occupied from_loc to_loc occupied idx of
     None \<Rightarrow> False
   | Some None \<Rightarrow> (location_encode from_loc, location_encode to_loc) \<notin> (free_steps idx occupied)\<^sup>*
   | Some (Some p) \<Rightarrow>
       lane_path idx occupied (location_encode from_loc) p (location_encode to_loc)
       \<and> length p = (LEAST n. (location_encode from_loc, location_encode to_loc) \<in> free_steps idx occupied ^^ n)"
proof -
  let ?u = "location_encode from_loc" and ?t = "location_encode to_loc"
  show ?thesis
  proof (cases "?u = ?t")
    case True
    have "(LEAST n. (?t, ?t) \<in> free_steps idx occupied ^^ n) = 0" by (rule Least_equality) simp_all
    then show ?thesis using True lane_path.here by (simp add: find_path_occupied_def)
  next
    case False
    from path_search_result[OF False, of idx occupied] obtain r where
      r: "iterate (path_search_step idx occupied ?t) \<lparr>ps_visited = {?u}, ps_parent = Map.empty, ps_queue = [?u]\<rparr> = Some r"
      "case r of Some parent \<Rightarrow> path_found idx occupied ?u ?t parent | None \<Rightarrow> (?u, ?t) \<notin> (free_steps idx occupied)\<^sup>*" by blast
    show ?thesis
    proof (cases r)
      case None
      then show ?thesis using False r by (simp add: find_path_occupied_def)
    next
      case (Some parent)
      then obtain D V m where f: "parents_ok idx occupied ?u parent D V" "?t \<in> V" "D ?t = Some m"
        "\<forall>x \<in> V. \<forall>k. D x = Some k \<longrightarrow> hop_distance (found_from idx occupied) x ?u k"
        using r(2) by (auto simp: path_found_def)
      from walk_parents[OF f(1,2,3,4), of "[]"] obtain p where
        p: "lane_path idx occupied ?u p ?t" "length p = m" "iterate (walk_step parent) ([], ?t) = Some p" by auto
      have "hop_distance (found_from idx occupied) ?t ?u m" using f by blast
      then have "(?u, ?t) \<in> free_steps idx occupied ^^ m \<and> (\<forall>k<m. (?u, ?t) \<notin> free_steps idx occupied ^^ k)"
        by (simp add: hop_distance_converse)
      then have "(LEAST n. (?u, ?t) \<in> free_steps idx occupied ^^ n) = m"
        by (intro Least_equality) (auto simp: not_less[symmetric])
      then show ?thesis using False r(1) Some p by (simp add: find_path_occupied_def)
    qed
  qed
qed

end
