(* ===== verification/Aod_Grid.thy ===== *)
theory Aod_Grid
  imports Lane_Index
begin

text \<open>
  Rectangles of moving atoms: \<open>ops/aod_grid.rs\<close>.  The lanes of a bus start at positions; those of
  the selected atoms are gathered into rectangles of positions, first greedily and then by merging,
  so that each rectangle can be moved at once.  An ordered set is a set, traversed in increasing
  order, and the two loops that run until nothing changes are functions with a measure.
\<close>

type_synonym cluster = "u64 set \<times> u64 set"

record grid_context =
  gc_pos_to_src :: "u64 \<times> u64 \<rightharpoonup> u64"
  gc_src_to_lane :: "u64 \<rightharpoonup> u64"
  gc_src_to_dst :: "u64 \<rightharpoonup> u64"
  gc_src_to_pos :: "u64 \<rightharpoonup> u64 \<times> u64"
  gc_occupied :: "u64 set"

section \<open>The context of a bus\<close>

definition context_lanes ::
  "lane_index \<Rightarrow> move_type \<Rightarrow> u32 \<Rightarrow> u32 option \<Rightarrow> direction \<Rightarrow> lane_addr list" where
  "context_lanes idx mt bus_id zone_id dir =
     (case zone_id of
        Some z \<Rightarrow> lanes_for idx mt bus_id z dir
      | None \<Rightarrow> lanes_for_all_zones idx mt bus_id dir)"

definition add_grid_lane :: "lane_index \<Rightarrow> grid_context \<Rightarrow> lane_addr \<Rightarrow> grid_context" where
  "add_grid_lane idx ctx lane =
     (case index_endpoints idx lane of
        None \<Rightarrow> ctx
      | Some (src, dst) \<Rightarrow>
          (case index_position idx src of
             None \<Rightarrow> ctx
           | Some (x, y) \<Rightarrow>
               let src_enc = location_encode src; pos = (to_bits x, to_bits y)
               in ctx\<lparr>gc_pos_to_src := (gc_pos_to_src ctx)(pos \<mapsto> src_enc),
                      gc_src_to_lane := (gc_src_to_lane ctx)(src_enc \<mapsto> lane_encode_u64 lane),
                      gc_src_to_dst := (gc_src_to_dst ctx)(src_enc \<mapsto> location_encode dst),
                      gc_src_to_pos := (gc_src_to_pos ctx)(src_enc \<mapsto> pos)\<rparr>))"

definition empty_context :: "u64 set \<Rightarrow> grid_context" where
  "empty_context occupied = \<lparr>gc_pos_to_src = Map.empty, gc_src_to_lane = Map.empty,
     gc_src_to_dst = Map.empty, gc_src_to_pos = Map.empty, gc_occupied = occupied\<rparr>"

definition grid_context_new ::
  "lane_index \<Rightarrow> move_type \<Rightarrow> u32 \<Rightarrow> u32 option \<Rightarrow> direction \<Rightarrow> u64 set \<Rightarrow> grid_context" where
  "grid_context_new idx mt bus_id zone_id dir occupied =
     foldl (add_grid_lane idx) (empty_context occupied) (context_lanes idx mt bus_id zone_id dir)"

section \<open>Rectangles\<close>

text \<open>The two nested loops over a rectangle.\<close>
definition rect_positions :: "u64 set \<Rightarrow> u64 set \<Rightarrow> (u64 \<times> u64) list" where
  "rect_positions xs ys = List.product (sorted_list_of_set xs) (sorted_list_of_set ys)"

definition is_valid_rect :: "grid_context \<Rightarrow> u64 set \<Rightarrow> u64 set \<Rightarrow> u64 set \<Rightarrow> bool" where
  "is_valid_rect ctx xs ys movers =
     (case those (map (gc_pos_to_src ctx) (rect_positions xs ys)) of
        None \<Rightarrow> False
      | Some sources \<Rightarrow>
          list_all (\<lambda>src_enc.
            case gc_src_to_dst ctx src_enc of
              None \<Rightarrow> False
            | Some dst_enc \<Rightarrow>
                let src_is_mover = src_enc \<in> movers;
                    dst_is_rect_mover = dst_enc \<in> movers \<and> dst_enc \<in> set sources
                in \<not> (\<not> src_is_mover \<and> src_enc \<in> gc_occupied ctx)
                   \<and> \<not> (dst_enc \<in> gc_occupied ctx \<and> \<not> dst_is_rect_mover)) sources)"

definition rect_to_lanes :: "grid_context \<Rightarrow> u64 set \<Rightarrow> u64 set \<Rightarrow> u64 list" where
  "rect_to_lanes ctx xs ys =
     List.map_filter (\<lambda>pos. Option.bind (gc_pos_to_src ctx pos) (gc_src_to_lane ctx)) (rect_positions xs ys)"

section \<open>Greedy clusters\<close>

type_synonym grid_entry = "u64 \<times> u64"

text \<open>One entry of a round: the rectangle so far and the entries left over.\<close>
definition greedy_visit ::
  "grid_context \<Rightarrow> u64 set \<Rightarrow> cluster \<times> grid_entry list \<Rightarrow> grid_entry \<Rightarrow> cluster \<times> grid_entry list" where
  "greedy_visit ctx movers st e =
     (let ((xs, ys), leftover) = st
      in case gc_src_to_pos ctx (fst e) of
           None \<Rightarrow> ((xs, ys), leftover @ [e])
         | Some (x, y) \<Rightarrow>
             if x \<in> xs \<and> y \<in> ys then st
             else if is_valid_rect ctx (insert x xs) (insert y ys) movers
                  then ((insert x xs, insert y ys), leftover)
                  else ((xs, ys), leftover @ [e]))"

definition greedy_round :: "grid_context \<Rightarrow> u64 set \<Rightarrow> grid_entry list \<Rightarrow> cluster \<times> grid_entry list" where
  "greedy_round ctx movers remaining = foldl (greedy_visit ctx movers) (({}, {}), []) remaining"

lemma greedy_visit_leftover:
  "length (snd (greedy_visit ctx movers st e)) \<le> Suc (length (snd st))
   \<and> (fst (greedy_visit ctx movers st e) = fst st \<or> snd (greedy_visit ctx movers st e) = snd st)"
  by (auto simp: greedy_visit_def Let_def split: prod.splits option.splits)

lemma greedy_round_leftover:
  "length (snd (greedy_round ctx movers es)) \<le> length es
   \<and> (fst (greedy_round ctx movers es) = ({}, {}) \<or> length (snd (greedy_round ctx movers es)) < length es)"
proof (induction es rule: rev_induct)
  case (snoc e es)
  then show ?case
    using greedy_visit_leftover[of ctx movers "greedy_round ctx movers es" e]
    by (auto simp: greedy_round_def)
qed (simp add: greedy_round_def)

lemma greedy_round_shorter:
  "fst (fst (greedy_round ctx movers es)) \<noteq> {} \<Longrightarrow> length (snd (greedy_round ctx movers es)) < length es"
  using greedy_round_leftover[of ctx movers es] by auto

function greedy_clusters :: "grid_context \<Rightarrow> u64 set \<Rightarrow> grid_entry list \<Rightarrow> cluster list" where
  "greedy_clusters ctx movers remaining =
     (if remaining = [] then []
      else let r = greedy_round ctx movers remaining
           in if fst (fst r) = {} \<or> snd (fst r) = {} then []
              else fst r # greedy_clusters ctx movers (snd r))"
  by pat_completeness auto
termination
  by (relation "measure (\<lambda>(ctx, movers, remaining). length remaining)") (simp_all add: greedy_round_shorter)

declare greedy_clusters.simps [simp del]

definition greedy_init :: "grid_context \<Rightarrow> (u64, u64) fmap \<Rightarrow> u64 set \<Rightarrow> cluster list" where
  "greedy_init ctx es movers = greedy_clusters ctx movers (map_entries es)"

section \<open>Merging\<close>

type_synonym merge_state = "cluster list \<times> nat set \<times> bool list"

definition cluster_union :: "cluster \<Rightarrow> cluster \<Rightarrow> cluster" where
  "cluster_union c d = (fst c \<union> fst d, snd c \<union> snd d)"

definition merge_pair :: "grid_context \<Rightarrow> u64 set \<Rightarrow> nat \<Rightarrow> merge_state \<Rightarrow> nat \<Rightarrow> merge_state" where
  "merge_pair ctx movers i st j =
     (let (clusters, consumed, merged_flags) = st
      in if j \<in> consumed then st
         else let merged = cluster_union (clusters ! i) (clusters ! j)
              in if is_valid_rect ctx (fst merged) (snd merged) movers
                 then (clusters[i := merged], insert j consumed, merged_flags[i := True, j := True])
                 else st)"

definition merge_row :: "grid_context \<Rightarrow> u64 set \<Rightarrow> merge_state \<Rightarrow> nat \<Rightarrow> merge_state" where
  "merge_row ctx movers st i =
     (if i \<in> fst (snd st) then st
      else foldl (merge_pair ctx movers i) st [i + 1..<length (fst st)])"

definition merge_pass :: "grid_context \<Rightarrow> u64 set \<Rightarrow> cluster list \<Rightarrow> merge_state" where
  "merge_pass ctx movers clusters =
     foldl (merge_row ctx movers) (clusters, {}, replicate (length clusters) False) [0..<length clusters]"

text \<open>The clusters that go on after a pass, and those that took no part in it.\<close>
definition kept_clusters :: "bool \<Rightarrow> merge_state \<Rightarrow> cluster list" where
  "kept_clusters flag st =
     (let (clusters, consumed, merged_flags) = st
      in map (\<lambda>i. clusters ! i)
           (filter (\<lambda>i. i \<notin> consumed \<and> merged_flags ! i = flag) [0..<length clusters]))"

text \<open>What every step of a pass keeps, for the clusters it began with: up to row \<open>r\<close> the
  consumed clusters are part of one that is not consumed.\<close>
definition merge_inv :: "grid_context \<Rightarrow> u64 set \<Rightarrow> cluster list \<Rightarrow> nat \<Rightarrow> merge_state \<Rightarrow> bool" where
  "merge_inv ctx movers cs0 r st \<longleftrightarrow>
     (let (cs, consumed, flags) = st
      in length cs = length cs0 \<and> length flags = length cs0 \<and> consumed \<subseteq> {..<length cs0}
         \<and> (True \<in> set flags \<longrightarrow> consumed \<noteq> {})
         \<and> (True \<notin> set flags \<longrightarrow> cs = cs0)
         \<and> (\<forall>i < length cs0. (cs ! i = cs0 ! i \<or> is_valid_rect ctx (fst (cs ! i)) (snd (cs ! i)) movers)
              \<and> fst (cs0 ! i) \<subseteq> fst (cs ! i) \<and> snd (cs0 ! i) \<subseteq> snd (cs ! i))
         \<and> (\<forall>k \<in> consumed. \<exists>i < length cs0. i \<le> r \<and> i \<notin> consumed
              \<and> fst (cs0 ! k) \<subseteq> fst (cs ! i) \<and> snd (cs0 ! k) \<subseteq> snd (cs ! i)))"

lemma merge_inv_mono:
  assumes "merge_inv ctx movers cs0 r st" "r \<le> r'"
  shows "merge_inv ctx movers cs0 r' st"
proof -
  obtain cs consumed flags where st: "st = (cs, consumed, flags)" by (cases st)
  have "\<exists>i < length cs0. i \<le> r' \<and> i \<notin> consumed
      \<and> fst (cs0 ! k) \<subseteq> fst (cs ! i) \<and> snd (cs0 ! k) \<subseteq> snd (cs ! i)" if k: "k \<in> consumed" for k
  proof -
    have "\<forall>k \<in> consumed. \<exists>i < length cs0. i \<le> r \<and> i \<notin> consumed
      \<and> fst (cs0 ! k) \<subseteq> fst (cs ! i) \<and> snd (cs0 ! k) \<subseteq> snd (cs ! i)"
      using assms(1) by (simp add: merge_inv_def st)
    from bspec[OF this k] obtain i where "i < length cs0" "i \<le> r" "i \<notin> consumed"
        "fst (cs0 ! k) \<subseteq> fst (cs ! i)" "snd (cs0 ! k) \<subseteq> snd (cs ! i)"
      by blast
    then show ?thesis using assms(2) by (intro exI[of _ i]) simp
  qed
  then show ?thesis using assms(1) unfolding merge_inv_def st by simp
qed

lemma merge_pair_inv:
  assumes inv: "merge_inv ctx movers cs0 i st" and i: "i \<notin> fst (snd st)" and j: "i < j" "j < length cs0"
  shows "merge_inv ctx movers cs0 i (merge_pair ctx movers i st j) \<and> i \<notin> fst (snd (merge_pair ctx movers i st j))"
proof -
  obtain cs consumed flags where st: "st = (cs, consumed, flags)" by (cases st)
  let ?m = "cluster_union (cs ! i) (cs ! j)"
  show ?thesis
  proof (cases "j \<notin> consumed \<and> is_valid_rect ctx (fst ?m) (snd ?m) movers")
    case True
    have step: "merge_pair ctx movers i st j = (cs[i := ?m], insert j consumed, flags[i := True, j := True])"
      using True by (simp add: merge_pair_def st Let_def)
    have len: "length cs = length cs0" "length flags = length cs0" and sub: "consumed \<subseteq> {..<length cs0}"
      and each: "\<And>k. k < length cs0 \<Longrightarrow> (cs ! k = cs0 ! k \<or> is_valid_rect ctx (fst (cs ! k)) (snd (cs ! k)) movers)
              \<and> fst (cs0 ! k) \<subseteq> fst (cs ! k) \<and> snd (cs0 ! k) \<subseteq> snd (cs ! k)"
      and kept: "\<And>k. k \<in> consumed \<Longrightarrow> \<exists>l < length cs0. l \<le> i \<and> l \<notin> consumed
              \<and> fst (cs0 ! k) \<subseteq> fst (cs ! l) \<and> snd (cs0 ! k) \<subseteq> snd (cs ! l)"
      using inv by (auto simp: merge_inv_def st Let_def)
    have grow: "fst (cs ! l) \<subseteq> fst (cs[i := ?m] ! l) \<and> snd (cs ! l) \<subseteq> snd (cs[i := ?m] ! l)" if "l < length cs0" for l
      using that len by (cases "l = i") (auto simp: cluster_union_def)
    have "\<exists>l < length cs0. l \<le> i \<and> l \<notin> insert j consumed
              \<and> fst (cs0 ! k) \<subseteq> fst (cs[i := ?m] ! l) \<and> snd (cs0 ! k) \<subseteq> snd (cs[i := ?m] ! l)"
      if k: "k \<in> insert j consumed" for k
    proof (cases "k = j")
      case True
      then show ?thesis
        using i j len each[of j] st by (intro exI[of _ i]) (auto simp: cluster_union_def)
    next
      case False
      then obtain l where "l < length cs0" "l \<le> i" "l \<notin> consumed"
          "fst (cs0 ! k) \<subseteq> fst (cs ! l)" "snd (cs0 ! k) \<subseteq> snd (cs ! l)"
        using kept[of k] k False by blast
      with grow[of l] j(1) show ?thesis by (intro exI[of _ l]) auto
    qed
    moreover have "(cs[i := ?m] ! k = cs0 ! k \<or> is_valid_rect ctx (fst (cs[i := ?m] ! k)) (snd (cs[i := ?m] ! k)) movers)
        \<and> fst (cs0 ! k) \<subseteq> fst (cs[i := ?m] ! k) \<and> snd (cs0 ! k) \<subseteq> snd (cs[i := ?m] ! k)" if "k < length cs0" for k
      using each[OF that] grow[OF that] True that len by (cases "k = i") auto
    moreover have "True \<in> set (flags[i := True, j := True])"
      using len j by (simp add: set_update_memI)
    ultimately show ?thesis
      unfolding step merge_inv_def using len sub j i st by simp
  next
    case False
    then have "merge_pair ctx movers i st j = st" by (auto simp: merge_pair_def st Let_def)
    then show ?thesis using inv i by simp
  qed
qed

lemma merge_row_inv:
  assumes "merge_inv ctx movers cs0 r st" "r \<le> i" "i < length cs0"
  shows "merge_inv ctx movers cs0 i (merge_row ctx movers st i)"
proof -
  have inv: "merge_inv ctx movers cs0 i st"
    using merge_inv_mono[OF assms(1,2)] .
  show ?thesis
  proof (cases "i \<in> fst (snd st)")
    case False
    have "set js \<subseteq> {i + 1..<length cs0} \<Longrightarrow> merge_inv ctx movers cs0 i (foldl (merge_pair ctx movers i) st js)
        \<and> i \<notin> fst (snd (foldl (merge_pair ctx movers i) st js))" for js
    proof (induction js rule: rev_induct)
      case (snoc j js)
      then show ?case using merge_pair_inv[of ctx movers cs0 i "foldl (merge_pair ctx movers i) st js" j] by simp
    qed (use inv False in simp)
    moreover have "length (fst st) = length cs0" using assms(1) by (auto simp: merge_inv_def split: prod.splits)
    ultimately show ?thesis using False by (simp add: merge_row_def)
  qed (simp add: merge_row_def inv)
qed

lemma merge_pass_inv: "merge_inv ctx movers cs (length cs) (merge_pass ctx movers cs)"
proof -
  let ?f = "\<lambda>n. foldl (merge_row ctx movers) (cs, {}, replicate (length cs) False) [0..<n]"
  have "n \<le> length cs \<Longrightarrow> merge_inv ctx movers cs n (?f n)" for n
  proof (induction n)
    case 0
    then show ?case by (simp add: merge_inv_def)
  next
    case (Suc n)
    then have "merge_inv ctx movers cs n (merge_row ctx movers (?f n) n)"
      using merge_row_inv[of ctx movers cs n "?f n" n] by simp
    then show ?case using merge_inv_mono[of ctx movers cs n _ "Suc n"] by simp
  qed
  then show ?thesis by (simp add: merge_pass_def)
qed

lemma kept_clusters_fewer:
  assumes "True \<in> set (snd (snd (merge_pass ctx movers cs)))"
  shows "length (kept_clusters True (merge_pass ctx movers cs)) < length cs"
proof -
  obtain cs' consumed flags where st: "merge_pass ctx movers cs = (cs', consumed, flags)" by (cases "merge_pass ctx movers cs")
  have inv: "length cs' = length cs" "consumed \<subseteq> {..<length cs}" "consumed \<noteq> {}"
    using merge_pass_inv[of ctx movers cs] assms by (auto simp: merge_inv_def st)
  then obtain k where k: "k \<in> consumed" "k < length cs" by blast
  have "length (kept_clusters True (merge_pass ctx movers cs))
      = card {i. i < length cs \<and> i \<notin> consumed \<and> flags ! i}"
    by (simp add: kept_clusters_def st inv(1) length_filter_conv_card cong: conj_cong)
  also have "\<dots> \<le> card ({..<length cs} - {k})" using k by (intro card_mono) auto
  also have "\<dots> < length cs" using k(2) by (simp add: card_Diff_singleton)
  finally show ?thesis .
qed

function merge_loop :: "grid_context \<Rightarrow> u64 set \<Rightarrow> cluster list \<Rightarrow> cluster list \<Rightarrow> cluster list" where
  "merge_loop ctx movers solved clusters =
     (if length clusters \<le> 1 then solved @ clusters
      else let st = merge_pass ctx movers clusters
           in if True \<notin> set (snd (snd st)) then solved @ fst st
              else merge_loop ctx movers (solved @ kept_clusters False st) (kept_clusters True st))"
  by pat_completeness auto
termination
  by (relation "measure (\<lambda>(ctx, movers, solved, clusters). length clusters)") (simp_all add: kept_clusters_fewer)

declare merge_loop.simps [simp del]

definition merge_clusters :: "grid_context \<Rightarrow> cluster list \<Rightarrow> u64 set \<Rightarrow> cluster list" where
  "merge_clusters ctx clusters movers = merge_loop ctx movers [] clusters"

definition build_aod_grids :: "grid_context \<Rightarrow> (u64, u64) fmap \<Rightarrow> u64 list list" where
  "build_aod_grids ctx es =
     (if fmdom es = {||} then []
      else let movers = fset (fmdom es);
               clusters = greedy_init ctx es movers;
               solved = merge_clusters ctx clusters movers
           in filter (\<lambda>lanes. lanes \<noteq> []) (map (\<lambda>(xs, ys). rect_to_lanes ctx xs ys) solved))"

section \<open>The rectangles are valid\<close>

text \<open>A cluster that a rectangle is made of.\<close>
definition good_cluster :: "grid_context \<Rightarrow> u64 set \<Rightarrow> cluster \<Rightarrow> bool" where
  "good_cluster ctx movers c \<longleftrightarrow> fst c \<noteq> {} \<and> snd c \<noteq> {} \<and> is_valid_rect ctx (fst c) (snd c) movers"

lemma empty_rect_valid: "is_valid_rect ctx {} {} movers"
  by (simp add: is_valid_rect_def rect_positions_def)

lemma greedy_round_good: "is_valid_rect ctx (fst (fst (greedy_round ctx movers es))) (snd (fst (greedy_round ctx movers es))) movers"
proof (induction es rule: rev_induct)
  case (snoc e es)
  then show ?case
    by (auto simp: greedy_round_def greedy_visit_def Let_def split: prod.splits option.splits)
qed (simp add: greedy_round_def empty_rect_valid)

lemma greedy_clusters_good: "list_all (good_cluster ctx movers) (greedy_clusters ctx movers es)"
proof (induction ctx movers es rule: greedy_clusters.induct)
  case (1 ctx movers es)
  show ?case
    using "1.IH"[OF _ refl] greedy_round_good[of ctx movers es]
    by (subst greedy_clusters.simps) (simp add: Let_def good_cluster_def[of _ _ "fst (greedy_round ctx movers es)"])
qed

lemma merge_pass_good:
  assumes "list_all (good_cluster ctx movers) cs"
  shows "list_all (good_cluster ctx movers) (fst (merge_pass ctx movers cs))"
proof -
  obtain cs' consumed flags where st: "merge_pass ctx movers cs = (cs', consumed, flags)" by (cases "merge_pass ctx movers cs")
  have inv: "length cs' = length cs" "\<And>i. i < length cs \<Longrightarrow>
      (cs' ! i = cs ! i \<or> is_valid_rect ctx (fst (cs' ! i)) (snd (cs' ! i)) movers)
      \<and> fst (cs ! i) \<subseteq> fst (cs' ! i) \<and> snd (cs ! i) \<subseteq> snd (cs' ! i)"
    using merge_pass_inv[of ctx movers cs] by (auto simp: merge_inv_def st)
  have "good_cluster ctx movers (cs' ! i)" if "i < length cs'" for i
    using inv(2)[of i] assms that inv(1) by (fastforce simp: good_cluster_def list_all_length)
  then show ?thesis by (simp add: st list_all_length)
qed

lemma kept_in_pass: "set (kept_clusters flag st) \<subseteq> set (fst st)"
  by (auto simp: kept_clusters_def split: prod.splits)

lemma merge_loop_good:
  "list_all (good_cluster ctx movers) solved \<Longrightarrow> list_all (good_cluster ctx movers) cs \<Longrightarrow>
   list_all (good_cluster ctx movers) (merge_loop ctx movers solved cs)"
proof (induction ctx movers solved cs rule: merge_loop.induct)
  case (1 ctx movers solved cs)
  let ?st = "merge_pass ctx movers cs"
  have pass: "list_all (good_cluster ctx movers) (fst ?st)" using merge_pass_good "1.prems"(2) by blast
  then have "list_all (good_cluster ctx movers) (kept_clusters flag ?st)" for flag
    using kept_in_pass[of flag ?st] by (auto simp: list_all_iff)
  then show ?case
    using "1.IH"[OF _ refl] "1.prems" pass by (subst merge_loop.simps) (simp add: Let_def)
qed

section \<open>Every atom that can move alone is moved\<close>

definition covered :: "cluster list \<Rightarrow> u64 \<times> u64 \<Rightarrow> bool" where
  "covered cs p \<longleftrightarrow> (\<exists>c \<in> set cs. fst p \<in> fst c \<and> snd p \<in> snd c)"

lemma greedy_visit_keeps:
  "fst (fst st) \<subseteq> fst (fst (greedy_visit ctx movers st e))
   \<and> snd (fst st) \<subseteq> snd (fst (greedy_visit ctx movers st e))
   \<and> set (snd st) \<subseteq> set (snd (greedy_visit ctx movers st e))
   \<and> (fst (fst (greedy_visit ctx movers st e)) = {} \<longleftrightarrow> snd (fst (greedy_visit ctx movers st e)) = {})"
  if "fst (fst st) = {} \<longleftrightarrow> snd (fst st) = {}"
  using that by (auto simp: greedy_visit_def Let_def split: prod.splits option.splits)

text \<open>After a round an entry with a position is left over or in the rectangle, and when the
  rectangle is empty none of the entries can move alone.\<close>
lemma greedy_round_covers:
  assumes "e \<in> set es" "gc_src_to_pos ctx (fst e) = Some p"
  shows "(e \<in> set (snd (greedy_round ctx movers es)) \<or> covered [fst (greedy_round ctx movers es)] p)
    \<and> (fst (fst (greedy_round ctx movers es)) = {} \<longleftrightarrow> snd (fst (greedy_round ctx movers es)) = {})
    \<and> (fst (fst (greedy_round ctx movers es)) = {} \<longrightarrow> \<not> is_valid_rect ctx {fst p} {snd p} movers)"
proof -
  have both: "fst (fst (greedy_round ctx movers es)) = {} \<longleftrightarrow> snd (fst (greedy_round ctx movers es)) = {}" for es
    by (induction es rule: rev_induct) (use greedy_visit_keeps in \<open>auto simp: greedy_round_def\<close>)
  show ?thesis
    using assms
  proof (induction es rule: rev_induct)
    case (snoc f es)
    let ?r = "greedy_round ctx movers es"
    have step: "greedy_round ctx movers (es @ [f]) = greedy_visit ctx movers ?r f" by (simp add: greedy_round_def)
    note keep = greedy_visit_keeps[OF both[of es], of ctx movers f]
    show ?case
    proof (cases "e \<in> set es")
      case True
      then show ?thesis
        using snoc.IH[OF _ snoc.prems(2)] keep both[of "es @ [f]"] unfolding step covered_def by auto
    next
      case False
      then have "f = e" using snoc.prems(1) by simp
      then show ?thesis
        using snoc.prems(2) both[of "es @ [f]"] both[of es] unfolding step covered_def
        by (auto simp: greedy_visit_def Let_def split: prod.splits option.splits)
    qed
  qed simp
qed

lemma greedy_clusters_cover:
  "e \<in> set es \<Longrightarrow> gc_src_to_pos ctx (fst e) = Some p \<Longrightarrow> is_valid_rect ctx {fst p} {snd p} movers \<Longrightarrow>
   covered (greedy_clusters ctx movers es) p"
proof (induction ctx movers es rule: greedy_clusters.induct)
  case (1 ctx movers es)
  let ?r = "greedy_round ctx movers es"
  have r: "e \<in> set (snd ?r) \<or> covered [fst ?r] p" "fst (fst ?r) \<noteq> {}" "snd (fst ?r) \<noteq> {}"
    using greedy_round_covers[OF "1.prems"(1,2), of movers] "1.prems"(3) by auto
  have step: "greedy_clusters ctx movers es = fst ?r # greedy_clusters ctx movers (snd ?r)"
    using r(2,3) "1.prems"(1) by (subst greedy_clusters.simps) (auto simp: Let_def)
  have "e \<in> set (snd ?r) \<Longrightarrow> covered (greedy_clusters ctx movers (snd ?r)) p"
    using "1.IH"[OF _ refl _ _ "1.prems"(2,3)] "1.prems"(1) r(2,3) by fastforce
  then show ?case using r(1) unfolding step covered_def by auto
qed

lemma covered_mono:
  assumes "covered cs p" "\<And>c. c \<in> set cs \<Longrightarrow> \<exists>d \<in> set ds. fst c \<subseteq> fst d \<and> snd c \<subseteq> snd d"
  shows "covered ds p"
  using assms unfolding covered_def by blast

text \<open>After a pass every cluster is part of one that is kept.\<close>
lemma merge_pass_keeps:
  assumes "c \<in> set cs"
  shows "\<exists>d \<in> set (kept_clusters False (merge_pass ctx movers cs) @ kept_clusters True (merge_pass ctx movers cs)).
    fst c \<subseteq> fst d \<and> snd c \<subseteq> snd d"
proof -
  obtain cs' consumed flags where st: "merge_pass ctx movers cs = (cs', consumed, flags)" by (cases "merge_pass ctx movers cs")
  have inv: "length cs' = length cs" "\<And>i. i < length cs \<Longrightarrow> fst (cs ! i) \<subseteq> fst (cs' ! i) \<and> snd (cs ! i) \<subseteq> snd (cs' ! i)"
    "\<forall>k \<in> consumed. \<exists>i < length cs. i \<le> length cs \<and> i \<notin> consumed
              \<and> fst (cs ! k) \<subseteq> fst (cs' ! i) \<and> snd (cs ! k) \<subseteq> snd (cs' ! i)"
    using merge_pass_inv[of ctx movers cs] by (simp_all add: merge_inv_def st)
  obtain k where k: "k < length cs" "c = cs ! k" using assms by (auto simp: in_set_conv_nth)
  obtain i where i: "i < length cs" "i \<notin> consumed" "fst c \<subseteq> fst (cs' ! i)" "snd c \<subseteq> snd (cs' ! i)"
  proof (cases "k \<in> consumed")
    case True
    from bspec[OF inv(3) True] k(2) show thesis by (elim exE conjE) (rule that, simp_all)
  next
    case False
    then show thesis using inv(2)[OF k(1)] k by (intro that[of k]) simp_all
  qed
  have "cs' ! i \<in> set (kept_clusters (flags ! i) (merge_pass ctx movers cs))"
    using i(1,2) inv(1) by (auto simp: kept_clusters_def st)
  then have "cs' ! i \<in> set (kept_clusters False (merge_pass ctx movers cs) @ kept_clusters True (merge_pass ctx movers cs))"
    by (cases "flags ! i") simp_all
  then show ?thesis using i(3,4) by blast
qed

lemma merge_pass_idle: "True \<notin> set (snd (snd (merge_pass ctx movers cs))) \<Longrightarrow> fst (merge_pass ctx movers cs) = cs"
  using merge_pass_inv[of ctx movers cs] by (auto simp: merge_inv_def split: prod.splits)

lemma merge_loop_covers: "covered (solved @ cs) p \<Longrightarrow> covered (merge_loop ctx movers solved cs) p"
proof (induction ctx movers solved cs rule: merge_loop.induct)
  case (1 ctx movers solved cs)
  let ?st = "merge_pass ctx movers cs"
  have "covered ((solved @ kept_clusters False ?st) @ kept_clusters True ?st) p"
  proof (rule covered_mono[OF "1.prems"])
    fix c assume "c \<in> set (solved @ cs)"
    then show "\<exists>d \<in> set ((solved @ kept_clusters False ?st) @ kept_clusters True ?st). fst c \<subseteq> fst d \<and> snd c \<subseteq> snd d"
      using merge_pass_keeps[of c cs ctx movers] by (cases "c \<in> set solved") (simp, blast)+
  qed
  then show ?case
    using "1.IH"[OF _ refl] "1.prems" merge_pass_idle[of ctx movers cs] by (subst merge_loop.simps) (simp add: Let_def)
qed

section \<open>What the grids are\<close>

lemma those_Some: "those xs = Some ys \<longleftrightarrow> xs = map Some ys"
  by (induction xs arbitrary: ys) (auto split: option.splits simp: Cons_eq_map_conv)

lemma set_rect_positions [simp]: "set (rect_positions xs ys) = xs \<times> ys"
  by (simp add: rect_positions_def)

text \<open>A rectangle is valid when there is a lane at every position, no atom is carried along that was
  not selected, and no destination holds an atom that stays.\<close>
lemma is_valid_rect_iff:
  "is_valid_rect ctx xs ys movers \<longleftrightarrow>
     (\<forall>p \<in> xs \<times> ys. \<exists>s d. gc_pos_to_src ctx p = Some s \<and> gc_src_to_dst ctx s = Some d
        \<and> (s \<in> gc_occupied ctx \<longrightarrow> s \<in> movers)
        \<and> (d \<in> gc_occupied ctx \<longrightarrow> d \<in> movers \<and> (\<exists>q \<in> xs \<times> ys. gc_pos_to_src ctx q = Some d)))"
    (is "?L \<longleftrightarrow> ?R")
proof (cases "those (map (gc_pos_to_src ctx) (rect_positions xs ys))")
  case None
  have "\<exists>p \<in> xs \<times> ys. gc_pos_to_src ctx p = None"
  proof (rule ccontr)
    assume "\<not> ?thesis"
    then have "\<forall>p \<in> set (rect_positions xs ys). gc_pos_to_src ctx p = Some (the (gc_pos_to_src ctx p))" by simp
    then have "map (gc_pos_to_src ctx) (rect_positions xs ys) = map Some (map (the \<circ> gc_pos_to_src ctx) (rect_positions xs ys))"
      by simp
    then show False using None those_Some by (metis option.distinct(1))
  qed
  then have "\<not> ?R" by (metis option.distinct(1))
  then show ?thesis using None by (simp add: is_valid_rect_def)
next
  case (Some sources)
  then have eq: "map (gc_pos_to_src ctx) (rect_positions xs ys) = map Some sources" by (simp add: those_Some)
  have img: "gc_pos_to_src ctx ` (xs \<times> ys) = Some ` set sources"
    using arg_cong[OF eq, of set] by simp
  have mem: "s \<in> set sources \<longleftrightarrow> (\<exists>q \<in> xs \<times> ys. gc_pos_to_src ctx q = Some s)" for s
    using img by (metis (no_types, lifting) image_iff option.inject)
  have some: "\<exists>s \<in> set sources. gc_pos_to_src ctx q = Some s" if "q \<in> xs \<times> ys" for q
    using img that by (metis (no_types, lifting) image_iff)
  have all: "(\<forall>s \<in> set sources. P s) \<longleftrightarrow> (\<forall>q \<in> xs \<times> ys. \<exists>s. gc_pos_to_src ctx q = Some s \<and> P s)" for P
    using some mem by (metis option.inject)
  have dst: "(case gc_src_to_dst ctx s of None \<Rightarrow> False | Some d \<Rightarrow> Q d) \<longleftrightarrow> (\<exists>d. gc_src_to_dst ctx s = Some d \<and> Q d)" for s Q
    by (simp split: option.split)
  show ?thesis
    unfolding is_valid_rect_def Some option.case list_all_iff all mem Let_def dst
    by (intro ball_cong refl) blast
qed

text \<open>A rectangle that can move at once: a lane leaves every position, an atom that was not selected
  is not carried along, and a destination that holds an atom is the source of a selected atom of the
  same rectangle.\<close>
definition clear_rect :: "grid_context \<Rightarrow> u64 set \<Rightarrow> u64 set \<Rightarrow> u64 set \<Rightarrow> bool" where
  "clear_rect ctx xs ys movers \<longleftrightarrow>
     (\<forall>p \<in> xs \<times> ys. \<exists>s d. gc_pos_to_src ctx p = Some s \<and> gc_src_to_dst ctx s = Some d
        \<and> (s \<in> gc_occupied ctx \<longrightarrow> s \<in> movers)
        \<and> (d \<in> gc_occupied ctx \<longrightarrow> d \<in> movers \<and> (\<exists>q \<in> xs \<times> ys. gc_pos_to_src ctx q = Some d)))"

lemma is_valid_rect_clear: "is_valid_rect = clear_rect"
  by (simp add: fun_eq_iff is_valid_rect_iff clear_rect_def)

lemma rect_to_lanes_covers:
  assumes "p \<in> xs \<times> ys" "gc_pos_to_src ctx p = Some s" "gc_src_to_lane ctx s = Some l"
  shows "l \<in> set (rect_to_lanes ctx xs ys)"
  using assms by (auto simp: rect_to_lanes_def List.map_filter_def image_iff)
    (metis bind.bind_lunit option.sel option.distinct(1))

lemma rect_to_lanes_set:
  "set (rect_to_lanes ctx xs ys)
     = {l. \<exists>p \<in> xs \<times> ys. \<exists>s. gc_pos_to_src ctx p = Some s \<and> gc_src_to_lane ctx s = Some l}"
  by (force simp: rect_to_lanes_def List.map_filter_def bind_eq_Some_conv)

lemma build_aod_grids_eq:
  "set (build_aod_grids ctx es) =
     {g. g \<noteq> [] \<and> (\<exists>c \<in> set (merge_clusters ctx (greedy_init ctx es (fset (fmdom es))) (fset (fmdom es))).
        g = rect_to_lanes ctx (fst c) (snd c))}"
proof -
  have "map_entries es = []" if "fmdom es = {||}"
    using that by (simp add: map_entries_def sorted_list_of_fset.rep_eq)
  then have "merge_clusters ctx (greedy_init ctx es (fset (fmdom es))) (fset (fmdom es)) = []" if "fmdom es = {||}"
    using that by (simp add: greedy_init_def merge_clusters_def greedy_clusters.simps merge_loop.simps)
  moreover have "set (filter (\<lambda>lanes. lanes \<noteq> []) (map (\<lambda>(xs, ys). rect_to_lanes ctx xs ys) cs))
      = {g. g \<noteq> [] \<and> (\<exists>c \<in> set cs. g = rect_to_lanes ctx (fst c) (snd c))}" for cs
    by (force simp: image_iff)
  ultimately show ?thesis
    by (simp add: build_aod_grids_def Let_def del: filter_map set_filter)
qed

lemma built_grids_clear:
  assumes "g \<in> set (build_aod_grids ctx es)"
  shows "\<exists>xs ys. xs \<noteq> {} \<and> ys \<noteq> {} \<and> clear_rect ctx xs ys (fset (fmdom es)) \<and> g = rect_to_lanes ctx xs ys"
proof -
  let ?movers = "fset (fmdom es)"
  let ?init = "greedy_init ctx es ?movers"
  have good: "list_all (good_cluster ctx ?movers) (merge_clusters ctx ?init ?movers)"
    unfolding merge_clusters_def greedy_init_def
    by (rule merge_loop_good) (simp_all add: greedy_clusters_good)
  obtain c where "c \<in> set (merge_clusters ctx ?init ?movers)" "g = rect_to_lanes ctx (fst c) (snd c)"
    using assms unfolding build_aod_grids_eq by blast
  with good show ?thesis
    by (intro exI[of _ "fst c"] exI[of _ "snd c"])
      (simp add: list_all_iff good_cluster_def is_valid_rect_clear)
qed

lemma built_grids_cover:
  assumes a: "s |\<in>| fmdom es" "gc_src_to_pos ctx s = Some p" "gc_pos_to_src ctx p = Some s"
    "gc_src_to_lane ctx s = Some l" "clear_rect ctx {fst p} {snd p} (fset (fmdom es))"
  shows "\<exists>g \<in> set (build_aod_grids ctx es). l \<in> set g"
proof -
  let ?movers = "fset (fmdom es)"
  let ?init = "greedy_init ctx es ?movers"
  obtain v where "(s, v) \<in> set (map_entries es)" using a(1) by (auto simp: set_map_entries fmlookup_dom_iff)
  then have "covered ?init p"
    unfolding greedy_init_def
    by (rule greedy_clusters_cover) (use a in \<open>simp_all add: is_valid_rect_clear\<close>)
  then have "covered (merge_clusters ctx ?init ?movers) p"
    unfolding merge_clusters_def by (intro merge_loop_covers) simp
  then obtain c where c: "c \<in> set (merge_clusters ctx ?init ?movers)" "p \<in> fst c \<times> snd c"
    by (auto simp: covered_def mem_Times_iff)
  have l: "l \<in> set (rect_to_lanes ctx (fst c) (snd c))"
    using rect_to_lanes_covers[OF c(2)] a by blast
  then have "rect_to_lanes ctx (fst c) (snd c) \<in> set (build_aod_grids ctx es)"
    unfolding build_aod_grids_eq using c(1) by auto
  with l show ?thesis by blast
qed

text \<open>C9. Every grid returned is the rectangle of some x and y coordinates that can move at once, and
  every selected atom that could move alone (in a rectangle of its own) is in one of them.\<close>
theorem build_aod_grids_spec:
  fixes ctx :: grid_context and es :: "(u64, u64) fmap"
  defines "movers \<equiv> fset (fmdom es)"
  shows "(\<forall>g \<in> set (build_aod_grids ctx es). \<exists>xs ys.
            xs \<noteq> {} \<and> ys \<noteq> {} \<and> clear_rect ctx xs ys movers \<and> g = rect_to_lanes ctx xs ys)
     \<and> (\<forall>s p l. s |\<in>| fmdom es \<and> gc_src_to_pos ctx s = Some p \<and> gc_pos_to_src ctx p = Some s
          \<and> gc_src_to_lane ctx s = Some l \<and> clear_rect ctx {fst p} {snd p} movers
          \<longrightarrow> (\<exists>g \<in> set (build_aod_grids ctx es). l \<in> set g))"
  unfolding movers_def using built_grids_clear built_grids_cover by blast

text \<open>Two atoms in a row, whose lanes go up.\<close>
definition row_context :: grid_context where
  "row_context = \<lparr>gc_pos_to_src = [(0, 0) \<mapsto> 10, (1, 0) \<mapsto> 11], gc_src_to_lane = [10 \<mapsto> 100, 11 \<mapsto> 101],
     gc_src_to_dst = [10 \<mapsto> 20, 11 \<mapsto> 21], gc_src_to_pos = [10 \<mapsto> (0, 0), 11 \<mapsto> (1, 0)],
     gc_occupied = {10, 11}\<rparr>"

theorem build_aod_grids_spec_witness:
  "\<exists>g \<in> set (build_aod_grids row_context (fmap_of_list [(10, 100), (11, 101)])). 101 \<in> set g"
proof -
  let ?es = "fmap_of_list [(10 :: u64, 100 :: u64), (11, 101)]"
  have "clear_rect row_context {1} {0} (fset (fmdom ?es))" "11 |\<in>| fmdom ?es"
    by (simp_all add: clear_rect_def row_context_def)
  then show ?thesis
    using build_aod_grids_spec[of row_context ?es, THEN conjunct2, rule_format, of 11 "(1, 0)" 101]
    by (simp add: row_context_def)
qed

text \<open>A cluster that does not merge may merge later: a filler lane of the union of the first two
  clusters leads to an atom of the third.  The code's comment says otherwise, and the pass below
  leaves two rectangles where one would do.\<close>
definition filler_context :: grid_context where
  "filler_context = \<lparr>gc_pos_to_src = [(0, 0) \<mapsto> 10, (1, 1) \<mapsto> 20, (2, 0) \<mapsto> 40, (0, 1) \<mapsto> 30, (1, 0) \<mapsto> 50, (2, 1) \<mapsto> 60],
     gc_src_to_lane = [10 \<mapsto> 110, 20 \<mapsto> 120, 40 \<mapsto> 140, 30 \<mapsto> 130, 50 \<mapsto> 150, 60 \<mapsto> 160],
     gc_src_to_dst = [10 \<mapsto> 11, 20 \<mapsto> 21, 40 \<mapsto> 41, 30 \<mapsto> 40, 50 \<mapsto> 51, 60 \<mapsto> 10],
     gc_src_to_pos = [10 \<mapsto> (0, 0), 20 \<mapsto> (1, 1), 40 \<mapsto> (2, 0)], gc_occupied = {10, 20, 40}\<rparr>"

lemma merge_gives_up_early:
  "merge_clusters filler_context [({0}, {0}), ({1}, {1}), ({2}, {0})] {10, 20, 40}
     = [({1}, {1}), ({0, 2}, {0})]"
  "is_valid_rect filler_context {0, 1, 2} {0, 1} {10, 20, 40}"
  by code_simp+

end
