(* ===== verification/Atom_State.thy ===== *)
theory Atom_State
  imports Arch_Validate
begin

text \<open>
  Where the qubits are: \<open>atom_state.rs\<close>.  The state keeps a map from locations to qubits and
  one from qubits to locations in step; moving along lanes updates both, and two atoms that meet
  leave both maps and are recorded as collided.  The locale \<open>lane_resolver\<close> is what
  \<open>apply_moves\<close> needs of an architecture: endpoints of lanes, and the lane back.
\<close>

section \<open>The state and its operations\<close>

record atom_state =
  locations_to_qubit :: "(location_addr, u32) fmap"
  qubit_to_locations :: "(u32, location_addr) fmap"
  collision :: "(u32, u32) fmap"
  prev_lanes :: "(u32, lane_addr) fmap"
  move_count :: "(u32, u32) fmap"

definition atoms_new :: atom_state where
  "atoms_new = \<lparr>locations_to_qubit = fmempty, qubit_to_locations = fmempty, collision = fmempty,
     prev_lanes = fmempty, move_count = fmempty\<rparr>"

definition from_locations :: "(u32 \<times> location_addr) list \<Rightarrow> atom_state" where
  "from_locations locs =
     (let (q2l, l2q) = foldl (\<lambda>(q2l, l2q) (qubit, loc). (fmupd qubit loc q2l, fmupd loc qubit l2q))
                         (fmempty, fmempty) locs
      in \<lparr>locations_to_qubit = l2q, qubit_to_locations = q2l, collision = fmempty,
          prev_lanes = fmempty, move_count = fmempty\<rparr>)"

datatype add_error = AtomExists | LocationOccupied

fun add_atoms_loop ::
  "(u32 \<times> location_addr) list \<Rightarrow> (u32, location_addr) fmap \<Rightarrow> (location_addr, u32) fmap \<Rightarrow>
   add_error + (u32, location_addr) fmap \<times> (location_addr, u32) fmap" where
  "add_atoms_loop [] q2l l2q = Inr (q2l, l2q)"
| "add_atoms_loop ((qubit, loc) # rest) q2l l2q =
     (if fmlookup q2l qubit \<noteq> None then Inl AtomExists
      else if fmlookup l2q loc \<noteq> None then Inl LocationOccupied
      else add_atoms_loop rest (fmupd qubit loc q2l) (fmupd loc qubit l2q))"

definition add_atoms :: "atom_state \<Rightarrow> (u32 \<times> location_addr) list \<Rightarrow> add_error + atom_state" where
  "add_atoms st locs =
     (case add_atoms_loop locs (qubit_to_locations st) (locations_to_qubit st) of
        Inl e \<Rightarrow> Inl e
      | Inr (q2l, l2q) \<Rightarrow>
          Inr \<lparr>locations_to_qubit = l2q, qubit_to_locations = q2l, collision = fmempty,
               prev_lanes = fmempty, move_count = fmempty\<rparr>)"

text \<open>The body of the loop of \<open>apply_moves\<close>, for one resolved lane.\<close>
definition move_atom :: "lane_addr \<Rightarrow> location_addr \<Rightarrow> location_addr \<Rightarrow> atom_state \<Rightarrow> atom_state" where
  "move_atom lane src dst st =
     (case fmlookup (locations_to_qubit st) src of
        None \<Rightarrow> st
      | Some qubit \<Rightarrow>
          let l2q = fmdrop src (locations_to_qubit st);
              st' = st\<lparr>move_count := fmupd qubit
                         ((case fmlookup (move_count st) qubit of None \<Rightarrow> 0 | Some n \<Rightarrow> n) + 1) (move_count st),
                       prev_lanes := fmupd qubit lane (prev_lanes st)\<rparr>
          in case fmlookup l2q dst of
               Some other_qubit \<Rightarrow>
                 st'\<lparr>locations_to_qubit := fmdrop dst l2q,
                     qubit_to_locations := fmdrop other_qubit (fmdrop qubit (qubit_to_locations st)),
                     collision := fmupd qubit other_qubit (collision st)\<rparr>
             | None \<Rightarrow>
                 st'\<lparr>locations_to_qubit := fmupd dst qubit l2q,
                     qubit_to_locations := fmupd qubit dst (qubit_to_locations st)\<rparr>)"

fun apply_lanes ::
  "(lane_addr \<Rightarrow> (location_addr \<times> location_addr) option) \<Rightarrow> lane_addr list \<Rightarrow> atom_state \<Rightarrow> atom_state option" where
  "apply_lanes resolve [] st = Some st"
| "apply_lanes resolve (lane # lanes) st =
     (case resolve lane of
        None \<Rightarrow> None
      | Some (src, dst) \<Rightarrow> apply_lanes resolve lanes (move_atom lane src dst st))"

definition apply_moves :: "atom_state \<Rightarrow> lane_addr list \<Rightarrow> arch_spec \<Rightarrow> atom_state option" where
  "apply_moves st lanes a = apply_lanes (lane_endpoints a) lanes (st\<lparr>prev_lanes := fmempty\<rparr>)"

definition get_qubit :: "atom_state \<Rightarrow> location_addr \<Rightarrow> u32 option" where
  "get_qubit st loc = fmlookup (locations_to_qubit st) loc"

text \<open>The loop of \<open>get_qubit_pairing\<close> over the qubits in increasing order.\<close>
fun pairing_loop ::
  "arch_spec \<Rightarrow> atom_state \<Rightarrow> u32 \<Rightarrow> (u32 \<times> location_addr) list \<Rightarrow> u32 set \<Rightarrow>
   u32 list \<times> u32 list \<times> u32 list" where
  "pairing_loop a st zid [] visited = ([], [], [])"
| "pairing_loop a st zid ((qubit, loc) # rest) visited =
     (if qubit \<in> visited then pairing_loop a st zid rest visited
      else if loc_zone_id loc \<noteq> zid then pairing_loop a st zid rest (insert qubit visited)
      else case Option.bind (get_cz_partner a loc) (get_qubit st) of
             None \<Rightarrow>
               let (cs, ts, us) = pairing_loop a st zid rest (insert qubit visited) in (cs, ts, qubit # us)
           | Some target \<Rightarrow>
               let (cs, ts, us) = pairing_loop a st zid rest (insert target (insert qubit visited))
               in (qubit # cs, target # ts, us))"

definition get_qubit_pairing ::
  "atom_state \<Rightarrow> zone_addr \<Rightarrow> arch_spec \<Rightarrow> (u32 list \<times> u32 list \<times> u32 list) option" where
  "get_qubit_pairing st z a =
     Option.bind (zone_by_id a (za_zone_id z)) (\<lambda>_.
       Some (pairing_loop a st (za_zone_id z) (map_entries (qubit_to_locations st)) {}))"

section \<open>The two maps stay in step\<close>

definition in_step :: "(location_addr, u32) fmap \<Rightarrow> (u32, location_addr) fmap \<Rightarrow> bool" where
  "in_step l2q q2l \<longleftrightarrow> (\<forall>q l. fmlookup q2l q = Some l \<longleftrightarrow> fmlookup l2q l = Some q)"

text \<open>The qubits the state has lost to collisions.\<close>
definition collided :: "atom_state \<Rightarrow> u32 set" where
  "collided st = fmdom' (collision st) \<union> fmran' (collision st)"

definition atoms_wf :: "atom_state \<Rightarrow> bool" where
  "atoms_wf st \<longleftrightarrow> in_step (locations_to_qubit st) (qubit_to_locations st)
     \<and> fmdom' (qubit_to_locations st) \<inter> collided st = {}"

definition all_qubits :: "atom_state \<Rightarrow> u32 set" where
  "all_qubits st = fmdom' (qubit_to_locations st) \<union> collided st"

lemma in_stepD:
  "in_step l2q q2l \<Longrightarrow> fmlookup q2l q = Some l \<longleftrightarrow> fmlookup l2q l = Some q"
  by (simp add: in_step_def)

lemma in_step_empty [simp]: "in_step fmempty fmempty"
  by (simp add: in_step_def)

lemma in_step_insert:
  "in_step l2q q2l \<Longrightarrow> fmlookup q2l q = None \<Longrightarrow> fmlookup l2q l = None \<Longrightarrow>
   in_step (fmupd l q l2q) (fmupd q l q2l)"
  unfolding in_step_def by (auto split: if_splits) (metis option.distinct(1))

text \<open>Taking an atom off both maps.\<close>
lemma in_step_remove:
  "in_step l2q q2l \<Longrightarrow> fmlookup l2q l = Some q \<Longrightarrow> in_step (fmdrop l l2q) (fmdrop q q2l)"
  unfolding in_step_def by (auto split: if_splits) (metis option.inject)

lemma fmupd_fmdrop: "fmupd k v (fmdrop k m) = fmupd k v m"
  by (rule fmap_ext) simp

lemma fmdom'_lookup: "k \<in> fmdom' m \<longleftrightarrow> fmlookup m k \<noteq> None"
  by (auto simp: fmlookup_dom'_iff)

lemma fmran'_fresh: "fmlookup m k = None \<Longrightarrow> fmran' (fmupd k v m) = insert v (fmran' m)"
  by (auto simp: fmlookup_ran'_iff split: if_splits) (metis option.distinct(1))

text \<open>The three ways one resolved lane changes the maps.\<close>
lemma move_atom_cases:
  obtains (idle) "fmlookup (locations_to_qubit st) src = None" "move_atom lane src dst st = st"
  | (collide) q r where "fmlookup (locations_to_qubit st) src = Some q" "src \<noteq> dst"
      "fmlookup (locations_to_qubit st) dst = Some r"
      "locations_to_qubit (move_atom lane src dst st) = fmdrop dst (fmdrop src (locations_to_qubit st))"
      "qubit_to_locations (move_atom lane src dst st) = fmdrop r (fmdrop q (qubit_to_locations st))"
      "collision (move_atom lane src dst st) = fmupd q r (collision st)"
  | (move) q where "fmlookup (locations_to_qubit st) src = Some q"
      "src = dst \<or> fmlookup (locations_to_qubit st) dst = None"
      "locations_to_qubit (move_atom lane src dst st) = fmupd dst q (fmdrop src (locations_to_qubit st))"
      "qubit_to_locations (move_atom lane src dst st) = fmupd q dst (fmdrop q (qubit_to_locations st))"
      "collision (move_atom lane src dst st) = collision st"
proof (cases "fmlookup (locations_to_qubit st) src")
  case None
  then show thesis by (intro idle) (simp_all add: move_atom_def)
next
  case (Some q)
  show thesis
  proof (cases "fmlookup (fmdrop src (locations_to_qubit st)) dst")
    case None
    then show thesis using Some
      by (intro move[of q]) (auto simp: move_atom_def Let_def fmupd_fmdrop split: if_splits)
  next
    case r: (Some r)
    then show thesis using Some
      by (intro collide[of q r]) (auto simp: move_atom_def Let_def split: if_splits)
  qed
qed

lemma move_atom_in_step:
  assumes "in_step (locations_to_qubit st) (qubit_to_locations st)"
  shows "in_step (locations_to_qubit (move_atom lane src dst st)) (qubit_to_locations (move_atom lane src dst st))"
proof (cases rule: move_atom_cases[of st src lane dst])
  case idle
  then show ?thesis using assms by simp
next
  case (collide q r)
  have "in_step (fmdrop src (locations_to_qubit st)) (fmdrop q (qubit_to_locations st))"
    using assms collide(1) by (rule in_step_remove)
  then show ?thesis using collide by (simp add: in_step_remove)
next
  case (move q)
  have "in_step (fmdrop src (locations_to_qubit st)) (fmdrop q (qubit_to_locations st))"
    using assms move(1) by (rule in_step_remove)
  then show ?thesis using move by (auto intro!: in_step_insert)
qed

text \<open>No qubit is lost: it is located or recorded as collided, never both.\<close>
lemma move_atom_wf:
  assumes "atoms_wf st"
  shows "atoms_wf (move_atom lane src dst st)" "all_qubits (move_atom lane src dst st) = all_qubits st"
proof -
  have step: "in_step (locations_to_qubit st) (qubit_to_locations st)"
    and disj: "fmdom' (qubit_to_locations st) \<inter> collided st = {}"
    using assms by (auto simp: atoms_wf_def)
  have "fmdom' (qubit_to_locations (move_atom lane src dst st)) \<inter> collided (move_atom lane src dst st) = {}
    \<and> all_qubits (move_atom lane src dst st) = all_qubits st"
  proof (cases rule: move_atom_cases[of st src lane dst])
    case idle
    then show ?thesis using disj by simp
  next
    case (collide q r)
    have located: "q \<in> fmdom' (qubit_to_locations st)" "r \<in> fmdom' (qubit_to_locations st)"
      using collide(1,3) step by (auto simp: in_step_def fmlookup_dom'_iff)
    then have "q \<notin> fmdom' (collision st)" using disj by (auto simp: collided_def)
    then have "fmlookup (collision st) q = None" by (simp add: fmdom'_lookup)
    then have "collided (move_atom lane src dst st) = collided st \<union> {q, r}"
      by (auto simp: collided_def collide fmran'_fresh)
    then show ?thesis using located disj by (auto simp: all_qubits_def collide)
  next
    case (move q)
    then have "q \<in> fmdom' (qubit_to_locations st)"
      using step by (auto simp: in_step_def fmlookup_dom'_iff)
    then show ?thesis using disj by (auto simp: all_qubits_def collided_def move)
  qed
  then show "atoms_wf (move_atom lane src dst st)" "all_qubits (move_atom lane src dst st) = all_qubits st"
    using move_atom_in_step[OF step] by (auto simp: atoms_wf_def)
qed

section \<open>Resolving lanes\<close>

locale lane_resolver =
  fixes resolve :: "lane_addr \<Rightarrow> (location_addr \<times> location_addr) option"
    and rev_lane :: "lane_addr \<Rightarrow> lane_addr"
  assumes resolve_back: "resolve l = Some (s, d) \<Longrightarrow> resolve (rev_lane l) = Some (d, s)"
begin

lemma apply_defined_iff: "apply_lanes resolve lanes st \<noteq> None \<longleftrightarrow> (\<forall>l \<in> set lanes. resolve l \<noteq> None)"
  by (induction lanes arbitrary: st) (auto split: option.splits)

lemma apply_append:
  "apply_lanes resolve (xs @ ys) st = Option.bind (apply_lanes resolve xs st) (apply_lanes resolve ys)"
  by (induction xs arbitrary: st) (auto split: option.splits)

lemma apply_wf:
  "apply_lanes resolve lanes st = Some st' \<Longrightarrow> atoms_wf st \<Longrightarrow> atoms_wf st' \<and> all_qubits st' = all_qubits st"
  by (induction lanes arbitrary: st) (auto simp: move_atom_wf split: option.splits)

text \<open>An atom moved to a free place returns along the lane back.\<close>
lemma apply_back:
  assumes "atoms_wf st" "resolve l = Some (s, d)"
    "fmlookup (locations_to_qubit st) s = Some q" "fmlookup (locations_to_qubit st) d = None"
  obtains st' where "apply_lanes resolve [l, rev_lane l] st = Some st'"
    "locations_to_qubit st' = locations_to_qubit st" "qubit_to_locations st' = qubit_to_locations st"
    "collision st' = collision st"
proof
  let ?st = "move_atom (rev_lane l) d s (move_atom l s d st)"
  have sd: "s \<noteq> d" using assms(3,4) by auto
  have q: "fmlookup (qubit_to_locations st) q = Some s"
    using assms(1,3) by (simp add: atoms_wf_def in_step_def)
  show "apply_lanes resolve [l, rev_lane l] st = Some ?st" using assms(2) resolve_back by simp
  show "locations_to_qubit ?st = locations_to_qubit st"
    using sd assms(3,4) by (intro fmap_ext) (auto simp: move_atom_def Let_def)
  show "qubit_to_locations ?st = qubit_to_locations st"
    using sd assms(3,4) q by (intro fmap_ext) (auto simp: move_atom_def Let_def)
  show "collision ?st = collision st"
    using sd assms(3,4) by (simp add: move_atom_def Let_def)
qed

end

interpretation lanes: lane_resolver "lane_endpoints a" reversed for a
  by unfold_locales (rule endpoints_reversed)

section \<open>Adding atoms\<close>

definition fresh_atoms :: "(u32 \<times> location_addr) list \<Rightarrow> atom_state \<Rightarrow> bool" where
  "fresh_atoms locs st \<longleftrightarrow> distinct (map fst locs) \<and> distinct (map snd locs)
     \<and> (\<forall>(q, l) \<in> set locs. fmlookup (qubit_to_locations st) q = None
                            \<and> fmlookup (locations_to_qubit st) l = None)"

lemma fresh_step:
  "(\<forall>(q, l) \<in> set rest. fmlookup (fmupd qubit loc q2l) q = None \<and> fmlookup (fmupd loc qubit l2q) l = None)
   \<longleftrightarrow> qubit \<notin> fst ` set rest \<and> loc \<notin> snd ` set rest
       \<and> (\<forall>(q, l) \<in> set rest. fmlookup q2l q = None \<and> fmlookup l2q l = None)"
  by (induction rest) (auto split: if_splits)

lemma add_loop_Inr_iff:
  "(\<exists>r. add_atoms_loop locs q2l l2q = Inr r) \<longleftrightarrow>
     distinct (map fst locs) \<and> distinct (map snd locs)
     \<and> (\<forall>(q, l) \<in> set locs. fmlookup q2l q = None \<and> fmlookup l2q l = None)"
proof (induction locs q2l l2q rule: add_atoms_loop.induct)
  case (2 qubit loc rest q2l l2q)
  show ?case
    using 2[unfolded fresh_step] by auto
qed simp

lemma add_loop_in_step:
  "add_atoms_loop locs q2l l2q = Inr (q2l', l2q') \<Longrightarrow> in_step l2q q2l \<Longrightarrow>
   in_step l2q' q2l' \<and> fmdom' q2l' = fmdom' q2l \<union> fst ` set locs"
proof (induction locs q2l l2q rule: add_atoms_loop.induct)
  case (2 qubit loc rest q2l l2q)
  then show ?case by (auto simp: in_step_insert split: if_splits)
qed simp

lemma add_loop_lookup:
  "add_atoms_loop locs q2l l2q = Inr (q2l', l2q') \<Longrightarrow>
   fmlookup q2l' q = or_else (map_of locs q) (fmlookup q2l q)"
proof (induction locs q2l l2q rule: add_atoms_loop.induct)
  case (2 qubit loc rest q2l l2q)
  then have "(\<exists>r. add_atoms_loop ((qubit, loc) # rest) q2l l2q = Inr r)" by blast
  then have "map_of rest qubit = None"
    unfolding add_loop_Inr_iff by (auto simp: map_of_eq_None_iff)
  with 2 show ?case by (auto split: if_splits)
qed simp

lemma from_locations_loop:
  assumes "distinct (map fst locs)" "distinct (map snd locs)"
    "\<forall>(q, l) \<in> set locs. fmlookup q2l q = None \<and> fmlookup l2q l = None"
  shows "add_atoms_loop locs q2l l2q =
    Inr (foldl (\<lambda>(q2l, l2q) (qubit, loc). (fmupd qubit loc q2l, fmupd loc qubit l2q)) (q2l, l2q) locs)"
  using assms
proof (induction locs q2l l2q rule: add_atoms_loop.induct)
  case (2 qubit loc rest q2l l2q)
  show ?case
    using 2(2-4) 2(1)[unfolded fresh_step] by auto
qed simp

lemma from_locations_add:
  assumes "distinct (map fst locs)" "distinct (map snd locs)"
  shows "add_atoms atoms_new locs = Inr (from_locations locs)"
  using from_locations_loop[OF assms, of fmempty fmempty]
  by (simp add: add_atoms_def from_locations_def atoms_new_def split: prod.split)

lemma add_atoms_wf:
  assumes "atoms_wf st" "add_atoms st locs = Inr st'"
  shows "atoms_wf st' \<and> fmdom' (qubit_to_locations st') = fmdom' (qubit_to_locations st) \<union> fst ` set locs"
proof -
  obtain q2l l2q where "add_atoms_loop locs (qubit_to_locations st) (locations_to_qubit st) = Inr (q2l, l2q)"
    and st': "locations_to_qubit st' = l2q" "qubit_to_locations st' = q2l" "collision st' = fmempty"
    using assms(2) by (auto simp: add_atoms_def split: sum.splits)
  then show ?thesis
    using add_loop_in_step[of locs] assms(1) by (auto simp: atoms_wf_def collided_def)
qed

section \<open>Pairing\<close>

text \<open>The qubit that sits at the partner of a qubit's location.\<close>
definition occupant_partner :: "arch_spec \<Rightarrow> atom_state \<Rightarrow> u32 \<Rightarrow> u32 option" where
  "occupant_partner a st q =
     Option.bind (fmlookup (qubit_to_locations st) q) (\<lambda>loc.
     Option.bind (get_cz_partner a loc) (get_qubit st))"

definition in_zone :: "atom_state \<Rightarrow> u32 \<Rightarrow> u32 \<Rightarrow> bool" where
  "in_zone st zid q \<longleftrightarrow> (\<exists>l. fmlookup (qubit_to_locations st) q = Some l \<and> loc_zone_id l = zid)"

text \<open>The partner relation is symmetric and irreflexive within a zone of disjoint pairs.\<close>
lemma occupant_partner_sym:
  assumes "atoms_wf st" "zone_by_id a zid = Some z" "matching (entangling_pairs z)"
    "\<forall>(p, q) \<in> set (entangling_pairs z). p \<noteq> q" "in_zone st zid q" "occupant_partner a st q = Some t"
  shows "occupant_partner a st t = Some q \<and> in_zone st zid t \<and> t \<noteq> q"
proof -
  have step: "in_step (locations_to_qubit st) (qubit_to_locations st)"
    using assms(1) by (simp add: atoms_wf_def)
  obtain l where l: "fmlookup (qubit_to_locations st) q = Some l" "loc_zone_id l = zid"
    using assms(5) by (auto simp: in_zone_def)
  then obtain m where m: "get_cz_partner a l = Some m" "fmlookup (locations_to_qubit st) m = Some t"
    using assms(6) by (auto simp: occupant_partner_def bind_eq_Some_conv get_qubit_def)
  have tm: "fmlookup (qubit_to_locations st) t = Some m" using m(2) in_stepD[OF step] by simp
  have z: "zone_by_id a (loc_zone_id l) = Some z" using assms(2) l(2) by simp
  obtain w where w: "pair_partner (entangling_pairs z) (loc_word_id l) = Some w" "m = l\<lparr>loc_word_id := w\<rparr>"
    using m(1) z by (auto simp: get_cz_partner_eq)
  have "get_cz_partner a m = Some l"
    using z w(2) pair_partner_sym[OF assms(3) w(1)] by (simp add: get_cz_partner_eq)
  moreover have "fmlookup (locations_to_qubit st) l = Some q" using l(1) in_stepD[OF step] by simp
  ultimately have sym: "occupant_partner a st t = Some q"
    using tm by (simp add: occupant_partner_def get_qubit_def)
  have "loc_word_id l \<noteq> w" using pair_partner_SomeD[OF w(1)] assms(4) by auto
  moreover have "loc_word_id m = w" using w(2) by simp
  ultimately have "l \<noteq> m" by auto
  then have "t \<noteq> q" using tm l(1) by auto
  with sym show ?thesis using tm w(2) l(2) by (simp add: in_zone_def)
qed

text \<open>What a pairing of the qubits of a zone, with some already visited, consists of.\<close>
definition pairing_of ::
  "arch_spec \<Rightarrow> atom_state \<Rightarrow> u32 \<Rightarrow> u32 set \<Rightarrow> u32 set \<Rightarrow> u32 list \<times> u32 list \<times> u32 list \<Rightarrow> bool" where
  "pairing_of a st zid Q V = (\<lambda>(cs, ts, us).
     length cs = length ts \<and> distinct (cs @ ts @ us) \<and> set (cs @ ts @ us) \<inter> V = {}
     \<and> (\<forall>q \<in> set (cs @ ts @ us). in_zone st zid q) \<and> Q \<subseteq> V \<union> set (cs @ ts @ us)
     \<and> (\<forall>(c, t) \<in> set (zip cs ts). occupant_partner a st c = Some t)
     \<and> (\<forall>u \<in> set us. occupant_partner a st u = None))"

definition visits_closed :: "arch_spec \<Rightarrow> atom_state \<Rightarrow> u32 \<Rightarrow> u32 set \<Rightarrow> bool" where
  "visits_closed a st zid V \<longleftrightarrow>
     (\<forall>q \<in> V. \<forall>t. in_zone st zid q \<longrightarrow> occupant_partner a st q = Some t \<longrightarrow> t \<in> V)"

lemma pairing_loop_spec:
  assumes sym: "\<And>q t. in_zone st zid q \<Longrightarrow> occupant_partner a st q = Some t \<Longrightarrow>
      occupant_partner a st t = Some q \<and> in_zone st zid t \<and> t \<noteq> q"
  shows "\<forall>(q, l) \<in> set es. fmlookup (qubit_to_locations st) q = Some l \<Longrightarrow> visits_closed a st zid V \<Longrightarrow>
    pairing_of a st zid {q \<in> fst ` set es. in_zone st zid q} V (pairing_loop a st zid es V)"
proof (induction es arbitrary: V)
  case Nil
  then show ?case by (simp add: pairing_of_def)
next
  case (Cons e es)
  obtain q l where e: "e = (q, l)" by fastforce
  have l: "fmlookup (qubit_to_locations st) q = Some l" using Cons.prems(1) e by simp
  then have zone: "in_zone st zid q \<longleftrightarrow> loc_zone_id l = zid" by (simp add: in_zone_def)
  have occ: "occupant_partner a st q = Option.bind (get_cz_partner a l) (get_qubit st)"
    using l by (simp add: occupant_partner_def)
  have IH: "visits_closed a st zid V' \<Longrightarrow>
      pairing_of a st zid {q \<in> fst ` set es. in_zone st zid q} V' (pairing_loop a st zid es V')" for V'
    using Cons.IH Cons.prems(1) by simp
  consider (seen) "q \<in> V" | (elsewhere) "q \<notin> V" "\<not> in_zone st zid q"
    | (alone) "q \<notin> V" "in_zone st zid q" "occupant_partner a st q = None"
    | (paired) t where "q \<notin> V" "in_zone st zid q" "occupant_partner a st q = Some t"
    by blast
  then show ?case
  proof cases
    case seen
    then show ?thesis using IH[OF Cons.prems(2)] e by (auto simp: pairing_of_def)
  next
    case elsewhere
    then have "visits_closed a st zid (insert q V)" using Cons.prems(2) by (auto simp: visits_closed_def)
    from IH[OF this] show ?thesis using elsewhere zone e by (auto simp: pairing_of_def)
  next
    case alone
    then have "visits_closed a st zid (insert q V)" using Cons.prems(2) by (auto simp: visits_closed_def)
    from IH[OF this] show ?thesis using alone zone occ e by (auto simp: pairing_of_def split: prod.splits)
  next
    case (paired t)
    note s = sym[OF paired(2,3)]
    have "t \<notin> V" using s paired(1) Cons.prems(2) by (auto simp: visits_closed_def)
    moreover have "visits_closed a st zid (insert t (insert q V))"
      using s paired Cons.prems(2) by (auto simp: visits_closed_def)
    from IH[OF this] have "pairing_of a st zid {q \<in> fst ` set es. in_zone st zid q} (insert t (insert q V))
      (pairing_loop a st zid es (insert t (insert q V)))" .
    ultimately show ?thesis using s paired zone occ e by (auto simp: pairing_of_def split: prod.splits)
  qed
qed

lemma fst_map_entries: "fst ` set (map_entries m) = fmdom' m"
  by (auto simp: set_map_entries fmlookup_dom'_iff image_iff)

lemma new_wf: "atoms_wf atoms_new"
  by (simp add: atoms_wf_def atoms_new_def collided_def)

lemma from_locations_wf:
  assumes "distinct (map fst locs)" "distinct (map snd locs)"
  shows "atoms_wf (from_locations locs) \<and> fmdom' (qubit_to_locations (from_locations locs)) = fst ` set locs"
  using add_atoms_wf[OF new_wf from_locations_add[OF assms]] by (simp add: atoms_new_def)

section \<open>Properties\<close>

text \<open>C6. Moving atoms fails exactly when some lane of the sequence has no endpoints.  Otherwise the
  two location maps stay inverse to each other and no qubit is lost: every qubit is either located
  or recorded in a collision, never both, and their union does not change.\<close>
theorem apply_moves_conserves:
  assumes "atoms_wf st"
  shows "case apply_moves st lanes a of
      None \<Rightarrow> \<exists>l \<in> set lanes. lane_endpoints a l = None
    | Some st' \<Rightarrow> atoms_wf st' \<and> all_qubits st' = all_qubits st
        \<and> \<not> (\<exists>l \<in> set lanes. lane_endpoints a l = None)"
proof -
  have "atoms_wf (st\<lparr>prev_lanes := fmempty\<rparr>)" "all_qubits (st\<lparr>prev_lanes := fmempty\<rparr>) = all_qubits st"
    using assms by (simp_all add: atoms_wf_def all_qubits_def collided_def)
  then show ?thesis
    using lanes.apply_wf[of a lanes "st\<lparr>prev_lanes := fmempty\<rparr>"]
      lanes.apply_defined_iff[of a lanes "st\<lparr>prev_lanes := fmempty\<rparr>"]
    by (auto simp: apply_moves_def split: option.split)
qed

definition origin_state :: atom_state where
  "origin_state = from_locations [(7, \<lparr>loc_zone_id = 0, loc_word_id = 0, loc_site_id = 0\<rparr>)]"

lemma origin_wf: "atoms_wf origin_state"
  using from_locations_wf[of "[(7, \<lparr>loc_zone_id = 0, loc_word_id = 0, loc_site_id = 0\<rparr>)]"]
  by (simp add: origin_state_def)

lemma example_endpoints:
  "lane_endpoints example_arch (example_lane 0) =
    Some (\<lparr>loc_zone_id = 0, loc_word_id = 0, loc_site_id = 0\<rparr>, \<lparr>loc_zone_id = 0, loc_word_id = 0, loc_site_id = 1\<rparr>)"
  by code_simp

theorem apply_moves_conserves_witness:
  "\<exists>st'. apply_moves origin_state [example_lane 0] example_arch = Some st' \<and> atoms_wf st'"
  using apply_moves_conserves[OF origin_wf, of "[example_lane 0]" example_arch]
  by (auto simp: example_endpoints split: option.splits)

text \<open>C29. An atom moved to a free location comes back along the same lane in the opposite
  direction: both location maps and the collisions are as before.\<close>
theorem apply_moves_undo:
  assumes "atoms_wf st" "lane_endpoints a l = Some (s, d)" "get_qubit st s = Some q" "get_qubit st d = None"
  shows "\<exists>st'. apply_moves st [l, reversed l] a = Some st'
    \<and> locations_to_qubit st' = locations_to_qubit st
    \<and> qubit_to_locations st' = qubit_to_locations st \<and> collision st' = collision st"
proof -
  let ?st = "st\<lparr>prev_lanes := fmempty\<rparr>"
  have wf: "atoms_wf ?st" using assms(1) by (simp add: atoms_wf_def collided_def)
  have at: "fmlookup (locations_to_qubit ?st) s = Some q" "fmlookup (locations_to_qubit ?st) d = None"
    using assms(3,4) by (simp_all add: get_qubit_def)
  obtain st' where "apply_lanes (lane_endpoints a) [l, reversed l] ?st = Some st'"
    "locations_to_qubit st' = locations_to_qubit ?st" "qubit_to_locations st' = qubit_to_locations ?st"
    "collision st' = collision ?st"
    using lanes.apply_back[OF wf assms(2) at] by blast
  then show ?thesis by (auto simp: apply_moves_def)
qed

theorem apply_moves_undo_witness:
  "\<exists>st'. apply_moves origin_state [example_lane 0, reversed (example_lane 0)] example_arch = Some st'
     \<and> locations_to_qubit st' = locations_to_qubit origin_state"
  using apply_moves_undo[OF origin_wf example_endpoints, of 7]
  by (auto simp: get_qubit_def origin_state_def from_locations_def)

text \<open>C30. Atoms can be added exactly when their ids are new and pairwise different and their
  locations are free and pairwise different; then every atom is where it was or where it was
  added, the two maps are inverse to each other and the histories are empty.\<close>
theorem add_atoms_spec:
  assumes "atoms_wf st"
  shows "((\<exists>st'. add_atoms st locs = Inr st') \<longleftrightarrow> fresh_atoms locs st)
    \<and> (\<forall>st'. add_atoms st locs = Inr st' \<longrightarrow>
        atoms_wf st' \<and> collision st' = fmempty \<and> prev_lanes st' = fmempty \<and> move_count st' = fmempty
        \<and> (\<forall>q. fmlookup (qubit_to_locations st') q
                 = or_else (map_of locs q) (fmlookup (qubit_to_locations st) q)))"
proof (intro conjI allI impI)
  show "(\<exists>st'. add_atoms st locs = Inr st') \<longleftrightarrow> fresh_atoms locs st"
    using add_loop_Inr_iff[of locs "qubit_to_locations st" "locations_to_qubit st"]
    by (auto simp: add_atoms_def fresh_atoms_def split: sum.splits prod.splits)
next
  fix st' assume ok: "add_atoms st locs = Inr st'"
  then show "atoms_wf st'" using add_atoms_wf[OF assms ok] by blast
  from ok show "collision st' = fmempty" "prev_lanes st' = fmempty" "move_count st' = fmempty"
    by (auto simp: add_atoms_def split: sum.splits)
  from ok show "fmlookup (qubit_to_locations st') q
      = or_else (map_of locs q) (fmlookup (qubit_to_locations st) q)" for q
    by (auto simp: add_atoms_def add_loop_lookup split: sum.splits)
qed

theorem add_atoms_spec_witness:
  "\<exists>st'. add_atoms origin_state [(8, \<lparr>loc_zone_id = 0, loc_word_id = 0, loc_site_id = 1\<rparr>)] = Inr st'"
  using add_atoms_spec[OF origin_wf, of "[(8, \<lparr>loc_zone_id = 0, loc_word_id = 0, loc_site_id = 1\<rparr>)]"]
  by (simp add: fresh_atoms_def origin_state_def from_locations_def)

text \<open>Building a state from a list gives inverse maps when no qubit and no location occurs
  twice, the same state as adding the atoms one by one; with two qubits at one location the
  constructor, which does not check, returns maps that disagree.\<close>
theorem from_locations_spec:
  "(distinct (map fst locs) \<and> distinct (map snd locs) \<longrightarrow>
      atoms_wf (from_locations locs) \<and> add_atoms atoms_new locs = Inr (from_locations locs))
   \<and> \<not> in_step (locations_to_qubit (from_locations [(0, l), (1, l)]))
        (qubit_to_locations (from_locations [(0, l), (1, l)]))"
proof (intro conjI impI)
  show "\<not> in_step (locations_to_qubit (from_locations [(0, l), (1, l)]))
        (qubit_to_locations (from_locations [(0, l), (1, l)]))"
    by (auto simp: in_step_def from_locations_def intro!: exI[of _ 0] exI[of _ l])
qed (use from_locations_wf from_locations_add in blast)+

theorem from_locations_spec_witness:
  "atoms_wf (from_locations [(3, \<lparr>loc_zone_id = 0, loc_word_id = 0, loc_site_id = 1\<rparr>)])"
  using from_locations_spec[of "[(3, \<lparr>loc_zone_id = 0, loc_word_id = 0, loc_site_id = 1\<rparr>)]"] by simp

text \<open>C31. In a zone whose entangling pairs share no word, pairing sorts the qubits of the zone into
  controls, targets and unpaired: each exactly once, control and target at partner locations, and
  a qubit unpaired only when no atom is at its partner location.\<close>
theorem get_qubit_pairing_spec:
  assumes "atoms_wf st" "zone_by_id a (za_zone_id z) = Some zn" "matching (entangling_pairs zn)"
    "\<forall>(p, q) \<in> set (entangling_pairs zn). p \<noteq> q"
  shows "\<exists>r. get_qubit_pairing st z a = Some r
    \<and> pairing_of a st (za_zone_id z) {q. in_zone st (za_zone_id z) q} {} r"
proof -
  have "pairing_of a st (za_zone_id z)
      {q \<in> fst ` set (map_entries (qubit_to_locations st)). in_zone st (za_zone_id z) q} {}
      (pairing_loop a st (za_zone_id z) (map_entries (qubit_to_locations st)) {})"
  proof (rule pairing_loop_spec)
    show "occupant_partner a st t = Some q \<and> in_zone st (za_zone_id z) t \<and> t \<noteq> q"
      if "in_zone st (za_zone_id z) q" "occupant_partner a st q = Some t" for q t
      using assms(1-4) that by (rule occupant_partner_sym)
    show "\<forall>(q, l) \<in> set (map_entries (qubit_to_locations st)). fmlookup (qubit_to_locations st) q = Some l"
      by (auto simp: set_map_entries)
    show "visits_closed a st (za_zone_id z) {}" by (simp add: visits_closed_def)
  qed
  moreover have "{q \<in> fst ` set (map_entries (qubit_to_locations st)). in_zone st (za_zone_id z) q}
      = {q. in_zone st (za_zone_id z) q}"
    unfolding fst_map_entries by (auto simp: in_zone_def fmlookup_dom'_iff)
  ultimately show ?thesis using assms(2) by (simp add: get_qubit_pairing_def)
qed

theorem get_qubit_pairing_spec_witness:
  "\<exists>r. get_qubit_pairing origin_state \<lparr>za_zone_id = 0\<rparr> example_arch = Some r"
  using get_qubit_pairing_spec[OF origin_wf, of example_arch "\<lparr>za_zone_id = 0\<rparr>" gate_zone]
  by (auto simp: zone_by_id_def example_arch_def gate_zone_def matching_def list_get_def)

text \<open>Without disjoint pairs the loop is greedy: a qubit is taken as the target of the first qubit
  that is not taken itself.\<close>

lemma pairing_loop_greedy:
  assumes "sorted_wrt (<) (map fst ql)" "\<forall>(q, l) \<in> set ql. fmlookup (qubit_to_locations st) q = Some l"
    "pairing_loop a st zid ql visited = (cs, ts, us)"
  shows "sorted_wrt (<) cs \<and> sorted_wrt (<) us \<and> list_all2 (\<lambda>c t. occupant_partner a st c = Some t) cs ts
    \<and> (\<forall>q. q \<in> set cs \<longleftrightarrow> q \<in> fst ` set ql \<and> q \<notin> visited \<and> in_zone st zid q \<and> occupant_partner a st q \<noteq> None
         \<and> \<not> (\<exists>c \<in> set cs. c < q \<and> occupant_partner a st c = Some q))
    \<and> (\<forall>q. q \<in> set us \<longleftrightarrow> q \<in> fst ` set ql \<and> q \<notin> visited \<and> in_zone st zid q \<and> occupant_partner a st q = None
         \<and> \<not> (\<exists>c \<in> set cs. c < q \<and> occupant_partner a st c = Some q))"
  using assms
proof (induction ql arbitrary: visited cs ts us)
  case (Cons x ql)
  obtain p l where x: "x = (p, l)" by (cases x)
  have later: "\<And>q. q \<in> fst ` set ql \<Longrightarrow> p < q" and tail: "sorted_wrt (<) (map fst ql)"
    "\<forall>(q, l) \<in> set ql. fmlookup (qubit_to_locations st) q = Some l"
    and l: "fmlookup (qubit_to_locations st) p = Some l" using Cons.prems(1,2) by (auto simp: x)
  have zone: "in_zone st zid p \<longleftrightarrow> loc_zone_id l = zid" using l by (simp add: in_zone_def)
  have partner: "occupant_partner a st p = Option.bind (get_cz_partner a l) (get_qubit st)"
    using l by (simp add: occupant_partner_def)
  note rest = Cons.IH[OF tail]
  let ?K = "fst ` set ql"
  have new: "p \<notin> ?K" and K: "fst ` set (x # ql) = insert p ?K" using later by (auto simp: x)
  show ?case
  proof (cases "p \<in> visited \<or> loc_zone_id l \<noteq> zid")
    case True
    then obtain V where V: "pairing_loop a st zid ql V = (cs, ts, us)" "V = visited \<or> V = insert p visited"
      using Cons.prems(3) by (auto simp: x split: if_splits)
    have "q \<in> fst ` set (x # ql) \<and> q \<notin> visited \<and> in_zone st zid q \<longleftrightarrow> q \<in> ?K \<and> q \<notin> V \<and> in_zone st zid q" for q
      using True zone new V(2) unfolding K by blast
    then have "q \<in> fst ` set (x # ql) \<and> q \<notin> visited \<and> in_zone st zid q \<and> Q \<longleftrightarrow> q \<in> ?K \<and> q \<notin> V \<and> in_zone st zid q \<and> Q" for q Q
      by blast
    then show ?thesis using rest[OF V(1)] by presburger
  next
    case False
    then have p: "p \<notin> visited" "in_zone st zid p" using zone by auto
    show ?thesis
    proof (cases "occupant_partner a st p")
      case None
      obtain us' where us: "us = p # us'" "pairing_loop a st zid ql (insert p visited) = (cs, ts, us')"
        using Cons.prems(3) False None partner by (auto simp: x split: prod.splits)
      note r = rest[OF us(2)]
      have sub: "set cs \<subseteq> ?K" "set us' \<subseteq> ?K" using r by blast+
      then have above: "p < c" if "c \<in> set cs \<or> c \<in> set us'" for c using that later by blast
      then have free: "\<not> (\<exists>c \<in> set cs. c < p \<and> occupant_partner a st c = Some p)" by (meson less_asym)
      have mem: "q \<in> fst ` set (x # ql) \<and> q \<notin> visited \<and> Q \<longleftrightarrow> q \<in> ?K \<and> q \<notin> insert p visited \<and> Q" if "q \<noteq> p" for q Q
        using that unfolding K by blast
      have "q \<in> set cs \<longleftrightarrow> q \<in> fst ` set (x # ql) \<and> q \<notin> visited \<and> in_zone st zid q \<and> occupant_partner a st q \<noteq> None
         \<and> \<not> (\<exists>c \<in> set cs. c < q \<and> occupant_partner a st c = Some q)" for q
      proof (cases "q = p")
        case True
        then show ?thesis using None sub(1) new by auto
      next
        case False
        then show ?thesis using r unfolding mem[OF False] by blast
      qed
      moreover have "q \<in> set us \<longleftrightarrow> q \<in> fst ` set (x # ql) \<and> q \<notin> visited \<and> in_zone st zid q \<and> occupant_partner a st q = None
         \<and> \<not> (\<exists>c \<in> set cs. c < q \<and> occupant_partner a st c = Some q)" for q
      proof (cases "q = p")
        case True
        then show ?thesis using None p free unfolding K us(1) by simp
      next
        case False
        then have "q \<in> set us \<longleftrightarrow> q \<in> set us'" by (simp add: us(1))
        from trans[OF this spec[OF r[THEN conjunct2, THEN conjunct2, THEN conjunct2, THEN conjunct2]]]
        show ?thesis unfolding mem[OF False] .
      qed
      moreover have "sorted_wrt (<) us" using r[THEN conjunct2, THEN conjunct1] above by (simp add: us(1))
      ultimately show ?thesis using r by blast
    next
      case (Some t)
      obtain cs' ts' where cs: "cs = p # cs'" "ts = t # ts'"
          "pairing_loop a st zid ql (insert t (insert p visited)) = (cs', ts', us)"
        using Cons.prems(3) False Some partner by (auto simp: x split: prod.splits)
      note r = rest[OF cs(3)]
      have sub: "set cs' \<subseteq> ?K" "set us \<subseteq> ?K" using r by blast+
      then have above: "p < c" if "c \<in> set cs'" for c using that later by blast
      then have free: "\<not> (\<exists>c \<in> set cs. c < p \<and> occupant_partner a st c = Some p)" unfolding cs(1) by (auto dest: less_asym)
      have taken: "(\<exists>c \<in> set cs. c < q \<and> occupant_partner a st c = Some q)
          \<longleftrightarrow> q = t \<or> (\<exists>c \<in> set cs'. c < q \<and> occupant_partner a st c = Some q)" if "q \<in> ?K" for q
        using later[OF that] Some unfolding cs(1) by auto
      have "q \<in> set cs \<longleftrightarrow> q \<in> fst ` set (x # ql) \<and> q \<notin> visited \<and> in_zone st zid q \<and> occupant_partner a st q \<noteq> None
         \<and> \<not> (\<exists>c \<in> set cs. c < q \<and> occupant_partner a st c = Some q)" for q
      proof (cases "q = p")
        case True
        then show ?thesis using Some p free unfolding K by (simp add: cs(1))
      next
        case False
        have "q \<in> set cs \<longleftrightarrow> q \<in> set cs'" using False by (simp add: cs(1))
        then show ?thesis using r taken[of q] False unfolding K by blast
      qed
      moreover have "q \<in> set us \<longleftrightarrow> q \<in> fst ` set (x # ql) \<and> q \<notin> visited \<and> in_zone st zid q \<and> occupant_partner a st q = None
         \<and> \<not> (\<exists>c \<in> set cs. c < q \<and> occupant_partner a st c = Some q)" for q
      proof (cases "q = p")
        case True
        then show ?thesis using Some sub(2) new by auto
      next
        case False
        then show ?thesis using r taken[of q] unfolding K by blast
      qed
      moreover have "sorted_wrt (<) cs" using r[THEN conjunct1] above by (simp add: cs(1))
      moreover have "list_all2 (\<lambda>c t. occupant_partner a st c = Some t) cs ts"
        using r[THEN conjunct2, THEN conjunct2, THEN conjunct1] Some by (simp add: cs(1,2))
      ultimately show ?thesis using r[THEN conjunct2, THEN conjunct1] by blast
    qed
  qed
qed simp

lemma map_entries_sorted: "sorted_wrt (<) (map fst (map_entries m))"
  by (simp add: map_entries_def comp_def sorted_list_of_fset.rep_eq strict_sorted_iff)

text \<open>C32. Pairing for any entangling pairs, also those that share a word: controls and unpaired qubits
  are listed in increasing order, each control with the atom at its partner location, and a qubit
  of the zone is a control or unpaired, according to whether there is such an atom, exactly when
  no earlier control has taken it as its target.  So a qubit without a partner is in both lists,
  targets and unpaired, when a later control takes it.\<close>
theorem get_qubit_pairing_greedy:
  "case get_qubit_pairing st z a of None \<Rightarrow> zone_by_id a (za_zone_id z) = None
   | Some (cs, ts, us) \<Rightarrow> zone_by_id a (za_zone_id z) \<noteq> None
     \<and> sorted_wrt (<) cs \<and> sorted_wrt (<) us \<and> list_all2 (\<lambda>c t. occupant_partner a st c = Some t) cs ts
     \<and> (\<forall>q. q \<in> set cs \<longleftrightarrow> in_zone st (za_zone_id z) q \<and> occupant_partner a st q \<noteq> None
          \<and> \<not> (\<exists>c \<in> set cs. c < q \<and> occupant_partner a st c = Some q))
     \<and> (\<forall>q. q \<in> set us \<longleftrightarrow> in_zone st (za_zone_id z) q \<and> occupant_partner a st q = None
          \<and> \<not> (\<exists>c \<in> set cs. c < q \<and> occupant_partner a st c = Some q))"
proof (cases "zone_by_id a (za_zone_id z)")
  case (Some zn)
  obtain cs ts us where r: "pairing_loop a st (za_zone_id z) (map_entries (qubit_to_locations st)) {} = (cs, ts, us)"
    by (metis prod_cases3)
  have dom: "q \<in> fst ` set (map_entries (qubit_to_locations st)) \<and> q \<notin> {} \<and> in_zone st (za_zone_id z) q \<and> Q
      \<longleftrightarrow> in_zone st (za_zone_id z) q \<and> Q" for q Q
    unfolding fst_map_entries by (auto simp: in_zone_def fmlookup_dom'_iff)
  have entry: "\<forall>(q, l) \<in> set (map_entries (qubit_to_locations st)). fmlookup (qubit_to_locations st) q = Some l"
    by (auto simp: set_map_entries)
  have eq: "get_qubit_pairing st z a = Some (cs, ts, us)" unfolding get_qubit_pairing_def Some r by simp
  have zone: "zone_by_id a (za_zone_id z) \<noteq> None" using Some by simp
  show ?thesis unfolding eq option.case prod.case
    by (rule conjI[OF zone pairing_loop_greedy[OF map_entries_sorted entry r, unfolded dom]])
qed (simp add: get_qubit_pairing_def)

text \<open>A zone whose pairs chain three words, which validation accepts.\<close>
definition chain_arch :: arch_spec where
  "chain_arch = \<lparr>arch_version = \<lparr>major = 2, minor = 0\<rparr>, words = replicate 3 \<lparr>sites = [(0, 0)]\<rparr>,
     zones = [\<lparr>zone_name = '''', zone_grid = \<lparr>x_start = F64 0, y_start = F64 0, x_spacing = [], y_spacing = []\<rparr>,
       site_buses = [], word_buses = [], words_with_site_buses = [], sites_with_word_buses = [],
       entangling_pairs = [(0, 1), (1, 2)]\<rparr>], zone_buses = [], modes = [],
     paths = None, feed_forward = False, atom_reloading = False, blockade_radius = None\<rparr>"

definition chain_state :: atom_state where
  "chain_state = from_locations [(0, \<lparr>loc_zone_id = 0, loc_word_id = 1, loc_site_id = 0\<rparr>),
     (1, \<lparr>loc_zone_id = 0, loc_word_id = 2, loc_site_id = 0\<rparr>)]"

lemma chain_validates: "validate chain_arch = Returned (Inr ())"
  by code_simp

theorem get_qubit_pairing_greedy_witness:
  "\<exists>cs ts us. get_qubit_pairing chain_state \<lparr>za_zone_id = 0\<rparr> chain_arch = Some (cs, ts, us) \<and> 0 \<in> set us \<and> 0 \<in> set ts"
proof -
  have zone: "zone_by_id chain_arch 0 \<noteq> None" by (simp add: zone_by_id_def chain_arch_def list_get_def)
  have at: "fmlookup (qubit_to_locations chain_state) q =
      (if q = 0 then Some \<lparr>loc_zone_id = 0, loc_word_id = 1, loc_site_id = 0\<rparr>
       else if q = 1 then Some \<lparr>loc_zone_id = 0, loc_word_id = 2, loc_site_id = 0\<rparr> else None)" for q
    by (simp add: chain_state_def from_locations_def)
  have partner: "occupant_partner chain_arch chain_state 0 = None" "occupant_partner chain_arch chain_state 1 = Some 0"
    "in_zone chain_state 0 0" "in_zone chain_state 0 1"
    by (simp_all add: occupant_partner_def in_zone_def at zone_by_id_def chain_arch_def list_get_def get_cz_partner_def
        get_qubit_def chain_state_def from_locations_def)
  obtain zn where zn: "zone_by_id chain_arch 0 = Some zn" using zone by blast
  obtain cs ts us where "pairing_loop chain_arch chain_state 0 (map_entries (qubit_to_locations chain_state)) {} = (cs, ts, us)"
    by (metis prod_cases3)
  then have r: "get_qubit_pairing chain_state \<lparr>za_zone_id = 0\<rparr> chain_arch = Some (cs, ts, us)"
    by (simp add: get_qubit_pairing_def zn)
  note g0 = get_qubit_pairing_greedy[where st = chain_state and z = "\<lparr>za_zone_id = 0\<rparr>" and a = chain_arch, unfolded r option.case prod.case zone_addr.simps,
      THEN conjunct2, THEN conjunct2, THEN conjunct2]
  note g = g0[THEN conjunct1] g0[THEN conjunct2, THEN conjunct1, THEN spec] g0[THEN conjunct2, THEN conjunct2, THEN spec]
  have none: "c \<notin> set cs" if "c < 1" for c using that g(2)[of c] partner(1) by simp
  have "1 \<in> set cs" unfolding g(2)[of 1] using partner none by auto
  then obtain i where i: "i < length cs" "cs ! i = 1" by (metis in_set_conv_nth)
  then have "occupant_partner chain_arch chain_state 1 = Some (ts ! i)" "i < length ts"
    using g(1) by (auto simp: list_all2_conv_all_nth)
  then have "0 \<in> set ts" using partner(2) nth_mem by fastforce
  moreover have "0 \<in> set us" unfolding g(3)[of 0] using partner by simp
  ultimately show ?thesis using r by blast
qed

end
