(* ===== verification/Joint_Moves.thy ===== *)
theory Joint_Moves
  imports Goals Aod_Grid Atom_State
begin

text \<open>
  Lanes that move together.  A move set stands for one shot of the machine: all its lanes move at
  once.  The search computes the configuration after it, and \<open>AtomState\<close> of the core crate applies
  the lanes one after the other.  This theory states what a move set must satisfy for the two to
  agree, and what follows for a sequence of move sets.
\<close>

section \<open>Orderly buses\<close>

lemma ucast_u16_u32: "(ucast (ucast x :: u32) :: u16) = x" for x :: u16
  by (rule ucast_up_ucast_id) (simp add: is_up)

text \<open>The documentation of architectures asks that a bus names no place twice and that its sources
  and destinations are disjoint; validation does not check either.\<close>
definition orderly_bus :: "'k list \<Rightarrow> 'k list \<Rightarrow> bool" where
  "orderly_bus srcs dsts \<longleftrightarrow> distinct srcs \<and> distinct dsts \<and> list_all (\<lambda>d. d \<notin> set srcs) dsts"

definition orderly_buses :: "arch_spec \<Rightarrow> bool" where
  "orderly_buses a \<longleftrightarrow> list_all (\<lambda>z.
      list_all (\<lambda>b. orderly_bus (map site_ref_index (bus_src b)) (map site_ref_index (bus_dst b))) (site_buses z)
      \<and> list_all (\<lambda>b. orderly_bus (map word_ref_index (bus_src b)) (map word_ref_index (bus_dst b))) (word_buses z))
    (zones a)"

lemma list_get_set: "list_get xs i = Some x \<Longrightarrow> x \<in> set xs"
  by (auto simp: list_get_def split: if_splits)

context transport_bus
begin

lemma orderly_fwd:
  assumes "orderly_bus (srcs b) (dsts b)" "fwd b k = Some d" "fwd b k' = Some d'"
  shows "(d = d' \<longrightarrow> k = k') \<and> k \<noteq> d'"
  using assms fwd_inj[of b k d k'] fwd_in[of b k d] fwd_in[of b k' d']
  by (auto simp: orderly_bus_def list_all_iff)

end

definition lane_src :: "arch_spec \<Rightarrow> lane_addr \<Rightarrow> location_addr" where
  "lane_src a l = fst (the (lane_endpoints a l))"

definition lane_dst :: "arch_spec \<Rightarrow> lane_addr \<Rightarrow> location_addr" where
  "lane_dst a l = snd (the (lane_endpoints a l))"

lemma lane_ends_eq: "lane_endpoints a l = Some (s, d) \<Longrightarrow> lane_src a l = s \<and> lane_dst a l = d"
  by (simp add: lane_src_def lane_dst_def)

definition bus_mates :: "lane_addr \<Rightarrow> lane_addr \<Rightarrow> bool" where
  "bus_mates l l' \<longleftrightarrow> lane_move_type l \<noteq> ZoneBus \<and> lane_move_type l = lane_move_type l'
     \<and> lane_bus_id l = lane_bus_id l' \<and> lane_direction l = lane_direction l'"

text \<open>The forward ends of two lanes of one bus: the far end tells them apart, and neither starts
  where the other leads.\<close>
lemma orderly_forward:
  assumes "orderly_buses a" "arch_fits a" "bus_mates l l'" "lane_valid a l" "lane_valid a l'"
    "lane_forward_dst a (zones a ! unat (lane_zone_id l)) l = Some f"
    "lane_forward_dst a (zones a ! unat (lane_zone_id l')) l' = Some f'"
  shows "(f = f' \<longrightarrow> l = l') \<and> (lane_origin l = lane_origin l' \<longrightarrow> l = l') \<and> lane_origin l \<noteq> f'"
proof -
  let ?z = "\<lambda>l. zones a ! unat (lane_zone_id l)"
  have same: "l = l'" if "lane_origin l = lane_origin l'"
    using assms(3) that by (cases l; cases l') (simp add: bus_mates_def lane_origin_def)
  have z: "?z l \<in> set (zones a)"
    using lane_valid_zone[OF assms(4)] by (auto simp: zone_by_id_def dest: list_get_set)
  have fit: "lane_word_id l < 65536" "lane_site_id l < 65536" "lane_word_id l' < 65536" "lane_site_id l' < 65536"
    using lane_valid_fits[OF assms(2,4)] lane_valid_fits[OF assms(2,5)] by (simp_all add: lane_fits_def)
  have low: "x = y" if "(ucast x :: u16) = ucast y" "x < 65536" "y < 65536" for x y :: u32
    using that by (metis ucast_u16_back)
  have up: "(ucast x :: u32) = ucast y \<longleftrightarrow> x = y" for x y :: u16
    by (metis ucast_u16_u32)
  have down: "(ucast (ucast x :: u32) :: u16) = x" for x :: u16 by (rule ucast_u16_u32)
  show ?thesis
  proof (cases "lane_move_type l")
    case SiteBus
    then obtain b d b' d' where b: "list_get (site_buses (?z l)) (unat (lane_bus_id l)) = Some b"
        "site_resolve_forward b (ucast (lane_site_id l)) = Some d" "f = (lane_origin l)\<lparr>loc_site_id := ucast d\<rparr>"
      and b': "list_get (site_buses (?z l')) (unat (lane_bus_id l)) = Some b'"
        "site_resolve_forward b' (ucast (lane_site_id l')) = Some d'" "f' = (lane_origin l')\<lparr>loc_site_id := ucast d'\<rparr>"
      using assms(3,6,7) by (auto simp: lane_forward_dst_def bus_mates_def bind_eq_Some_conv)
    have "orderly_bus (map site_ref_index (bus_src b)) (map site_ref_index (bus_dst b))"
      using assms(1) z list_get_set[OF b(1)] by (auto simp: orderly_buses_def list_all_iff)
    note ord = sb.orderly_fwd[OF this b(2)]
    have "b' = b" if "lane_zone_id l = lane_zone_id l'" using b(1) b'(1) that by simp
    then show ?thesis
      using ord[of "ucast (lane_site_id l')" d'] b'(2) same low[OF _ fit(2,4)]
      by (auto simp: b(3) b'(3) lane_origin_def up down)
  next
    case WordBus
    then obtain b d b' d' where b: "list_get (word_buses (?z l)) (unat (lane_bus_id l)) = Some b"
        "word_resolve_forward b (ucast (lane_word_id l)) = Some d" "f = (lane_origin l)\<lparr>loc_word_id := ucast d\<rparr>"
      and b': "list_get (word_buses (?z l')) (unat (lane_bus_id l)) = Some b'"
        "word_resolve_forward b' (ucast (lane_word_id l')) = Some d'" "f' = (lane_origin l')\<lparr>loc_word_id := ucast d'\<rparr>"
      using assms(3,6,7) by (auto simp: lane_forward_dst_def bus_mates_def bind_eq_Some_conv)
    have "orderly_bus (map word_ref_index (bus_src b)) (map word_ref_index (bus_dst b))"
      using assms(1) z list_get_set[OF b(1)] by (auto simp: orderly_buses_def list_all_iff)
    note ord = wb.orderly_fwd[OF this b(2)]
    have "b' = b" if "lane_zone_id l = lane_zone_id l'" using b(1) b'(1) that by simp
    then show ?thesis
      using ord[of "ucast (lane_word_id l')" d'] b'(2) same low[OF _ fit(1,3)]
      by (auto simp: b(3) b'(3) lane_origin_def up down)
  qed (use assms(3) in \<open>simp add: bus_mates_def\<close>)
qed

text \<open>The same for the ends of the lanes, whatever their direction.\<close>
lemma orderly_lanes:
  assumes "orderly_buses a" "arch_fits a" "bus_mates l l'"
    "lane_endpoints a l \<noteq> None" "lane_endpoints a l' \<noteq> None"
  shows "(lane_dst a l = lane_dst a l' \<longrightarrow> l = l') \<and> (lane_src a l = lane_src a l' \<longrightarrow> l = l') \<and> lane_src a l \<noteq> lane_dst a l'"
proof -
  obtain s d s' d' where e: "lane_endpoints a l = Some (s, d)" "lane_endpoints a l' = Some (s', d')"
    using assms(4,5) by auto
  have mates: "bus_mates l' l" "lane_direction l = lane_direction l'" using assms(3) by (auto simp: bus_mates_def)
  obtain f f' where f: "lane_valid a l" "lane_forward_dst a (zones a ! unat (lane_zone_id l)) l = Some f"
      "(s, d) = (case lane_direction l of Forward \<Rightarrow> (lane_origin l, f) | Backward \<Rightarrow> (f, lane_origin l))"
      "lane_valid a l'" "lane_forward_dst a (zones a ! unat (lane_zone_id l')) l' = Some f'"
      "(s', d') = (case lane_direction l' of Forward \<Rightarrow> (lane_origin l', f') | Backward \<Rightarrow> (f', lane_origin l'))"
    using e unfolding lane_endpoints_Some_iff by blast
  show ?thesis
    using orderly_forward[OF assms(1,2,3) f(1,4,2,5)] orderly_forward[OF assms(1,2) mates(1) f(4,1,5,2)]
      f(3,6) mates(2) lane_ends_eq[OF e(1)] lane_ends_eq[OF e(2)]
    by (cases "lane_direction l") auto
qed

section \<open>One shot\<close>

text \<open>Where a shot of lanes brings what is at a place.\<close>
definition carry :: "arch_spec \<Rightarrow> lane_addr list \<Rightarrow> location_addr \<Rightarrow> location_addr" where
  "carry a ls loc = (case map_of (map (\<lambda>l. (lane_src a l, lane_dst a l)) ls) loc of Some d \<Rightarrow> d | None \<Rightarrow> loc)"

lemma carry_Cons: "carry a (l # ls) loc = (if loc = lane_src a l then lane_dst a l else carry a ls loc)"
  by (simp add: carry_def)

lemma carry_idle: "loc \<notin> lane_src a ` set ls \<Longrightarrow> carry a ls loc = loc"
  by (auto simp: carry_def dest!: map_of_SomeD split: option.split)

lemma carry_moved:
  assumes "inj_on (lane_src a) (set ls)" "l \<in> set ls"
  shows "carry a ls (lane_src a l) = lane_dst a l"
proof -
  have "map_of (map (\<lambda>l. (lane_src a l, lane_dst a l)) ls) (lane_src a l) \<noteq> None"
    using assms(2) by (simp add: map_of_eq_None_iff image_image)
  then obtain d where d: "map_of (map (\<lambda>l. (lane_src a l, lane_dst a l)) ls) (lane_src a l) = Some d" by blast
  from map_of_SomeD[OF this] obtain l' where "l' \<in> set ls" "lane_src a l' = lane_src a l" "d = lane_dst a l'" by auto
  with inj_onD[OF assms(1), of l' l] assms(2) d show ?thesis by (simp add: carry_def)
qed

text \<open>A shot that can be applied lane by lane in any order.\<close>
definition independent_lanes :: "arch_spec \<Rightarrow> lane_addr list \<Rightarrow> bool" where
  "independent_lanes a ls \<longleftrightarrow> (\<forall>l \<in> set ls. lane_endpoints a l \<noteq> None)
     \<and> distinct (map (lane_src a) ls) \<and> distinct (map (lane_dst a) ls)
     \<and> lane_src a ` set ls \<inter> lane_dst a ` set ls = {}"

lemma move_atom_free:
  assumes step: "in_step (locations_to_qubit st) (qubit_to_locations st)"
    and free: "fmlookup (locations_to_qubit st) d = None" and "s \<noteq> d"
  shows "collision (move_atom l s d st) = collision st
    \<and> (\<forall>q. fmlookup (qubit_to_locations (move_atom l s d st)) q
          = map_option (\<lambda>x. if x = s then d else x) (fmlookup (qubit_to_locations st) q))
    \<and> (\<forall>x. x \<noteq> d \<longrightarrow> fmlookup (locations_to_qubit st) x = None \<longrightarrow>
          fmlookup (locations_to_qubit (move_atom l s d st)) x = None)"
proof (cases rule: move_atom_cases[of st s l d])
  case idle
  then have "fmlookup (qubit_to_locations st) q \<noteq> Some s" for q by (simp add: in_stepD[OF step])
  then have "map_option (\<lambda>x. if x = s then d else x) (fmlookup (qubit_to_locations st) q) = fmlookup (qubit_to_locations st) q" for q
    by (cases "fmlookup (qubit_to_locations st) q") auto
  then show ?thesis using idle(2) by simp
next
  case (collide q r)
  then show ?thesis using free by simp
next
  case (move q)
  have at: "fmlookup (qubit_to_locations st) q = Some s" using move(1) by (simp add: in_stepD[OF step])
  have "map_option (\<lambda>x. if x = s then d else x) (fmlookup (qubit_to_locations st) r) = fmlookup (qubit_to_locations st) r"
    if "r \<noteq> q" for r
  proof -
    have "fmlookup (qubit_to_locations st) r \<noteq> Some s" using move(1) that by (simp add: in_stepD[OF step])
    then show ?thesis by (cases "fmlookup (qubit_to_locations st) r") auto
  qed
  then show ?thesis unfolding move(3,4,5) using at by simp
qed

lemma apply_lanes_joint:
  assumes "independent_lanes a ls" "in_step (locations_to_qubit st) (qubit_to_locations st)"
    "\<forall>l \<in> set ls. fmlookup (locations_to_qubit st) (lane_dst a l) = None"
  shows "\<exists>st'. apply_lanes (lane_endpoints a) ls st = Some st'
    \<and> in_step (locations_to_qubit st') (qubit_to_locations st') \<and> collision st' = collision st
    \<and> (\<forall>q. fmlookup (qubit_to_locations st') q = map_option (carry a ls) (fmlookup (qubit_to_locations st) q))"
  using assms
proof (induction ls arbitrary: st)
  case Nil
  have "carry a [] = (\<lambda>loc. loc)" by (simp add: carry_def fun_eq_iff)
  then show ?case using Nil by (simp add: option.map_ident)
next
  case (Cons l ls)
  obtain s d where e: "lane_endpoints a l = Some (s, d)" using Cons.prems(1) by (auto simp: independent_lanes_def)
  then have sd: "lane_src a l = s" "lane_dst a l = d" using lane_ends_eq by blast+
  have ind: "independent_lanes a ls" using Cons.prems(1) by (auto simp: independent_lanes_def)
  have out: "s \<notin> lane_src a ` set ls" "d \<notin> lane_src a ` set ls" "d \<notin> lane_dst a ` set ls" "s \<noteq> d"
    using Cons.prems(1) sd by (auto simp: independent_lanes_def)
  let ?st = "move_atom l s d st"
  have free: "fmlookup (locations_to_qubit st) d = None" using Cons.prems(3) sd by auto
  have step: "in_step (locations_to_qubit ?st) (qubit_to_locations ?st)"
    by (rule move_atom_in_step[OF Cons.prems(2)])
  have st: "collision ?st = collision st"
      "\<forall>q. fmlookup (qubit_to_locations ?st) q = map_option (\<lambda>x. if x = s then d else x) (fmlookup (qubit_to_locations st) q)"
      "\<forall>x. x \<noteq> d \<longrightarrow> fmlookup (locations_to_qubit st) x = None \<longrightarrow> fmlookup (locations_to_qubit ?st) x = None"
    using move_atom_free[OF Cons.prems(2) free out(4)] by blast+
  have "\<forall>m \<in> set ls. fmlookup (locations_to_qubit ?st) (lane_dst a m) = None"
    using st(3) Cons.prems(3) out(3) by fastforce
  from Cons.IH[OF ind step this] obtain st' where st': "apply_lanes (lane_endpoints a) ls ?st = Some st'"
      "in_step (locations_to_qubit st') (qubit_to_locations st')" "collision st' = collision ?st"
      "\<forall>q. fmlookup (qubit_to_locations st') q = map_option (carry a ls) (fmlookup (qubit_to_locations ?st) q)"
    by blast
  have "carry a (l # ls) x = carry a ls (if x = s then d else x)" for x
    using carry_idle[OF out(2)] by (simp add: carry_Cons sd)
  then have "carry a (l # ls) = carry a ls \<circ> (\<lambda>x. if x = s then d else x)" by (simp add: fun_eq_iff)
  then show ?case using st' st(1,2) e by (simp add: option.map_comp comp_def)
qed

section \<open>Configurations\<close>

text \<open>No two atoms share a place and none is at a blocked one.\<close>
definition clear_config :: "u64 set \<Rightarrow> config \<Rightarrow> bool" where
  "clear_config blocked c \<longleftrightarrow> config_wf c \<and> encoded_config c \<and> apart c \<and> snd ` set (entries c) \<inter> blocked = {}"

text \<open>The places that are taken: \<open>occupied\<close> in the code of every generator.\<close>
definition taken_places :: "u64 set \<Rightarrow> config \<Rightarrow> u64 set" where
  "taken_places blocked c = blocked \<union> {location_encode l | q l. location_of c q = Some l}"

lemma location_of_fits: "location_of c q = Some l \<Longrightarrow> loc_fits l"
  by (auto simp: location_of_def location_decode_fits)

lemma location_encode_inj: "loc_fits l \<Longrightarrow> loc_fits m \<Longrightarrow> location_encode l = location_encode m \<Longrightarrow> l = m"
  using location_encode_faithful by blast

lemma location_of_entry:
  assumes "config_wf c" "encoded_config c"
  shows "location_of c q = Some l \<longleftrightarrow> loc_fits l \<and> (q, location_encode l) \<in> set (entries c)"
proof -
  have "location_of c q = Some l \<longleftrightarrow> loc_fits l \<and> place c q = Some (location_encode l)"
    using location_of_fits[of c q] location_encode_inj by (auto simp: place_def)
  then show ?thesis by (simp add: place_entry[OF assms])
qed

lemma entry_location:
  assumes "config_wf c" "encoded_config c" "(q, e) \<in> set (entries c)"
  shows "location_of c q = Some (location_decode e) \<and> location_encode (location_decode e) = e"
proof -
  have "location_encode (location_decode e) = e" using assms(2,3) by (auto simp: encoded_config_def)
  then show ?thesis using assms(3) by (simp add: location_of_entry[OF assms(1,2)] location_decode_fits)
qed

lemma clear_config_iff:
  assumes "config_wf c" "encoded_config c"
  shows "clear_config blocked c \<longleftrightarrow>
    (\<forall>q r l. location_of c q = Some l \<longrightarrow> location_of c r = Some l \<longrightarrow> q = r)
    \<and> (\<forall>q l. location_of c q = Some l \<longrightarrow> location_encode l \<notin> blocked)"
proof -
  have ap: "apart c \<longleftrightarrow> (\<forall>q r e. (q, e) \<in> set (entries c) \<longrightarrow> (r, e) \<in> set (entries c) \<longrightarrow> q = r)"
  proof
    assume r: "\<forall>q r e. (q, e) \<in> set (entries c) \<longrightarrow> (r, e) \<in> set (entries c) \<longrightarrow> q = r"
    have "distinct (entries c)" using assms(1) by (simp add: config_wf_def distinct_map)
    moreover have "inj_on snd (set (entries c))" using r by (auto intro!: inj_onI)
    ultimately show "apart c" by (simp add: apart_def distinct_map)
  qed (blast dest: apart_inj)
  show ?thesis
    using assms entry_location[OF assms]
    by (auto simp: clear_config_def ap location_of_entry[OF assms] disjoint_iff) (metis option.inject location_decode_fits)+
qed

text \<open>A shot that the configuration allows: lanes of one bus, none of which picks up a blocked atom,
  and no atom stays at a place that a lane leads to.\<close>
definition clear_group :: "arch_spec \<Rightarrow> u64 set \<Rightarrow> config \<Rightarrow> lane_addr list \<Rightarrow> bool" where
  "clear_group a blocked c ls \<longleftrightarrow> ls \<noteq> [] \<and> distinct ls
     \<and> (\<forall>l \<in> set ls. lane_endpoints a l \<noteq> None \<and> (\<forall>l' \<in> set ls. bus_mates l l'))
     \<and> (\<forall>l \<in> set ls. location_encode (lane_src a l) \<notin> blocked
          \<and> (location_encode (lane_dst a l) \<in> taken_places blocked c \<longrightarrow>
               location_encode (lane_dst a l) \<in> (\<lambda>m. location_encode (lane_src a m)) ` set ls))"

lemma clear_groupD:
  assumes "clear_group a blocked c ls" "l \<in> set ls"
  shows "lane_endpoints a l \<noteq> None" "lane_move_type l \<noteq> ZoneBus" "l' \<in> set ls \<Longrightarrow> bus_mates l l'"
    "location_encode (lane_src a l) \<notin> blocked"
    "location_encode (lane_dst a l) \<in> taken_places blocked c \<Longrightarrow>
       location_encode (lane_dst a l) \<in> (\<lambda>m. location_encode (lane_src a m)) ` set ls"
proof -
  have all: "\<forall>l \<in> set ls. lane_endpoints a l \<noteq> None \<and> (\<forall>l' \<in> set ls. bus_mates l l')"
    "\<forall>l \<in> set ls. location_encode (lane_src a l) \<notin> blocked
          \<and> (location_encode (lane_dst a l) \<in> taken_places blocked c \<longrightarrow>
               location_encode (lane_dst a l) \<in> (\<lambda>m. location_encode (lane_src a m)) ` set ls)"
    using assms(1) unfolding clear_group_def by blast+
  note l = bspec[OF all(1) assms(2)] bspec[OF all(2) assms(2)]
  show "lane_endpoints a l \<noteq> None" using l(1) by (rule conjunct1)
  show mate: "bus_mates l l'" if "l' \<in> set ls" for l' using l(1) that by (metis)
  show "lane_move_type l \<noteq> ZoneBus" using mate[OF assms(2)] unfolding bus_mates_def by (rule conjunct1)
  show "location_encode (lane_src a l) \<notin> blocked" using l(2) by (rule conjunct1)
  show "location_encode (lane_dst a l) \<in> taken_places blocked c \<Longrightarrow>
       location_encode (lane_dst a l) \<in> (\<lambda>m. location_encode (lane_src a m)) ` set ls"
    using l(2) by (metis)
qed

lemma lane_ends_fit:
  assumes "arch_fits a" "lane_endpoints a l \<noteq> None" "lane_move_type l \<noteq> ZoneBus"
  shows "loc_fits (lane_src a l) \<and> loc_fits (lane_dst a l)"
proof -
  obtain s d where e: "lane_endpoints a l = Some (s, d)" using assms(2) by auto
  show ?thesis using endpoints_fit[OF assms(1) e assms(3)] lane_ends_eq[OF e] by simp
qed

text \<open>On orderly buses such a shot is independent and all its destinations are free.\<close>
lemma clear_group_independent:
  assumes "arch_fits a" "orderly_buses a" "clear_group a blocked c ls"
  shows "independent_lanes a ls \<and> (\<forall>l \<in> set ls. location_encode (lane_dst a l) \<notin> taken_places blocked c)"
proof -
  have ends: "lane_endpoints a l \<noteq> None" "lane_move_type l \<noteq> ZoneBus" if "l \<in> set ls" for l
    using clear_groupD[OF assms(3) that] by blast+
  note fits = lane_ends_fit[OF assms(1) ends]
  have tell: "(lane_dst a l = lane_dst a m \<longrightarrow> l = m) \<and> (lane_src a l = lane_src a m \<longrightarrow> l = m) \<and> lane_src a l \<noteq> lane_dst a m"
    if "l \<in> set ls" "m \<in> set ls" for l m
    using orderly_lanes[OF assms(2,1) clear_groupD(3)[OF assms(3) that(1,2)]] ends that by blast
  have "location_encode (lane_dst a l) \<noteq> location_encode (lane_src a m)" if "l \<in> set ls" "m \<in> set ls" for l m
    using tell[OF that(2,1)] location_encode_inj[of "lane_dst a l" "lane_src a m"] fits that by auto
  then have "\<forall>l \<in> set ls. location_encode (lane_dst a l) \<notin> taken_places blocked c"
    using clear_groupD(5)[OF assms(3)] by fastforce
  moreover have "inj_on (lane_src a) (set ls)" "inj_on (lane_dst a) (set ls)"
    using tell by (meson inj_onI)+
  moreover have "distinct ls" using assms(3) by (simp add: clear_group_def)
  moreover have "lane_src a ` set ls \<inter> lane_dst a ` set ls = {}"
    using tell by (metis (no_types, lifting) disjoint_iff imageE)
  ultimately show ?thesis
    using ends(1) by (simp only: independent_lanes_def distinct_map) blast
qed

section \<open>Offered shots\<close>

definition shot_to :: "arch_spec \<Rightarrow> lane_addr list \<Rightarrow> config \<Rightarrow> config \<Rightarrow> bool" where
  "shot_to a ls c c' \<longleftrightarrow> config_wf c' \<and> encoded_config c'
     \<and> (\<forall>q. location_of c' q = map_option (carry a ls) (location_of c q))"

text \<open>What is expected of a candidate: its move set is a shot the configuration allows, and its
  configuration is the one after the shot.\<close>
definition sound_shot :: "arch_spec \<Rightarrow> u64 set \<Rightarrow> config \<Rightarrow> move_set \<Rightarrow> config \<Rightarrow> bool" where
  "sound_shot a blocked c ms c' \<longleftrightarrow>
     (\<exists>ls. ms = move_set_new ls \<and> clear_group a blocked c ls \<and> shot_to a ls c c')"

text \<open>The state of the core crate that a configuration describes.\<close>
definition tracks :: "atom_state \<Rightarrow> config \<Rightarrow> bool" where
  "tracks st c \<longleftrightarrow> in_step (locations_to_qubit st) (qubit_to_locations st)
     \<and> (\<forall>q. fmlookup (qubit_to_locations st) q = location_of c q)"

lemma carry_perm:
  assumes "set ds = set ls" "inj_on (lane_src a) (set ls)"
  shows "carry a ds = carry a ls"
proof
  fix loc
  show "carry a ds loc = carry a ls loc"
  proof (cases "loc \<in> lane_src a ` set ls")
    case True
    then show ?thesis using carry_moved[of a ds] carry_moved[of a ls] assms by force
  qed (use assms in \<open>simp add: carry_idle\<close>)
qed

lemma independent_perm:
  assumes "independent_lanes a ls" "set ds = set ls" "distinct ds"
  shows "independent_lanes a ds"
  using assms by (auto simp: independent_lanes_def distinct_map)

lemma shot_keeps_clear:
  assumes "arch_fits a" "orderly_buses a" "clear_config blocked c" "clear_group a blocked c ls" "shot_to a ls c c'"
  shows "clear_config blocked c'"
proof -
  have ind: "independent_lanes a ls" and free: "\<And>l. l \<in> set ls \<Longrightarrow> location_encode (lane_dst a l) \<notin> taken_places blocked c"
    using clear_group_independent[OF assms(1,2,4)] by blast+
  have inj: "inj_on (lane_src a) (set ls)" "inj_on (lane_dst a) (set ls)" using ind by (auto simp: independent_lanes_def distinct_map)
  have wf: "config_wf c" "encoded_config c" "config_wf c'" "encoded_config c'"
    using assms(3,5) by (auto simp: clear_config_def shot_to_def)
  note c = assms(3)[unfolded clear_config_iff[OF wf(1,2)]]
  have to: "location_of c' q = map_option (carry a ls) (location_of c q)" for q using assms(5) by (simp add: shot_to_def)
  have cases: "(\<exists>l \<in> set ls. x = lane_src a l \<and> carry a ls x = lane_dst a l) \<or> x \<notin> lane_src a ` set ls \<and> carry a ls x = x" for x
    using carry_moved[OF inj(1)] carry_idle[of x a ls] by (cases "x \<in> lane_src a ` set ls") auto
  have at: "location_encode x \<in> taken_places blocked c" if "location_of c q = Some x" for q x
    using that by (auto simp: taken_places_def)
  have from_c: "\<exists>x. location_of c q = Some x \<and> y = carry a ls x" if "location_of c' q = Some y" for q y
    using that unfolding to by auto
  have blk: "location_encode y \<notin> blocked" if y: "location_of c' q = Some y" for q y
  proof -
    obtain x where x: "location_of c q = Some x" "y = carry a ls x" using from_c[OF y] by blast
    from cases[of x] show ?thesis
    proof
      assume "\<exists>l \<in> set ls. x = lane_src a l \<and> carry a ls x = lane_dst a l"
      then show ?thesis using free x(2) by (auto simp: taken_places_def)
    qed (use x c in auto)
  qed
  moreover have "q = r" if y: "location_of c' q = Some y" "location_of c' r = Some y" for q r y
  proof -
    obtain x x' where x: "location_of c q = Some x" "y = carry a ls x" "location_of c r = Some x'" "y = carry a ls x'"
      using from_c[OF y(1)] from_c[OF y(2)] by blast
    have "x = x'" using cases[of x] cases[of x'] x inj_onD[OF inj(2)] free at by metis
    then show ?thesis using c x(1,3) by blast
  qed
  ultimately show ?thesis unfolding clear_config_iff[OF wf(3,4)] by blast
qed

text \<open>Applying the decoded lanes one by one does what the search computed, without a collision.\<close>
lemma shot_applies:
  assumes "arch_fits a" "orderly_buses a" "clear_group a blocked c ls" "shot_to a ls c c'" "tracks st c"
  shows "\<exists>ds st'. move_set_decode (move_set_new ls) = Returned ds \<and> apply_moves st ds a = Some st'
    \<and> tracks st' c' \<and> collision st' = collision st"
proof -
  have ind: "independent_lanes a ls" and free: "\<And>l. l \<in> set ls \<Longrightarrow> location_encode (lane_dst a l) \<notin> taken_places blocked c"
    using clear_group_independent[OF assms(1,2,3)] by blast+
  have norm: "lane_norm l = l" if "l \<in> set ls" for l
  proof -
    have "lane_valid a l" using clear_groupD(1)[OF assms(3) that] lane_endpoints_defined_iff by blast
    then show ?thesis using lane_valid_fits[OF assms(1)] lane_u64_codec.norm_fits by blast
  qed
  obtain ds where ds: "move_set_decode (move_set_new ls) = Returned ds" "set ds = lane_norm ` set ls" "distinct ds"
    using move_set_canonical[of ls ls] by (auto split: outcome.splits)
  have set: "set ds = set ls" using ds(2) norm by force
  let ?st = "st\<lparr>prev_lanes := fmempty\<rparr>"
  have "\<forall>l \<in> set ds. fmlookup (locations_to_qubit ?st) (lane_dst a l) = None"
  proof
    fix l assume "l \<in> set ds"
    then have l: "l \<in> set ls" using set by blast
    have "location_of c q \<noteq> Some (lane_dst a l)" for q using free[OF l] by (auto simp: taken_places_def)
    then have "fmlookup (locations_to_qubit st) (lane_dst a l) \<noteq> Some q" for q
      using assms(5) in_stepD[of "locations_to_qubit st" "qubit_to_locations st" q "lane_dst a l"] by (simp add: tracks_def)
    then show "fmlookup (locations_to_qubit ?st) (lane_dst a l) = None"
      by (cases "fmlookup (locations_to_qubit st) (lane_dst a l)") auto
  qed
  from apply_lanes_joint[OF independent_perm[OF ind set ds(3)] _ this] assms(5)
  obtain st' where st': "apply_lanes (lane_endpoints a) ds ?st = Some st'"
      "in_step (locations_to_qubit st') (qubit_to_locations st')" "collision st' = collision st"
      "\<forall>q. fmlookup (qubit_to_locations st') q = map_option (carry a ds) (fmlookup (qubit_to_locations st) q)"
    by (auto simp: tracks_def)
  have "carry a ds = carry a ls" using carry_perm[OF set] ind by (simp add: independent_lanes_def distinct_map)
  then have "tracks st' c'" using st'(2,4) assms(4,5) by (simp add: tracks_def shot_to_def)
  then show ?thesis using ds(1) st'(1,3) by (auto simp: apply_moves_def)
qed

section \<open>Moves of qubits\<close>

text \<open>The moves a generator gives to \<open>with_moves\<close> are those of a shot when each follows a lane and
  every atom at the start of a lane has one.\<close>
lemma moves_shot:
  assumes "arch_fits a" "orderly_buses a" "clear_config blocked c" "clear_group a blocked c ls"
    and sound: "\<And>q d. (q, d) \<in> set moves \<Longrightarrow> \<exists>l \<in> set ls. location_of c q = Some (lane_src a l) \<and> d = lane_dst a l"
    and complete: "\<And>q l. l \<in> set ls \<Longrightarrow> location_of c q = Some (lane_src a l) \<Longrightarrow> q \<in> fst ` set moves"
  shows "shot_to a ls c (with_moves c moves)"
proof -
  have inj: "inj_on (lane_src a) (set ls)"
    using clear_group_independent[OF assms(1,2,4)] by (auto simp: independent_lanes_def distinct_map)
  have wf: "config_wf c" "encoded_config c" using assms(3) by (auto simp: clear_config_def)
  let ?c = "with_moves c moves"
  have fits: "loc_fits d" if m: "(q, d) \<in> set moves" for q d
  proof -
    obtain l where l: "l \<in> set ls" "d = lane_dst a l" using sound[OF m] by blast
    show ?thesis using lane_ends_fit[OF assms(1) clear_groupD(1,2)[OF assms(4) l(1)]] l(2) by simp
  qed
  have to: "location_of ?c q = map_option (carry a ls) (location_of c q)" for q
  proof (cases "location_of c q")
    case None
    then have "location_of ?c q = None" using with_moves_spec[OF wf(1), of moves] by simp
    then show ?thesis using None by simp
  next
    case (Some x)
    then have new: "location_of ?c q = Some (case map_of (rev moves) q of Some l' \<Rightarrow> loc_norm l' | None \<Rightarrow> x)"
      using with_moves_spec[OF wf(1), of moves] by simp
    show ?thesis
    proof (cases "map_of (rev moves) q")
      case None
      then have "q \<notin> fst ` set moves" by (simp add: map_of_eq_None_iff)
      then have "x \<notin> lane_src a ` set ls" using complete Some by auto
      then show ?thesis using new None Some by (simp add: carry_idle)
    next
      case d: (Some d)
      then have m: "(q, d) \<in> set moves" using map_of_SomeD by fastforce
      from sound[OF m] obtain l where l: "l \<in> set ls" "x = lane_src a l" "d = lane_dst a l" using Some by auto
      have "loc_norm d = d" by (rule loc_codec.norm_fits[OF fits[OF m]])
      then show ?thesis using new d Some carry_moved[OF inj l(1)] l by simp
    qed
  qed
  have wf': "config_wf ?c" by (rule with_moves_wf[OF wf(1)])
  have "location_encode (location_decode e) = e" if "(q, e) \<in> set (entries ?c)" for q e
  proof -
    have "config_map ?c q = Some e" using that wf' by (simp add: config_map_def config_wf_def)
    then consider l where "e = location_encode l" "map_of (rev moves) q = Some l" | "config_map c q = Some e"
      unfolding with_moves_map[OF wf(1)] by (auto split: if_splits option.splits)
    then show ?thesis
    proof cases
      case 1
      then have "loc_fits l" using fits map_of_SomeD by fastforce
      then show ?thesis using 1 by (simp add: location_decode_encode loc_codec.norm_fits)
    next
      case 2
      then have "(q, e) \<in> set (entries c)" by (auto simp: config_map_def dest: map_of_SomeD)
      then show ?thesis using entry_location[OF wf] by blast
    qed
  qed
  then have "encoded_config ?c" by (auto simp: encoded_config_def)
  then show ?thesis using wf' to by (simp add: shot_to_def)
qed

text \<open>One lane to a free place.\<close>
lemma single_shot:
  assumes "arch_fits a" "orderly_buses a" "clear_config blocked c" "location_of c q = Some (lane_src a l)"
    "lane_endpoints a l \<noteq> None" "lane_move_type l \<noteq> ZoneBus" "location_encode (lane_dst a l) \<notin> taken_places blocked c"
  shows "clear_group a blocked c [l] \<and> shot_to a [l] c (with_moves c [(q, lane_dst a l)])"
proof
  have wf: "config_wf c" "encoded_config c" using assms(3) by (auto simp: clear_config_def)
  note c = assms(3)[unfolded clear_config_iff[OF wf]]
  show g: "clear_group a blocked c [l]"
    using assms c by (auto simp: clear_group_def bus_mates_def)
  show "shot_to a [l] c (with_moves c [(q, lane_dst a l)])"
    by (rule moves_shot[OF assms(1-3) g]) (use assms(4) c in auto)
qed

end
