(* ===== verification/Grid_Shots.thy ===== *)
theory Grid_Shots
  imports Joint_Moves
begin

text \<open>
  The grids that \<open>ops/aod_grid.rs\<close> builds for a bus of the lane index are shots of lanes of this bus:
  the tables of the context are those of the lanes, and a rectangle of positions is a set of lanes
  that the configuration allows to move at once.
\<close>

section \<open>The tables of a context\<close>

text \<open>The lanes that enter the tables, with the position of their source.\<close>
definition position_bits :: "f64 \<times> f64 \<Rightarrow> u64 \<times> u64" where
  "position_bits p = (to_bits (fst p), to_bits (snd p))"

definition placed_lane :: "lane_index \<Rightarrow> lane_addr \<Rightarrow> (lane_addr \<times> location_addr \<times> location_addr \<times> (u64 \<times> u64)) option" where
  "placed_lane idx l =
     Option.bind (index_endpoints idx l) (\<lambda>(s, d).
     Option.bind (index_position idx s) (\<lambda>p. Some (l, s, d, position_bits p)))"

definition placed_lanes :: "lane_index \<Rightarrow> lane_addr list \<Rightarrow> (lane_addr \<times> location_addr \<times> location_addr \<times> (u64 \<times> u64)) list" where
  "placed_lanes idx ls = List.map_filter (placed_lane idx) ls"

lemma placed_lanes_snoc:
  "placed_lanes idx (ls @ [l]) = placed_lanes idx ls @ (case placed_lane idx l of None \<Rightarrow> [] | Some x \<Rightarrow> [x])"
  by (simp add: placed_lanes_def List.map_filter_def split: option.split)

lemma add_grid_lane_placed:
  "add_grid_lane idx ctx l = (case placed_lane idx l of None \<Rightarrow> ctx
     | Some (l, s, d, p) \<Rightarrow> ctx\<lparr>gc_pos_to_src := (gc_pos_to_src ctx)(p \<mapsto> location_encode s),
         gc_src_to_lane := (gc_src_to_lane ctx)(location_encode s \<mapsto> lane_encode_u64 l),
         gc_src_to_dst := (gc_src_to_dst ctx)(location_encode s \<mapsto> location_encode d),
         gc_src_to_pos := (gc_src_to_pos ctx)(location_encode s \<mapsto> p)\<rparr>)"
  by (simp add: add_grid_lane_def placed_lane_def position_bits_def Let_def split: option.split prod.split)

lemma context_tables:
  fixes idx :: lane_index and occ :: "u64 set" and ls :: "lane_addr list"
  defines "ctx \<equiv> foldl (add_grid_lane idx) (empty_context occ) ls" and "ps \<equiv> rev (placed_lanes idx ls)"
  shows "gc_pos_to_src ctx = map_of (map (\<lambda>(l, s, d, p). (p, location_encode s)) ps)
    \<and> gc_src_to_lane ctx = map_of (map (\<lambda>(l, s, d, p). (location_encode s, lane_encode_u64 l)) ps)
    \<and> gc_src_to_dst ctx = map_of (map (\<lambda>(l, s, d, p). (location_encode s, location_encode d)) ps)
    \<and> gc_src_to_pos ctx = map_of (map (\<lambda>(l, s, d, p). (location_encode s, p)) ps)
    \<and> gc_occupied ctx = occ"
  unfolding ctx_def ps_def
proof (induction ls rule: rev_induct)
  case Nil
  then show ?case by (simp add: empty_context_def placed_lanes_def List.map_filter_def)
next
  case (snoc l ls)
  note step = add_grid_lane_placed[of idx "foldl (add_grid_lane idx) (empty_context occ) ls" l]
  show ?case
  proof (cases "placed_lane idx l")
    case None
    then show ?thesis using snoc step by (simp add: placed_lanes_snoc)
  next
    case (Some x)
    obtain m s d p where x: "x = (m, s, d, p)" by (cases x)
    have "add_grid_lane idx (foldl (add_grid_lane idx) (empty_context occ) ls) l
      = (foldl (add_grid_lane idx) (empty_context occ) ls)
          \<lparr>gc_pos_to_src := (gc_pos_to_src (foldl (add_grid_lane idx) (empty_context occ) ls))(p \<mapsto> location_encode s),
         gc_src_to_lane := (gc_src_to_lane (foldl (add_grid_lane idx) (empty_context occ) ls))(location_encode s \<mapsto> lane_encode_u64 l),
         gc_src_to_dst := (gc_src_to_dst (foldl (add_grid_lane idx) (empty_context occ) ls))(location_encode s \<mapsto> location_encode d),
         gc_src_to_pos := (gc_src_to_pos (foldl (add_grid_lane idx) (empty_context occ) ls))(location_encode s \<mapsto> p)\<rparr> \<and> m = l"
      using step Some by (auto simp: x placed_lane_def bind_eq_Some_conv)
    then show ?thesis using snoc Some by (simp add: placed_lanes_snoc x)
  qed
qed

text \<open>The lanes of one bus, over all zones or in one.\<close>
definition bus_lanes_of :: "arch_spec \<Rightarrow> move_type \<Rightarrow> u32 \<Rightarrow> u32 option \<Rightarrow> direction \<Rightarrow> lane_addr set" where
  "bus_lanes_of a mt b z d = {l \<in> set (registered_lanes a). lane_move_type l = mt \<and> lane_bus_id l = b
     \<and> lane_direction l = d \<and> (case z of None \<Rightarrow> True | Some i \<Rightarrow> lane_zone_id l = i)}"

lemma context_lanes_set:
  assumes "rearranges order"
  shows "set (context_lanes (lane_index_new order cbrt a) mt b z d) = bus_lanes_of a mt b z d"
proof (cases z)
  case None
  then show ?thesis by (simp add: context_lanes_def lanes_for_all_zones_set[OF assms] bus_lanes_of_def)
next
  case (Some i)
  then show ?thesis by (auto simp: context_lanes_def lanes_for_all[OF assms] bus_lanes_of_def lane_key_def)
qed

lemma registered_bus:
  assumes "arch_fits a" "l \<in> set (registered_lanes a)"
  shows "lane_endpoints a l \<noteq> None \<and> lane_move_type l \<noteq> ZoneBus \<and> lane_fits l
    \<and> index_endpoints (lane_index_new order cbrt a) l = Some (lane_src a l, lane_dst a l)
    \<and> index_position (lane_index_new order cbrt a) (lane_src a l) = location_position a (lane_src a l)"
proof -
  have r: "lane_endpoints a l \<noteq> None" "lane_move_type l \<noteq> ZoneBus"
    using assms(2) registered_lanes_set[OF assms(1)] by auto
  then obtain s d where e: "lane_endpoints a l = Some (s, d)" by auto
  have f: "lane_fits l" by (rule registered_fits[OF assms])
  show ?thesis
    using r f index_endpoints_spec[OF assms(1) f, of order cbrt] index_position_touched[OF assms(1) e r(2), of s order cbrt]
      lane_ends_eq[OF e] e by simp
qed

lemma bus_lanes_mates:
  assumes "arch_fits a" "l \<in> bus_lanes_of a mt b z d" "l' \<in> bus_lanes_of a mt b z d"
  shows "bus_mates l l'"
  using assms registered_bus[OF assms(1), of l] by (simp add: bus_lanes_of_def bus_mates_def)

lemma placed_lane_registered:
  assumes "arch_fits a" "l \<in> set (registered_lanes a)"
  shows "placed_lane (lane_index_new order cbrt a) l
    = map_option (\<lambda>p. (l, lane_src a l, lane_dst a l, position_bits p)) (location_position a (lane_src a l))"
  using registered_bus[OF assms, of order cbrt] by (cases "location_position a (lane_src a l)") (simp_all add: placed_lane_def)

text \<open>A position of the context is the start of one lane of the bus, to which all tables refer.\<close>
lemma context_lane:
  assumes "arch_fits a" "orderly_buses a" "rearranges order"
    and ctx: "ctx = grid_context_new (lane_index_new order cbrt a) mt b z dir occ" and at: "gc_pos_to_src ctx p = Some e"
  shows "\<exists>l \<in> bus_lanes_of a mt b z dir. e = location_encode (lane_src a l)
    \<and> gc_src_to_lane ctx e = Some (lane_encode_u64 l) \<and> gc_src_to_dst ctx e = Some (location_encode (lane_dst a l))
    \<and> map_option position_bits (location_position a (lane_src a l)) = Some p"
proof -
  let ?idx = "lane_index_new order cbrt a"
  let ?ps = "rev (placed_lanes ?idx (context_lanes ?idx mt b z dir))"
  have t: "gc_pos_to_src ctx = map_of (map (\<lambda>(l, s, d, p). (p, location_encode s)) ?ps)"
    "gc_src_to_lane ctx = map_of (map (\<lambda>(l, s, d, p). (location_encode s, lane_encode_u64 l)) ?ps)"
    "gc_src_to_dst ctx = map_of (map (\<lambda>(l, s, d, p). (location_encode s, location_encode d)) ?ps)"
    using context_tables[of ?idx occ "context_lanes ?idx mt b z dir"] unfolding ctx grid_context_new_def by blast+
  have mem: "\<exists>l \<in> bus_lanes_of a mt b z dir. x = (l, lane_src a l, lane_dst a l, snd (snd (snd x)))
      \<and> map_option position_bits (location_position a (lane_src a l)) = Some (snd (snd (snd x)))"
    if x: "x \<in> set ?ps" for x
  proof -
    obtain l where l: "l \<in> bus_lanes_of a mt b z dir"
        "placed_lane ?idx l = Some x"
      using x context_lanes_set[OF assms(3)] by (auto simp: placed_lanes_def set_map_filter)
    then have "l \<in> set (registered_lanes a)" by (simp add: bus_lanes_of_def)
    from placed_lane_registered[OF assms(1) this, of order cbrt] l(2)
    have "map_option (\<lambda>p. (l, lane_src a l, lane_dst a l, position_bits p)) (location_position a (lane_src a l)) = Some x" by simp
    then obtain p where "location_position a (lane_src a l) = Some p" "x = (l, lane_src a l, lane_dst a l, position_bits p)" by auto
    then show ?thesis by (intro bexI[OF _ l(1)]) simp
  qed
  have "(p, e) \<in> set (map (\<lambda>(l, s, d, p). (p, location_encode s)) ?ps)"
    using at unfolding t(1) by (rule map_of_SomeD)
  then obtain x where x: "x \<in> set ?ps" "snd (snd (snd x)) = p" "location_encode (fst (snd x)) = e" by auto
  from mem[OF x(1)] obtain l where l: "l \<in> bus_lanes_of a mt b z dir" "x = (l, lane_src a l, lane_dst a l, p)"
      "map_option position_bits (location_position a (lane_src a l)) = Some p" using x(2) by auto
  have unique: "fst y = l" if y: "y \<in> set ?ps" "location_encode (fst (snd y)) = e" for y
  proof -
    from mem[OF y(1)] obtain m where m: "m \<in> bus_lanes_of a mt b z dir" "y = (m, lane_src a m, lane_dst a m, snd (snd (snd y)))"
      by blast
    have reg: "l \<in> set (registered_lanes a)" "m \<in> set (registered_lanes a)" using l(1) m(1) by (simp_all add: bus_lanes_of_def)
    note rl = registered_bus[OF assms(1) reg(1), of order cbrt] and rm = registered_bus[OF assms(1) reg(2), of order cbrt]
    have "fst (snd y) = lane_src a m" "fst (snd x) = lane_src a l" "fst y = m"
      using arg_cong[OF m(2), of "\<lambda>y. fst (snd y)"] arg_cong[OF l(2), of "\<lambda>y. fst (snd y)"] arg_cong[OF m(2), of fst] by simp_all
    then have "location_encode (lane_src a m) = location_encode (lane_src a l)" and y1: "fst y = m" using y(2) x(3) by simp_all
    then have "lane_src a m = lane_src a l"
      using location_encode_inj lane_ends_fit[OF assms(1)] rl rm by blast
    then have "m = l"
      using orderly_lanes[OF assms(2,1) bus_lanes_mates[OF assms(1) m(1) l(1)]] rl rm by blast
    then show ?thesis using y1 by simp
  qed
  have look: "map_of (map (\<lambda>y. (location_encode (fst (snd y)), f y)) ?ps) e = Some (f x)"
    if "\<And>y. y \<in> set ?ps \<Longrightarrow> location_encode (fst (snd y)) = e \<Longrightarrow> f y = f x" for f :: "_ \<Rightarrow> u64"
  proof -
    have "map_of (map (\<lambda>y. (location_encode (fst (snd y)), f y)) ?ps) e \<noteq> None"
      using x(1,3) by (auto simp: map_of_eq_None_iff image_image)
    then obtain v where v: "map_of (map (\<lambda>y. (location_encode (fst (snd y)), f y)) ?ps) e = Some v" by blast
    from map_of_SomeD[OF this] obtain y where "y \<in> set ?ps" "location_encode (fst (snd y)) = e" "v = f y" by auto
    with that v show ?thesis by simp
  qed
  have "gc_src_to_lane ctx e = Some (lane_encode_u64 l)"
    using look[of "\<lambda>y. lane_encode_u64 (fst y)"] unique l(2) t(2) by (simp add: case_prod_unfold)
  moreover have "gc_src_to_dst ctx e = Some (location_encode (lane_dst a l))"
  proof -
    have "fst (snd (snd y)) = lane_dst a (fst y)" if "y \<in> set ?ps" for y
      using mem[OF that] by (metis fst_conv snd_conv)
    then show ?thesis
      using look[of "\<lambda>y. location_encode (fst (snd (snd y)))"] unique l(2) x(1) t(3) by (simp add: case_prod_unfold)
  qed
  ultimately show ?thesis using l x(3) by auto
qed

section \<open>The grids\<close>

text \<open>The grid of lanes that leave the positions of a rectangle.\<close>
definition grid_of :: "arch_spec \<Rightarrow> u64 set \<Rightarrow> u64 set \<Rightarrow> lane_addr list \<Rightarrow> bool" where
  "grid_of a xs ys ls \<longleftrightarrow> distinct ls
     \<and> (\<lambda>l. map_option position_bits (location_position a (lane_src a l))) ` set ls = Some ` (xs \<times> ys)"

lemma rect_lanes:
  assumes "arch_fits a" "orderly_buses a" "rearranges order"
    and ctx: "ctx = grid_context_new (lane_index_new order cbrt a) mt b z dir occ"
    and rect: "clear_rect ctx xs ys movers"
  shows "\<exists>ls. rect_to_lanes ctx xs ys = map lane_encode_u64 ls \<and> grid_of a xs ys ls \<and> set ls \<subseteq> bus_lanes_of a mt b z dir
    \<and> (\<forall>l \<in> set ls. \<exists>p \<in> xs \<times> ys. gc_pos_to_src ctx p = Some (location_encode (lane_src a l))
         \<and> gc_src_to_dst ctx (location_encode (lane_src a l)) = Some (location_encode (lane_dst a l)))
    \<and> (\<forall>p \<in> xs \<times> ys. \<exists>l \<in> set ls. gc_pos_to_src ctx p = Some (location_encode (lane_src a l)))"
proof -
  have some: "gc_pos_to_src ctx p \<noteq> None" if "p \<in> xs \<times> ys" for p
    using rect that unfolding clear_rect_def by (metis option.distinct(1))
  have "\<exists>l. p \<in> xs \<times> ys \<longrightarrow> l \<in> bus_lanes_of a mt b z dir \<and> gc_pos_to_src ctx p = Some (location_encode (lane_src a l))
      \<and> gc_src_to_lane ctx (location_encode (lane_src a l)) = Some (lane_encode_u64 l)
      \<and> gc_src_to_dst ctx (location_encode (lane_src a l)) = Some (location_encode (lane_dst a l))
      \<and> map_option position_bits (location_position a (lane_src a l)) = Some p" for p
  proof (cases "p \<in> xs \<times> ys")
    case True
    then obtain e where e: "gc_pos_to_src ctx p = Some e" using some by blast
    from context_lane[OF assms(1-3) ctx e] e show ?thesis by metis
  qed simp
  then obtain f where f: "\<And>p. p \<in> xs \<times> ys \<Longrightarrow> f p \<in> bus_lanes_of a mt b z dir
      \<and> gc_pos_to_src ctx p = Some (location_encode (lane_src a (f p)))
      \<and> gc_src_to_lane ctx (location_encode (lane_src a (f p))) = Some (lane_encode_u64 (f p))
      \<and> gc_src_to_dst ctx (location_encode (lane_src a (f p))) = Some (location_encode (lane_dst a (f p)))
      \<and> map_option position_bits (location_position a (lane_src a (f p))) = Some p"
    by metis
  let ?ls = "map f (rect_positions xs ys)"
  have set: "set (rect_positions xs ys) = xs \<times> ys" by simp
  have "List.map_filter (\<lambda>p. Option.bind (gc_pos_to_src ctx p) (gc_src_to_lane ctx)) ps = map lane_encode_u64 (map f ps)"
    if "set ps \<subseteq> xs \<times> ys" for ps
    using that by (induction ps) (simp_all add: List.map_filter_def f)
  then have lanes: "rect_to_lanes ctx xs ys = map lane_encode_u64 ?ls" by (simp add: rect_to_lanes_def)
  have inj: "inj_on f (xs \<times> ys)" using f by (metis (no_types, lifting) inj_onI option.inject)
  have "distinct (rect_positions xs ys)" by (simp add: rect_positions_def distinct_product)
  then have "distinct ?ls" using inj by (simp add: distinct_map)
  moreover have "(\<lambda>l. map_option position_bits (location_position a (lane_src a l))) ` set ?ls = Some ` (xs \<times> ys)"
    unfolding set_map set image_image using f by (intro image_cong) blast+
  ultimately have "grid_of a xs ys ?ls" by (simp add: grid_of_def)
  moreover have "set ?ls \<subseteq> bus_lanes_of a mt b z dir" using f by (auto simp del: mem_Sigma_iff)
  moreover have "\<forall>l \<in> set ?ls. \<exists>p \<in> xs \<times> ys. gc_pos_to_src ctx p = Some (location_encode (lane_src a l))
         \<and> gc_src_to_dst ctx (location_encode (lane_src a l)) = Some (location_encode (lane_dst a l))"
    unfolding set_map set using f by (intro ballI) (elim imageE, blast)
  moreover have "\<forall>p \<in> xs \<times> ys. \<exists>l \<in> set ?ls. gc_pos_to_src ctx p = Some (location_encode (lane_src a l))"
    unfolding set_map set using f by blast
  ultimately show ?thesis using lanes by blast
qed

text \<open>Every grid built for selected atoms of a configuration is a shot it allows.\<close>
lemma grids_are_groups:
  assumes "arch_fits a" "orderly_buses a" "rearranges order" "clear_config blocked c"
    and ctx: "ctx = grid_context_new (lane_index_new order cbrt a) mt b z dir (taken_places blocked c)"
    and atoms: "\<And>e. e |\<in>| fmdom es \<Longrightarrow> \<exists>q x. location_of c q = Some x \<and> e = location_encode x"
    and g: "g \<in> set (build_aod_grids ctx es)"
  shows "\<exists>ls xs ys. g = map lane_encode_u64 ls \<and> grid_of a xs ys ls \<and> set ls \<subseteq> bus_lanes_of a mt b z dir
    \<and> clear_group a blocked c ls
    \<and> (\<forall>l \<in> set ls. location_encode (lane_src a l) \<in> taken_places blocked c \<longrightarrow> location_encode (lane_src a l) |\<in>| fmdom es)"
proof -
  from built_grids_clear[OF g] obtain xs ys where
    rect: "xs \<noteq> {}" "ys \<noteq> {}" "clear_rect ctx xs ys (fset (fmdom es))" "g = rect_to_lanes ctx xs ys" by blast
  from rect_lanes[OF assms(1-3) ctx rect(3)] obtain ls where
    ls: "rect_to_lanes ctx xs ys = map lane_encode_u64 ls" "grid_of a xs ys ls" "set ls \<subseteq> bus_lanes_of a mt b z dir"
      "\<forall>l \<in> set ls. \<exists>p \<in> xs \<times> ys. gc_pos_to_src ctx p = Some (location_encode (lane_src a l))
         \<and> gc_src_to_dst ctx (location_encode (lane_src a l)) = Some (location_encode (lane_dst a l))"
      "\<forall>p \<in> xs \<times> ys. \<exists>l \<in> set ls. gc_pos_to_src ctx p = Some (location_encode (lane_src a l))" by blast
  have occ: "gc_occupied ctx = taken_places blocked c"
    unfolding ctx grid_context_new_def using context_tables by blast
  have rectD: "\<exists>s d. gc_pos_to_src ctx p = Some s \<and> gc_src_to_dst ctx s = Some d
        \<and> (s \<in> taken_places blocked c \<longrightarrow> s |\<in>| fmdom es)
        \<and> (d \<in> taken_places blocked c \<longrightarrow> (\<exists>q \<in> xs \<times> ys. gc_pos_to_src ctx q = Some d))" if "p \<in> xs \<times> ys" for p
    using bspec[OF rect(3)[unfolded clear_rect_def] that] unfolding occ by blast
  have lane: "(location_encode (lane_src a l) \<in> taken_places blocked c \<longrightarrow> location_encode (lane_src a l) |\<in>| fmdom es)
      \<and> (location_encode (lane_dst a l) \<in> taken_places blocked c \<longrightarrow>
               location_encode (lane_dst a l) \<in> (\<lambda>m. location_encode (lane_src a m)) ` set ls)" if l: "l \<in> set ls" for l
  proof -
    obtain p where p: "p \<in> xs \<times> ys" "gc_pos_to_src ctx p = Some (location_encode (lane_src a l))"
        "gc_src_to_dst ctx (location_encode (lane_src a l)) = Some (location_encode (lane_dst a l))"
      using bspec[OF ls(4) l] by blast
    obtain s d where sd: "gc_pos_to_src ctx p = Some s" "gc_src_to_dst ctx s = Some d"
        "s \<in> taken_places blocked c \<longrightarrow> s |\<in>| fmdom es" "d \<in> taken_places blocked c \<longrightarrow> (\<exists>q \<in> xs \<times> ys. gc_pos_to_src ctx q = Some d)"
      using rectD[OF p(1)] by blast
    have eq: "s = location_encode (lane_src a l)" "d = location_encode (lane_dst a l)" using p(2,3) sd(1,2) by simp_all
    have "d \<in> (\<lambda>m. location_encode (lane_src a m)) ` set ls" if d: "d \<in> taken_places blocked c"
    proof -
      obtain q where q: "q \<in> xs \<times> ys" "gc_pos_to_src ctx q = Some d" using sd(4) d by blast
      from bspec[OF ls(5) q(1)] q(2) show ?thesis by (metis image_eqI option.inject)
    qed
    then show ?thesis using sd(3) eq by simp
  qed
  have wf: "config_wf c" "encoded_config c" using assms(4) by (auto simp: clear_config_def)
  note c = assms(4)[unfolded clear_config_iff[OF wf]]
  have unblocked: "location_encode (lane_src a l) \<notin> blocked" if l: "l \<in> set ls" for l
  proof
    assume b: "location_encode (lane_src a l) \<in> blocked"
    then have "location_encode (lane_src a l) |\<in>| fmdom es" using lane[OF l] by (simp add: taken_places_def)
    from atoms[OF this] c b show False by metis
  qed
  have ne: "ls \<noteq> []" using rect(1,2) ls(5) by auto
  have reg: "l \<in> set (registered_lanes a)" if "l \<in> set ls" for l using ls(3) that by (auto simp: bus_lanes_of_def)
  have "lane_endpoints a l \<noteq> None" if "l \<in> set ls" for l using registered_bus[OF assms(1) reg[OF that]] by blast
  moreover have "bus_mates l m" if "l \<in> set ls" "m \<in> set ls" for l m
    using bus_lanes_mates[OF assms(1)] ls(3) that by blast
  ultimately have "clear_group a blocked c ls"
    unfolding clear_group_def using ne ls(2) lane unblocked by (simp add: grid_of_def)
  then show ?thesis using rect(4) ls(1,2,3) lane by metis
qed

text \<open>Every lane of the bus that starts at a position is in the tables.\<close>
lemma context_has_lane:
  assumes "arch_fits a" "rearranges order" "l \<in> bus_lanes_of a mt b z dir"
    and at: "location_position a (lane_src a l) = Some p"
    and ctx: "ctx = grid_context_new (lane_index_new order cbrt a) mt b z dir occ"
  shows "gc_pos_to_src ctx (position_bits p) \<noteq> None" "gc_src_to_pos ctx (location_encode (lane_src a l)) = Some (position_bits p)"
proof -
  let ?idx = "lane_index_new order cbrt a"
  let ?ps = "rev (placed_lanes ?idx (context_lanes ?idx mt b z dir))"
  have t: "gc_pos_to_src ctx = map_of (map (\<lambda>(l, s, d, p). (p, location_encode s)) ?ps)"
    "gc_src_to_pos ctx = map_of (map (\<lambda>(l, s, d, p). (location_encode s, p)) ?ps)"
    using context_tables[of ?idx occ "context_lanes ?idx mt b z dir"] unfolding ctx grid_context_new_def by blast+
  have reg: "m \<in> set (registered_lanes a)" if "m \<in> bus_lanes_of a mt b z dir" for m
    using that by (simp add: bus_lanes_of_def)
  have ps: "set ?ps = {x. \<exists>m \<in> bus_lanes_of a mt b z dir. \<exists>p. location_position a (lane_src a m) = Some p
      \<and> x = (m, lane_src a m, lane_dst a m, position_bits p)}"
  proof -
    have "set ?ps = {x. \<exists>m \<in> bus_lanes_of a mt b z dir. placed_lane ?idx m = Some x}"
      unfolding set_rev placed_lanes_def set_map_filter context_lanes_set[OF assms(2)] image_iff by metis
    moreover have "placed_lane ?idx m = Some x \<longleftrightarrow> (\<exists>p. location_position a (lane_src a m) = Some p
      \<and> x = (m, lane_src a m, lane_dst a m, position_bits p))" if "m \<in> bus_lanes_of a mt b z dir" for m x
      unfolding placed_lane_registered[OF assms(1) reg[OF that]] by auto
    ultimately show ?thesis by blast
  qed
  have l: "(l, lane_src a l, lane_dst a l, position_bits p) \<in> set ?ps"
    unfolding ps using assms(3) at by blast
  have mine: "snd (snd (snd x)) = position_bits p"
    if x: "x \<in> set ?ps" "location_encode (fst (snd x)) = location_encode (lane_src a l)" for x
  proof -
    obtain m q where m: "m \<in> bus_lanes_of a mt b z dir" "location_position a (lane_src a m) = Some q"
        "x = (m, lane_src a m, lane_dst a m, position_bits q)" using x(1) unfolding ps by blast
    have "loc_fits (lane_src a m)" "loc_fits (lane_src a l)"
      using lane_ends_fit[OF assms(1)] registered_bus[OF assms(1) reg] m(1) assms(3) by blast+
    then have "lane_src a m = lane_src a l" using x(2) m(3) location_encode_inj by simp
    then show ?thesis using m(2,3) at by simp
  qed
  have "position_bits p \<in> fst ` set (map (\<lambda>(l, s, d, p). (p, location_encode s)) ?ps)"
    using l by (force simp del: set_rev)
  then show "gc_pos_to_src ctx (position_bits p) \<noteq> None" unfolding t(1) map_of_eq_None_iff by simp
  have "location_encode (lane_src a l) \<in> fst ` set (map (\<lambda>(l, s, d, p). (location_encode s, p)) ?ps)"
    using l by (force simp del: set_rev)
  then obtain v where v: "map_of (map (\<lambda>(l, s, d, p). (location_encode s, p)) ?ps) (location_encode (lane_src a l)) = Some v"
    by (metis map_of_eq_None_iff not_None_eq)
  from map_of_SomeD[OF v] obtain x where "x \<in> set ?ps" "location_encode (fst (snd x)) = location_encode (lane_src a l)"
    "v = snd (snd (snd x))" by auto
  then show "gc_src_to_pos ctx (location_encode (lane_src a l)) = Some (position_bits p)"
    using mine v unfolding t(2) by metis
qed

text \<open>No other place where the bus starts has the coordinates of the start of the lane.\<close>
definition alone_at :: "arch_spec \<Rightarrow> lane_addr set \<Rightarrow> lane_addr \<Rightarrow> bool" where
  "alone_at a L l \<longleftrightarrow> (\<exists>p. location_position a (lane_src a l) = Some p
     \<and> (\<forall>m \<in> L. map_option position_bits (location_position a (lane_src a m)) = Some (position_bits p)
          \<longrightarrow> lane_src a m = lane_src a l))"

text \<open>Every lane from a selected atom to a free place is in a grid.\<close>
lemma grids_offer_lane:
  assumes "arch_fits a" "orderly_buses a" "rearranges order"
    and l: "l \<in> bus_lanes_of a mt b z dir" "alone_at a (bus_lanes_of a mt b z dir) l"
      "location_encode (lane_src a l) |\<in>| fmdom es" "location_encode (lane_dst a l) \<notin> occ"
    and ctx: "ctx = grid_context_new (lane_index_new order cbrt a) mt b z dir occ"
  shows "\<exists>g \<in> set (build_aod_grids ctx es). lane_encode_u64 l \<in> set g"
proof -
  obtain p where p: "location_position a (lane_src a l) = Some p"
      "\<And>m. m \<in> bus_lanes_of a mt b z dir \<Longrightarrow>
        map_option position_bits (location_position a (lane_src a m)) = Some (position_bits p) \<Longrightarrow> lane_src a m = lane_src a l"
    using l(2) unfolding alone_at_def by blast
  note has = context_has_lane[OF assms(1,3) l(1) p(1) ctx]
  obtain e where e: "gc_pos_to_src ctx (position_bits p) = Some e" using has(1) by blast
  from context_lane[OF assms(1-3) ctx e] obtain m where m: "m \<in> bus_lanes_of a mt b z dir" "e = location_encode (lane_src a m)"
      "gc_src_to_lane ctx e = Some (lane_encode_u64 m)" "gc_src_to_dst ctx e = Some (location_encode (lane_dst a m))"
      "map_option position_bits (location_position a (lane_src a m)) = Some (position_bits p)" by blast
  have reg: "x \<in> set (registered_lanes a)" if "x \<in> bus_lanes_of a mt b z dir" for x
    using that by (simp add: bus_lanes_of_def)
  have "lane_src a m = lane_src a l" using p(2)[OF m(1,5)] .
  then have ml: "m = l"
    using orderly_lanes[OF assms(2,1) bus_lanes_mates[OF assms(1) m(1) l(1)]] registered_bus[OF assms(1) reg] m(1) l(1) by blast
  have occ: "gc_occupied ctx = occ" unfolding ctx grid_context_new_def using context_tables by blast
  have "clear_rect ctx {fst (position_bits p)} {snd (position_bits p)} (fset (fmdom es))"
    using e m(2,4) l(3,4) unfolding ml by (simp add: clear_rect_def occ)
  then show ?thesis
    by (intro built_grids_cover[OF l(3) has(2)]) (use e m(2,3) in \<open>simp_all add: ml\<close>)
qed

lemma to_bits_inj: "to_bits x = to_bits y \<longleftrightarrow> x = y"
  by (cases x; cases y) simp

text \<open>The rows and columns of the places where a bus starts are those of the places its lanes are named
  after: for forward lanes these are the same places, for backward lanes the other ends, and the bus
  must not move two atoms of a row apart.\<close>
definition rows_kept :: "arch_spec \<Rightarrow> lane_addr set \<Rightarrow> bool" where
  "rows_kept a L \<longleftrightarrow> (\<forall>l \<in> L. \<forall>m \<in> L. \<forall>p q.
     location_position a (lane_src a l) = Some p \<longrightarrow> location_position a (lane_src a m) = Some q
     \<longrightarrow> (\<exists>u v. location_position a (lane_origin l) = Some u \<and> location_position a (lane_origin m) = Some v
           \<and> (fst p = fst q \<longleftrightarrow> fst u = fst v) \<and> (snd p = snd q \<longleftrightarrow> snd u = snd v)))"

lemma forward_origin:
  assumes "lane_endpoints a l \<noteq> None" "lane_direction l = Forward"
  shows "lane_src a l = lane_origin l"
proof -
  obtain s d where e: "lane_endpoints a l = Some (s, d)" using assms(1) by auto
  then show ?thesis using assms(2) lane_ends_eq[OF e] unfolding lane_endpoints_Some_iff by auto
qed

lemma forward_rows_kept:
  assumes "arch_fits a"
  shows "rows_kept a (bus_lanes_of a mt b z Forward)"
proof -
  have src: "lane_origin l = lane_src a l" if "l \<in> bus_lanes_of a mt b z Forward" for l
  proof -
    have l: "l \<in> set (registered_lanes a)" "lane_direction l = Forward" using that by (simp_all add: bus_lanes_of_def)
    have "lane_endpoints a l \<noteq> None" using registered_bus[OF assms l(1)] by blast
    from forward_origin[OF this l(2)] show ?thesis by (rule sym)
  qed
  show ?thesis
    unfolding rows_kept_def
  proof (intro ballI allI impI)
    fix l m p q
    assume lm: "l \<in> bus_lanes_of a mt b z Forward" "m \<in> bus_lanes_of a mt b z Forward"
      and at: "location_position a (lane_src a l) = Some p" "location_position a (lane_src a m) = Some q"
    show "\<exists>u v. location_position a (lane_origin l) = Some u \<and> location_position a (lane_origin m) = Some v
           \<and> (fst p = fst q \<longleftrightarrow> fst u = fst v) \<and> (snd p = snd q \<longleftrightarrow> snd u = snd v)"
      unfolding src[OF lm(1)] src[OF lm(2)] at by simp
  qed
qed

lemma position_bits_inj: "position_bits p = position_bits q \<longleftrightarrow> p = q"
  by (simp add: position_bits_def prod_eq_iff to_bits_inj)

text \<open>A grid of lanes is a complete grid for the group check.\<close>
lemma grid_geometry:
  assumes "grid_of a xs ys ls" "rows_kept a (set ls)"
  shows "None \<notin> lane_positions a ls \<and> complete_grid {p. Some p \<in> lane_positions a ls}"
proof -
  let ?at = "\<lambda>l. location_position a (lane_src a l)" and ?name = "\<lambda>l. location_position a (lane_origin l)"
  have grid: "(\<lambda>l. map_option position_bits (?at l)) ` set ls = Some ` (xs \<times> ys)" using assms(1) by (simp add: grid_of_def)
  have at: "\<exists>p. ?at l = Some p \<and> position_bits p \<in> xs \<times> ys" if "l \<in> set ls" for l
  proof -
    have "map_option position_bits (?at l) \<in> Some ` (xs \<times> ys)" using grid that by blast
    then show ?thesis by auto
  qed
  have some: "\<exists>l \<in> set ls. ?at l = Some p" if "position_bits p \<in> xs \<times> ys" for p
  proof -
    have "Some (position_bits p) \<in> (\<lambda>l. map_option position_bits (?at l)) ` set ls" unfolding grid using that by blast
    then obtain l where l: "Some (position_bits p) = map_option position_bits (?at l)" "l \<in> set ls" by (rule imageE)
    then have "?at l = Some p" by (cases "?at l") (simp_all add: position_bits_inj)
    with l(2) show ?thesis by blast
  qed
  have kept: "\<exists>u v. ?name l = Some u \<and> ?name m = Some v \<and> (fst p = fst q \<longleftrightarrow> fst u = fst v) \<and> (snd p = snd q \<longleftrightarrow> snd u = snd v)"
    if "l \<in> set ls" "m \<in> set ls" "?at l = Some p" "?at m = Some q" for l m p q
    using assms(2) that unfolding rows_kept_def by blast
  have "?name l \<noteq> None" if "l \<in> set ls" for l using at[OF that] kept[OF that that] by fastforce
  then have "None \<notin> lane_positions a ls" by (force simp: lane_positions_def)
  moreover have "complete_grid {p. Some p \<in> lane_positions a ls}"
    unfolding complete_grid_def
  proof (intro allI impI)
    fix x y x' y'
    assume "(x, y) \<in> {p. Some p \<in> lane_positions a ls}" "(x', y') \<in> {p. Some p \<in> lane_positions a ls}"
    then obtain l m where l: "l \<in> set ls" "?name l = Some (x, y)" and m: "m \<in> set ls" "?name m = Some (x', y')"
      by (auto simp: lane_positions_def)
    obtain p where p: "?at l = Some p" "position_bits p \<in> xs \<times> ys" using at[OF l(1)] by (elim exE conjE)
    obtain q where q: "?at m = Some q" "position_bits q \<in> xs \<times> ys" using at[OF m(1)] by (elim exE conjE)
    have pq: "position_bits (fst p, snd q) \<in> xs \<times> ys" using p(2) q(2) by (simp add: position_bits_def)
    obtain n where n: "n \<in> set ls" "?at n = Some (fst p, snd q)" using some[OF pq] by (elim bexE)
    obtain u where u: "?name n = Some u" "fst u = x" using kept[OF n(1) l(1) n(2) p(1)] l(2) by auto
    have "snd u = y'" using kept[OF n(1) m(1) n(2) q(1)] m(2) u(1) by auto
    then have "?name n = Some (x, y')" using u by (cases u) simp
    then show "(x, y') \<in> {p. Some p \<in> lane_positions a ls}" using n(1) by (force simp: lane_positions_def)
  qed
  ultimately show ?thesis by blast
qed

text \<open>C10. On an architecture whose buses are orderly, take any grid built for a bus, over one zone or, as
  the generator does, over all zones, in either direction.  It is a group of lanes that the
  configuration allows, and the core crate accepts the group exactly when its lanes lie in one zone.
  For backward lanes, which the core crate checks at their other ends, the bus must keep rows and
  columns.\<close>
theorem grids_pass_check:
  assumes "arch_fits a" "orderly_buses a" "rearranges order" "clear_config blocked c"
    and atoms: "\<And>e. e |\<in>| fmdom es \<Longrightarrow> \<exists>q x. location_of c q = Some x \<and> e = location_encode x"
    and g: "g \<in> set (build_aod_grids (grid_context_new (lane_index_new order cbrt a) mt b z dir (taken_places blocked c)) es)"
    and rows: "dir = Backward \<Longrightarrow> rows_kept a (bus_lanes_of a mt b z dir)"
  shows "\<exists>ls. g = map lane_encode_u64 ls \<and> clear_group a blocked c ls
    \<and> (check_lanes a ls = [] \<longleftrightarrow> (\<exists>i. \<forall>l \<in> set ls. lane_zone_id l = i))
    \<and> (\<forall>i. z = Some i \<longrightarrow> (\<forall>l \<in> set ls. lane_zone_id l = i))"
proof -
  from grids_are_groups[OF assms(1-4) refl atoms g] obtain ls xs ys where
    ls: "g = map lane_encode_u64 ls" "grid_of a xs ys ls" "set ls \<subseteq> bus_lanes_of a mt b z dir"
      "clear_group a blocked c ls" by blast
  have ends: "\<forall>l \<in> set ls. lane_valid a l"
    using clear_groupD(1)[OF ls(4)] lane_endpoints_defined_iff by blast
  have "rows_kept a (bus_lanes_of a mt b z dir)" using rows forward_rows_kept[OF assms(1)] by (cases dir) auto
  then have "rows_kept a (set ls)" unfolding rows_kept_def using ls(3) by blast
  note geometry = grid_geometry[OF ls(2) this]
  have bus: "lane_bus_id l = b \<and> lane_move_type l = mt \<and> lane_direction l = dir \<and> (\<forall>i. z = Some i \<longrightarrow> lane_zone_id l = i)"
    if "l \<in> set ls" for l using subsetD[OF ls(3) that] by (auto simp: bus_lanes_of_def)
  have same: "same_bus ls \<longleftrightarrow> (\<exists>i. \<forall>l \<in> set ls. lane_zone_id l = i)"
  proof
    assume s: "same_bus ls"
    have "lane_zone_id l = lane_zone_id (hd ls)" if l: "l \<in> set ls" for l
    proof -
      have "hd ls \<in> set ls" using l by (cases ls) simp_all
      then show ?thesis using s l unfolding same_bus_def by blast
    qed
    then have "\<forall>l \<in> set ls. lane_zone_id l = lane_zone_id (hd ls)" ..
    then show "\<exists>i. \<forall>l \<in> set ls. lane_zone_id l = i" ..
  next
    assume "\<exists>i. \<forall>l \<in> set ls. lane_zone_id l = i"
    then show "same_bus ls" unfolding same_bus_def using bus by metis
  qed
  have small: "same_bus ls" if "length ls \<le> 1" using that by (cases ls) (simp_all add: same_bus_def)
  have "distinct ls" using ls(2) by (simp add: grid_of_def)
  then have "check_lanes a ls = [] \<longleftrightarrow> same_bus ls"
    unfolding check_lanes_Nil_iff[OF assms(1)] geometry_Nil_iff using ends geometry small by blast
  moreover have "\<forall>i. z = Some i \<longrightarrow> (\<forall>l \<in> set ls. lane_zone_id l = i)" using bus by blast
  ultimately show ?thesis using ls(1,4) unfolding same by blast
qed

text \<open>The lane between the two sites of the second word, and an atom at its start.\<close>
definition forward_lane :: lane_addr where
  "forward_lane = \<lparr>lane_direction = Forward, lane_move_type = SiteBus, lane_zone_id = 0,
     lane_word_id = 1, lane_site_id = 0, lane_bus_id = 0\<rparr>"

lemma example_orderly: "orderly_buses example_arch"
  by code_simp

lemma forward_lane_ends: "lane_src example_arch forward_lane = example_target" "lane_dst example_arch forward_lane = example_source"
  by code_simp+

lemma forward_lane_bus: "forward_lane \<in> bus_lanes_of example_arch SiteBus 0 z Forward \<longleftrightarrow> z = None \<or> z = Some 0"
proof -
  have "forward_lane \<in> set (registered_lanes example_arch)" by code_simp
  then show ?thesis by (auto simp: bus_lanes_of_def forward_lane_def split: option.split)
qed

lemma forward_lane_alone: "alone_at example_arch (bus_lanes_of example_arch SiteBus 0 z d) forward_lane"
proof -
  have "list_all (\<lambda>m. map_option position_bits (location_position example_arch (lane_src example_arch m))
         = map_option position_bits (location_position example_arch example_target)
       \<longrightarrow> lane_src example_arch m = example_target) (registered_lanes example_arch)" by code_simp
  moreover have "location_position example_arch example_target \<noteq> None" by code_simp
  ultimately show ?thesis
    unfolding alone_at_def forward_lane_ends list_all_iff bus_lanes_of_def by auto
qed

lemma one_qubit_wf: "config_wf (one_qubit_at loc)"
  by (simp add: config_wf_def one_qubit_at_def Let_def)

lemma one_qubit_clear:
  assumes "loc_fits loc" "location_encode loc \<notin> blocked"
  shows "clear_config blocked (one_qubit_at loc)" "location_of (one_qubit_at loc) q = (if q = 0 then Some loc else None)"
    "taken_places blocked (one_qubit_at loc) = insert (location_encode loc) blocked"
proof -
  have dec: "location_decode (location_encode loc) = loc" using loc_codec.roundtrip[OF assms(1)] by simp
  show at: "location_of (one_qubit_at loc) q = (if q = 0 then Some loc else None)" for q
    using location_of_map[OF one_qubit_wf, of loc q] dec by (simp add: config_map_def one_qubit_at_def Let_def)
  have "encoded_config (one_qubit_at loc)" using dec by (simp add: encoded_config_def one_qubit_at_def Let_def)
  then show "clear_config blocked (one_qubit_at loc)"
    using at assms(2) unfolding clear_config_iff[OF one_qubit_wf \<open>encoded_config (one_qubit_at loc)\<close>] by (auto split: if_splits)
  show "taken_places blocked (one_qubit_at loc) = insert (location_encode loc) blocked"
    using at by (auto simp: taken_places_def split: if_splits)
qed

theorem grids_pass_check_witness:
  "\<exists>ls. map lane_encode_u64 ls \<in> set (build_aod_grids (grid_context_new example_index SiteBus 0 (Some 0) Forward
       (taken_places {} (one_qubit_at example_target))) (fmap_of_list [(location_encode example_target, lane_encode_u64 forward_lane)]))
     \<and> check_lanes example_arch ls = [] \<and> ls \<noteq> []"
proof -
  let ?es = "fmap_of_list [(location_encode example_target, lane_encode_u64 forward_lane)]"
  let ?c = "one_qubit_at example_target"
  note at = one_qubit_clear[OF example_locs_fit(2), of "{}"]
  have "location_encode example_source \<noteq> location_encode example_target"
    by code_simp
  then obtain g where g: "g \<in> set (build_aod_grids (grid_context_new example_index SiteBus 0 (Some 0) Forward (taken_places {} ?c)) ?es)"
    using grids_offer_lane[OF example_fits example_orderly rearranges_rev, of forward_lane SiteBus 0 "Some 0" Forward ?es "taken_places {} ?c"]
    by (auto simp: forward_lane_bus forward_lane_alone forward_lane_ends at)
  have "\<exists>q x. location_of ?c q = Some x \<and> e = location_encode x" if "e |\<in>| fmdom ?es" for e
    using that at(2) by (intro exI[of _ 0]) simp
  from grids_pass_check[OF example_fits example_orderly rearranges_rev at(1) this g] obtain ls where
    ls: "g = map lane_encode_u64 ls" "clear_group example_arch {} ?c ls"
      "check_lanes example_arch ls = [] \<longleftrightarrow> (\<exists>i. \<forall>l \<in> set ls. lane_zone_id l = i)" "\<forall>l \<in> set ls. lane_zone_id l = 0"
    by auto
  have "check_lanes example_arch ls = []" using ls(3,4) by blast
  moreover have "ls \<noteq> []" using ls(2) by (simp add: clear_group_def)
  ultimately show ?thesis using g ls(1) by blast
qed

end
