(* ===== verification/Run_Search.thy ===== *)
theory Run_Search
  imports Frontier
begin

text \<open>
  The search loop \<open>run_search\<close> of \<open>drivers/frontier.rs\<close>, generic in the generator, scorer,
  cost, goal and frontier, which are parameters.  One iteration is \<open>search_step\<close>; the loop is
  \<open>iterate\<close>.  The events that the observer receives are collected in order.  The search context
  is captured by the functions.  The model is that of a release build: the debug assertions on
  candidates and costs are not part of it.
\<close>

section \<open>Data\<close>

record move_candidate =
  mc_move_set :: move_set
  mc_new_config :: config

datatype search_event =
    GoalFound (ev_depth: u32) (ev_node_id: nat) (ev_config: config)
  | NodeExpanded (ev_depth: u32) (ev_num_candidates: nat) (ev_node_id: nat) (ev_config: config)

record search_result =
  sr_goal :: "nat option"
  sr_nodes_expanded :: u32
  sr_max_depth_reached :: u32
  sr_graph :: search_graph

text \<open>The traits \<open>MoveGenerator\<close> (which may keep a state), \<open>CandidateScorer\<close>, \<open>CostFn\<close> and
  \<open>Goal\<close>, and the two limits.\<close>
record 's search_problem =
  generate :: "config \<Rightarrow> nat \<Rightarrow> 's \<Rightarrow> move_candidate list \<times> 's"
  score :: "move_candidate \<Rightarrow> config \<Rightarrow> f64"
  edge_cost :: "move_set \<Rightarrow> config \<Rightarrow> config \<Rightarrow> f64"
  is_goal :: "config \<Rightarrow> bool"
  max_expansions :: "u32 option"
  max_depth :: "u32 option"

record ('s, 'f) search_state =
  ss_graph :: search_graph
  ss_frontier :: 'f
  ss_nodes_expanded :: u32
  ss_max_depth_seen :: u32
  ss_closed :: "bool list"
  ss_state :: 's
  ss_events :: "search_event list"

text \<open>What a finished search leaves: its result, the frontier, the generator's state and the events.\<close>
type_synonym ('s, 'f) finished = "search_result \<times> 'f \<times> 's \<times> search_event list"

section \<open>The loop\<close>

text \<open>\<open>closed.resize(idx + 1, false)\<close> when the index is beyond the end.\<close>
definition resize_closed :: "bool list \<Rightarrow> nat \<Rightarrow> bool list" where
  "resize_closed closed idx =
     (if length closed \<le> idx then closed @ replicate (idx + 1 - length closed) False else closed)"

definition child_closed :: "bool list \<Rightarrow> nat \<Rightarrow> bool" where
  "child_closed closed idx \<longleftrightarrow> idx < length closed \<and> closed ! idx"

definition sort_candidates :: "'s search_problem \<Rightarrow> config \<Rightarrow> move_candidate list \<Rightarrow> move_candidate list" where
  "sort_candidates P c cs = sort_by (\<lambda>a b. flt (score P b c) (score P a c)) cs"

text \<open>The loop over the candidates of a node: \<open>Inl\<close> with the graph and the new children, or
  \<open>Inr\<close> with the goal found on generation, or a panic of the insertion.\<close>
fun insert_candidates ::
  "'s search_problem \<Rightarrow> bool \<Rightarrow> bool list \<Rightarrow> nat \<Rightarrow> node_data \<Rightarrow> search_graph \<Rightarrow> nat list \<Rightarrow>
   move_candidate list \<Rightarrow> (search_graph \<times> nat list) + (search_graph \<times> nat \<times> node_data) outcome" where
  "insert_candidates P on_generate closed node_id n g new_children [] = Inl (g, new_children)"
| "insert_candidates P on_generate closed node_id n g new_children (cand # cands) =
     (let new_g = fadd (nd_g_score n) (edge_cost P (mc_move_set cand) (nd_config n) (mc_new_config cand))
      in case graph_insert g node_id (mc_move_set cand) (mc_new_config cand) new_g of
           Panicked \<Rightarrow> Inr Panicked
         | Returned (g', child_id, is_new) \<Rightarrow>
             if is_new \<and> \<not> child_closed closed child_id
             then case node_at g' child_id of
                    Panicked \<Rightarrow> Inr Panicked
                  | Returned child \<Rightarrow>
                      if on_generate \<and> is_goal P (nd_config child) then Inr (Returned (g', child_id, child))
                      else insert_candidates P on_generate closed node_id n g' (new_children @ [child_id]) cands
             else insert_candidates P on_generate closed node_id n g' new_children cands)"

definition stop_search :: "('s, 'f) search_state \<Rightarrow> nat option \<Rightarrow> u32 \<Rightarrow> search_event list \<Rightarrow> ('s, 'f) finished" where
  "stop_search s goal depth_reached events =
     (\<lparr>sr_goal = goal, sr_nodes_expanded = ss_nodes_expanded s, sr_max_depth_reached = depth_reached,
       sr_graph = ss_graph s\<rparr>, ss_frontier s, ss_state s, ss_events s @ events)"

text \<open>The body of the loop after the depth limit.\<close>
definition expand_node ::
  "'s search_problem \<Rightarrow> 'f frontier_ops \<Rightarrow> nat \<Rightarrow> node_data \<Rightarrow> ('s, 'f) search_state \<Rightarrow>
   ('s, 'f) search_state + ('s, 'f) finished outcome" where
  "expand_node P F node_id n s =
     (let (candidates, st) = generate P (nd_config n) node_id (ss_state s);
          s1 = s\<lparr>ss_nodes_expanded := ss_nodes_expanded s + 1, ss_state := st,
                 ss_events := ss_events s @ [NodeExpanded (nd_depth n) (length candidates) node_id (nd_config n)]\<rparr>
      in case insert_candidates P (check_goal_on_generate F (ss_frontier s)) (ss_closed s) node_id n (ss_graph s) []
                (sort_candidates P (nd_config n) candidates) of
           Inr Panicked \<Rightarrow> Inr Panicked
         | Inr (Returned (g, child_id, child)) \<Rightarrow>
             Inr (Returned (stop_search (s1\<lparr>ss_graph := g\<rparr>) (Some child_id)
               (max (ss_max_depth_seen s) (nd_depth child)) [GoalFound (nd_depth child) child_id (nd_config child)]))
         | Inl (g, new_children) \<Rightarrow>
             if new_children = [] then Inl (s1\<lparr>ss_graph := g\<rparr>)
             else (case receive_children F (ss_frontier s) new_children g of
                     Panicked \<Rightarrow> Inr Panicked
                   | Returned f \<Rightarrow> Inl (s1\<lparr>ss_graph := g, ss_frontier := f\<rparr>)))"

definition reached :: "u32 option \<Rightarrow> u32 \<Rightarrow> bool" where
  "reached limit x \<longleftrightarrow> (case limit of None \<Rightarrow> False | Some m \<Rightarrow> m \<le> x)"

definition search_step ::
  "'s search_problem \<Rightarrow> 'f frontier_ops \<Rightarrow> ('s, 'f) search_state \<Rightarrow>
   ('s, 'f) search_state + ('s, 'f) finished outcome" where
  "search_step P F s =
     (case select_next F (ss_frontier s) of
        None \<Rightarrow> Inr (Returned (stop_search s None (ss_max_depth_seen s) []))
      | Some (node_id, f) \<Rightarrow>
          let s1 = s\<lparr>ss_frontier := f\<rparr>; closed = resize_closed (ss_closed s) node_id
          in if reached (max_expansions P) (ss_nodes_expanded s)
             then Inr (Returned (stop_search s1 None (ss_max_depth_seen s) []))
             else if closed ! node_id then Inl (s1\<lparr>ss_closed := closed\<rparr>)
             else case node_at (ss_graph s) node_id of
                    Panicked \<Rightarrow> Inr Panicked
                  | Returned n \<Rightarrow>
                      let s2 = s1\<lparr>ss_closed := closed[node_id := True]\<rparr>
                      in if check_goal_on_pop F f \<and> is_goal P (nd_config n)
                         then Inr (Returned (stop_search s2 (Some node_id) (ss_max_depth_seen s)
                                [GoalFound (nd_depth n) node_id (nd_config n)]))
                         else let s3 = s2\<lparr>ss_max_depth_seen := max (ss_max_depth_seen s) (nd_depth n)\<rparr>
                              in if reached (max_depth P) (nd_depth n) then Inl s3
                                 else expand_node P F node_id n s3)"

definition search_start :: "config \<Rightarrow> 'f \<Rightarrow> 's \<Rightarrow> ('s, 'f) search_state" where
  "search_start root f st =
     \<lparr>ss_graph = graph_new root, ss_frontier = f, ss_nodes_expanded = 0, ss_max_depth_seen = 0,
      ss_closed = replicate 64 False, ss_state = st, ss_events = []\<rparr>"

definition run_search ::
  "'s search_problem \<Rightarrow> 'f frontier_ops \<Rightarrow> config \<Rightarrow> 'f \<Rightarrow> 's \<Rightarrow> ('s, 'f) finished outcome option" where
  "run_search P F root f st =
     (if is_goal P root
      then Some (Returned (\<lparr>sr_goal = Some 0, sr_nodes_expanded = 0, sr_max_depth_reached = 0,
             sr_graph = graph_new root\<rparr>, f, st, []))
      else case receive_children F f [0] (graph_new root) of
             Panicked \<Rightarrow> Some Panicked
           | Returned f1 \<Rightarrow> iterate (search_step P F) (search_start root f1 st))"

definition solution_path :: "search_result \<Rightarrow> move_set list outcome option option" where
  "solution_path r = map_option (reconstruct_path (sr_graph r)) (sr_goal r)"

section \<open>Reachable configurations\<close>

text \<open>A candidate that the generator offers at a configuration, at some node and in some state.\<close>
definition offers :: "'s search_problem \<Rightarrow> config \<Rightarrow> move_candidate \<Rightarrow> bool" where
  "offers P c cand \<longleftrightarrow> (\<exists>i st. cand \<in> set (fst (generate P c i st)))"

inductive reaches :: "'s search_problem \<Rightarrow> config \<Rightarrow> move_set list \<Rightarrow> config \<Rightarrow> bool" for P root where
  start: "reaches P root [] root"
| move: "reaches P root ms c \<Longrightarrow> offers P c cand \<Longrightarrow> reaches P root (ms @ [mc_move_set cand]) (mc_new_config cand)"

text \<open>Every edge of the graph is an offered candidate.\<close>
definition edge_ok :: "'s search_problem \<Rightarrow> search_graph \<Rightarrow> nat \<Rightarrow> bool" where
  "edge_ok P g i \<longleftrightarrow>
     (case nd_parent (sg_nodes g ! i) of
        None \<Rightarrow> True
      | Some p \<Rightarrow> \<exists>cand. offers P (nd_config (sg_nodes g ! p)) cand
          \<and> nd_parent_move (sg_nodes g ! i) = Some (mc_move_set cand)
          \<and> nd_config (sg_nodes g ! i) = mc_new_config cand)"

definition graph_sound :: "'s search_problem \<Rightarrow> config \<Rightarrow> search_graph \<Rightarrow> bool" where
  "graph_sound P root g \<longleftrightarrow>
     graph_wf g \<and> nd_config (sg_nodes g ! 0) = root \<and> (\<forall>i < graph_len g. edge_ok P g i)"

lemma graph_new_sound: "graph_sound P root (graph_new root)"
  by (simp add: graph_sound_def graph_new_wf edge_ok_def) (simp add: graph_new_def)

lemma graph_sound_path:
  assumes "graph_path g i ms" "graph_sound P root g" "i < graph_len g"
  shows "reaches P root ms (nd_config (sg_nodes g ! i))"
  using assms(1,3)
proof induction
  case (root i)
  then have "i = 0" using graph_wf_root assms(2) by (auto simp: graph_sound_def)
  then show ?case using assms(2) reaches.start by (simp add: graph_sound_def)
next
  case (step i p m ms)
  have p: "p < graph_len g" using graph_wf_parent step.prems step.hyps(1) assms(2) by (auto simp: graph_sound_def)
  obtain cand where "offers P (nd_config (sg_nodes g ! p)) cand" "m = mc_move_set cand"
      "nd_config (sg_nodes g ! i) = mc_new_config cand"
    using assms(2) step.prems step.hyps(1,2) by (fastforce simp: graph_sound_def edge_ok_def)
  then show ?case using reaches.move[OF step.IH[OF p]] by simp
qed

text \<open>A node added with an offered candidate.\<close>
lemma grown_sound:
  assumes sound: "graph_sound P root g" and p: "p < graph_len g"
    and offer: "offers P (nd_config (sg_nodes g ! p)) cand"
    and ins: "graph_insert g p (mc_move_set cand) (mc_new_config cand) ng = Returned (g', i, True)"
  shows "graph_sound P root g' \<and> grows_to g g' \<and> i = graph_len g \<and> graph_len g' = Suc (graph_len g)
    \<and> nd_config (sg_nodes g' ! i) = mc_new_config cand \<and> nd_depth (sg_nodes g' ! i) = nd_depth (sg_nodes g ! p) + 1
    \<and> sg_seen g' = (sg_seen g)(entries (mc_new_config cand) \<mapsto> i)"
proof -
  have wf: "graph_wf g" using sound by (simp add: graph_sound_def)
  show ?thesis using wf p
  proof (cases rule: graph_insert_cases[of g p "mc_new_config cand" ng "mc_move_set cand"])
    case (grown g1 n)
    then have g1: "g1 = g'" "i = graph_len g" using ins by auto
    note grown = grown[unfolded g1]
    have grow: "grows_to g g'" and len: "graph_len g' = Suc (graph_len g)" and last: "sg_nodes g' ! graph_len g = n"
      using grown(4) by (auto simp: grows_to_def graph_len_def)
    have wf': "graph_wf g'" by (rule grown_wf[OF wf p grown(2,4-8,10)])
    have "edge_ok P g' j" if j: "j < graph_len g" for j
    proof (cases "nd_parent (sg_nodes g ! j)")
      case (Some q)
      then have "q < graph_len g" using graph_wf_parent[OF wf j] by blast
      moreover have "edge_ok P g j" using sound j by (simp add: graph_sound_def)
      ultimately show ?thesis using j Some grows_node[OF grow] by (simp add: edge_ok_def)
    qed (use j grows_node[OF grow] in \<open>simp add: edge_ok_def\<close>)
    moreover have "edge_ok P g' (graph_len g)"
      using offer grown(6-8) last p grows_node[OF grow p] by (auto simp: edge_ok_def)
    moreover have "nd_config (sg_nodes g' ! 0) = root"
      using sound grows_node[OF grow] p by (simp add: graph_sound_def)
    ultimately have "graph_sound P root g'" using wf' len by (auto simp: graph_sound_def less_Suc_eq)
    then show ?thesis using grow g1 len grown last by simp
  qed (use ins in auto)
qed

lemma insert_known:
  assumes "graph_wf g" "p < graph_len g" "graph_insert g p m c ng = Returned (g', i, False)"
  shows "g' = g \<and> sg_seen g (entries c) = Some i"
  using assms(1,2)
proof (cases rule: graph_insert_cases[of g p c ng m])
qed (use assms(3) in auto)

lemma insert_panic:
  assumes "graph_wf g" "p < graph_len g" "graph_insert g p m c ng = Panicked"
  shows "graph_len g = 2 ^ 32"
  using assms(1,2)
proof (cases rule: graph_insert_cases[of g p c ng m])
qed (use assms(3) in auto)

section \<open>The loop over the candidates\<close>

definition known_goals :: "'s search_problem \<Rightarrow> search_graph \<Rightarrow> nat \<Rightarrow> bool" where
  "known_goals P g k \<longleftrightarrow> (\<forall>i < graph_len g. k \<le> i \<longrightarrow> \<not> is_goal P (nd_config (sg_nodes g ! i)))"

text \<open>A panic needs a sound graph that is full.\<close>
definition full_graph :: "'s search_problem \<Rightarrow> config \<Rightarrow> bool" where
  "full_graph P root \<longleftrightarrow> (\<exists>g. graph_sound P root g \<and> graph_len g = 2 ^ 32)"

text \<open>What the loop leaves, from a graph \<open>g0\<close>: all the new nodes are new children, one step
  deeper than their parent, and no goals when goals are checked.\<close>
definition inserted ::
  "'s search_problem \<Rightarrow> config \<Rightarrow> bool \<Rightarrow> search_graph \<Rightarrow> nat \<Rightarrow> search_graph \<Rightarrow> bool" where
  "inserted P root on_generate g0 p g \<longleftrightarrow> graph_sound P root g \<and> grows_to g0 g
     \<and> (\<forall>i < graph_len g. graph_len g0 \<le> i \<longrightarrow> nd_depth (sg_nodes g ! i) = nd_depth (sg_nodes g0 ! p) + 1)
     \<and> (on_generate \<longrightarrow> known_goals P g (graph_len g0))"

lemma insert_candidates_spec:
  assumes "inserted P root gen g0 p g" "p < graph_len g0" "n = sg_nodes g0 ! p"
    "\<forall>cand \<in> set cs. offers P (nd_config n) cand" "\<forall>i. child_closed cl i \<longrightarrow> i < graph_len g0"
    "ch = [graph_len g0..<graph_len g]"
  shows "case insert_candidates P gen cl p n g ch cs of
      Inl (g', ch') \<Rightarrow> inserted P root gen g0 p g' \<and> grows_to g g' \<and> ch' = [graph_len g0..<graph_len g']
        \<and> (\<forall>cand \<in> set cs. sg_seen g' (entries (mc_new_config cand)) \<noteq> None)
        \<and> (\<forall>es. sg_seen g es \<noteq> None \<longrightarrow> sg_seen g' es \<noteq> None)
    | Inr Panicked \<Rightarrow> full_graph P root
    | Inr (Returned (g', i, child)) \<Rightarrow> inserted P root False g0 p g' \<and> graph_len g0 \<le> i \<and> i < graph_len g'
        \<and> child = sg_nodes g' ! i \<and> is_goal P (nd_config child)"
  using assms
proof (induction cs arbitrary: g ch)
  case Nil
  then show ?case by simp
next
  case (Cons cand cs)
  have sound: "graph_sound P root g" and grow: "grows_to g0 g" using Cons.prems(1) by (auto simp: inserted_def)
  have wf: "graph_wf g" using sound by (simp add: graph_sound_def)
  have p: "p < graph_len g" "sg_nodes g ! p = n"
    using grows_len[OF grow] grows_node[OF grow Cons.prems(2)] Cons.prems(2,3) by simp_all
  let ?ng = "fadd (nd_g_score n) (edge_cost P (mc_move_set cand) (nd_config n) (mc_new_config cand))"
  let ?ins = "graph_insert g p (mc_move_set cand) (mc_new_config cand) ?ng"
  show ?case
  proof (cases ?ins)
    case Panicked
    then have "graph_len g = 2 ^ 32" using insert_panic[OF wf p(1)] by blast
    then show ?thesis using sound Panicked by (auto simp: full_graph_def Let_def)
  next
    case (Returned r)
    then obtain g' i new where r: "?ins = Returned (g', i, new)" by (cases r) auto
    show ?thesis
    proof (cases new)
      case False
      then have g': "g' = g" "sg_seen g (entries (mc_new_config cand)) \<noteq> None"
        using insert_known[OF wf p(1)] r by auto
      have step: "insert_candidates P gen cl p n g ch (cand # cs) = insert_candidates P gen cl p n g ch cs"
        using r False g' by (simp add: Let_def)
      show ?thesis
        unfolding step using Cons.IH[OF Cons.prems(1-3) _ Cons.prems(5,6)] Cons.prems(4) g'(2)
        by (simp split: sum.splits outcome.splits prod.splits)
    next
      case True
      have off: "offers P (nd_config (sg_nodes g ! p)) cand" using Cons.prems(4) p(2) by simp
      have "?ins = Returned (g', i, True)" using r True by simp
      note grown = grown_sound[OF sound p(1) off this]
      have i: "i = graph_len g" "graph_len g' = Suc (graph_len g)" and at: "node_at g' i = Returned (sg_nodes g' ! i)"
        using grown by simp_all
      have open_child: "\<not> child_closed cl i" using Cons.prems(5) grows_len[OF grow] i(1) by fastforce
      have old: "sg_nodes g' ! j = sg_nodes g ! j" if "j < graph_len g" for j
        using grown that by (blast intro: grows_node)
      have ins0: "inserted P root False g0 p g'"
        using Cons.prems(1) grown p(2) Cons.prems(3) old
        by (auto simp: inserted_def less_Suc_eq intro: grows_trans)
      show ?thesis
      proof (cases "gen \<and> is_goal P (nd_config (sg_nodes g' ! i))")
        case goal: True
        then show ?thesis
          using r True open_child at ins0 i grows_len[OF grow] by (simp add: Let_def)
      next
        case False
        then have step: "insert_candidates P gen cl p n g ch (cand # cs) = insert_candidates P gen cl p n g' (ch @ [i]) cs"
          using r True open_child at by (cases gen) (simp_all add: Let_def)
        have ins: "inserted P root gen g0 p g'"
          using ins0 Cons.prems(1) False old i by (auto simp: inserted_def known_goals_def less_Suc_eq)
        have ch: "ch @ [i] = [graph_len g0..<graph_len g']"
          using Cons.prems(6) i grows_len[OF grow] by simp
        have gg: "grows_to g g'" "sg_seen g' = (sg_seen g)(entries (mc_new_config cand) \<mapsto> i)"
          using grown by simp_all
        show ?thesis
          unfolding step using Cons.IH[OF ins Cons.prems(2,3) _ Cons.prems(5) ch] Cons.prems(4) gg
          by (auto split: sum.splits outcome.splits prod.splits intro: grows_trans)
      qed
    qed
  qed
qed

end
