(* ===== verification/Search_Correct.thy ===== *)
theory Search_Correct
  imports Run_Search
begin

text \<open>
  What the search loop guarantees with any frontier that keeps its contract: it ends, a goal it
  returns is reached by the moves on its path, a search without limits that returns none has seen
  every reachable configuration, and the limits hold.  The lemmas about one iteration and the
  loop are proved once in the locale \<open>frontier\<close>.
\<close>

section \<open>The cases of an iteration\<close>

lemma child_closed_resize [simp]: "child_closed (resize_closed cl i) j \<longleftrightarrow> child_closed cl j"
  by (auto simp: child_closed_def resize_closed_def nth_append)

lemma resize_closed_nth: "resize_closed cl i ! i \<longleftrightarrow> child_closed cl i"
  by (auto simp: child_closed_def resize_closed_def nth_append)

lemma resize_closed_length: "i < length (resize_closed cl i)"
  by (simp add: resize_closed_def)

lemma child_closed_set [simp]: "child_closed ((resize_closed cl i)[i := True]) j \<longleftrightarrow> j = i \<or> child_closed cl j"
  using child_closed_resize[of cl i j] resize_closed_length[of i cl]
  by (cases "i = j") (auto simp: child_closed_def nth_list_update simp del: child_closed_resize)

text \<open>What holds between two iterations: the graph is sound, the frontier holds nodes of the graph,
  a node is held or closed, and no closed node is a goal.\<close>
definition core_inv ::
  "'s search_problem \<Rightarrow> 'f frontier_ops \<Rightarrow> ('f \<Rightarrow> nat multiset) \<Rightarrow> config \<Rightarrow> ('s, 'f) search_state \<Rightarrow> bool" where
  "core_inv P F held root s \<longleftrightarrow>
     graph_sound P root (ss_graph s)
     \<and> (\<forall>i \<in># held (ss_frontier s). i < graph_len (ss_graph s))
     \<and> (\<forall>i. child_closed (ss_closed s) i \<longrightarrow> i < graph_len (ss_graph s))
     \<and> (\<forall>i < graph_len (ss_graph s). i \<in># held (ss_frontier s) \<or> child_closed (ss_closed s) i)
     \<and> (\<not> check_goal_on_pop F (ss_frontier s) \<longrightarrow> known_goals P (ss_graph s) 0)
     \<and> (\<forall>i. child_closed (ss_closed s) i \<longrightarrow> \<not> is_goal P (nd_config (sg_nodes (ss_graph s) ! i)))"

text \<open>The state in which a node is expanded.\<close>
definition taken :: "('s, 'f) search_state \<Rightarrow> nat \<Rightarrow> 'f \<Rightarrow> ('s, 'f) search_state" where
  "taken s i f = s\<lparr>ss_frontier := f, ss_closed := (resize_closed (ss_closed s) i)[i := True],
     ss_max_depth_seen := max (ss_max_depth_seen s) (nd_depth (sg_nodes (ss_graph s) ! i))\<rparr>"

definition candidates_at :: "'s search_problem \<Rightarrow> ('s, 'f) search_state \<Rightarrow> nat \<Rightarrow> move_candidate list" where
  "candidates_at P s i = fst (generate P (nd_config (sg_nodes (ss_graph s) ! i)) i (ss_state s))"

context frontier
begin

lemma expand_node_cases:
  assumes sound: "graph_sound P root (ss_graph s)" and i: "i < graph_len (ss_graph s)"
    and closed: "\<forall>j. child_closed (ss_closed s) j \<longrightarrow> j < graph_len (ss_graph s)"
    and n: "n = sg_nodes (ss_graph s) ! i"
  obtains (panic) "expand_node P ops i n s = Inr Panicked" "full_graph P root"
  | (goal) s' j where
      "expand_node P ops i n s = Inr (Returned (stop_search s' (Some j)
         (max (ss_max_depth_seen s) (nd_depth (sg_nodes (ss_graph s') ! j)))
         [GoalFound (nd_depth (sg_nodes (ss_graph s') ! j)) j (nd_config (sg_nodes (ss_graph s') ! j))]))"
      "inserted P root False (ss_graph s) i (ss_graph s')" "graph_len (ss_graph s) \<le> j" "j < graph_len (ss_graph s')"
      "is_goal P (nd_config (sg_nodes (ss_graph s') ! j))" "ss_nodes_expanded s' = ss_nodes_expanded s + 1"
      "ss_events s' = ss_events s @ [NodeExpanded (nd_depth n) (length (candidates_at P s i)) i (nd_config n)]"
  | (expanded) s' where
      "expand_node P ops i n s = Inl s'"
      "inserted P root (check_goal_on_generate ops (ss_frontier s)) (ss_graph s) i (ss_graph s')"
      "held (ss_frontier s') = held (ss_frontier s) + mset [graph_len (ss_graph s)..<graph_len (ss_graph s')]"
      "check_goal_on_pop ops (ss_frontier s') = check_goal_on_pop ops (ss_frontier s)"
      "ss_closed s' = ss_closed s" "ss_max_depth_seen s' = ss_max_depth_seen s"
      "ss_nodes_expanded s' = ss_nodes_expanded s + 1"
      "ss_events s' = ss_events s @ [NodeExpanded (nd_depth n) (length (candidates_at P s i)) i (nd_config n)]"
      "\<forall>cand \<in> set (candidates_at P s i). sg_seen (ss_graph s') (entries (mc_new_config cand)) \<noteq> None"
      "\<forall>es. sg_seen (ss_graph s) es \<noteq> None \<longrightarrow> sg_seen (ss_graph s') es \<noteq> None"
proof -
  obtain cs st where gen: "generate P (nd_config n) i (ss_state s) = (cs, st)" by force
  let ?cs = "sort_candidates P (nd_config n) cs"
  let ?flag = "check_goal_on_generate ops (ss_frontier s)"
  let ?s1 = "s\<lparr>ss_nodes_expanded := ss_nodes_expanded s + 1, ss_state := st,
    ss_events := ss_events s @ [NodeExpanded (nd_depth n) (length cs) i (nd_config n)]\<rparr>"
  let ?ins = "insert_candidates P ?flag (ss_closed s) i n (ss_graph s) [] ?cs"
  have cs: "set ?cs = set cs" "candidates_at P s i = cs"
    using gen n by (simp_all add: sort_candidates_def candidates_at_def)
  have off: "\<forall>cand \<in> set ?cs. offers P (nd_config n) cand"
    using gen cs by (auto simp: offers_def intro!: exI[of _ i] exI[of _ "ss_state s"])
  have start: "inserted P root ?flag (ss_graph s) i (ss_graph s)"
    using sound by (simp add: inserted_def known_goals_def)
  note spec = insert_candidates_spec[OF start i n off closed, of "[]"]
  have ex: "expand_node P ops i n s = (case ?ins of
       Inr Panicked \<Rightarrow> Inr Panicked
     | Inr (Returned (g, child_id, child)) \<Rightarrow>
         Inr (Returned (stop_search (?s1\<lparr>ss_graph := g\<rparr>) (Some child_id)
           (max (ss_max_depth_seen s) (nd_depth child)) [GoalFound (nd_depth child) child_id (nd_config child)]))
     | Inl (g, new_children) \<Rightarrow>
         if new_children = [] then Inl (?s1\<lparr>ss_graph := g\<rparr>)
         else (case receive_children ops (ss_frontier s) new_children g of
                 Panicked \<Rightarrow> Inr Panicked
               | Returned f \<Rightarrow> Inl (?s1\<lparr>ss_graph := g, ss_frontier := f\<rparr>)))"
    unfolding expand_node_def gen by (simp add: Let_def)
  show thesis
  proof (cases ?ins)
    case (Inr r)
    show thesis
    proof (cases r)
      case Panicked
      then show thesis using spec ex Inr by (intro panic) simp_all
    next
      case (Returned x)
      then obtain g j child where x: "?ins = Inr (Returned (g, j, child))" using Inr by (cases x) auto
      have "inserted P root False (ss_graph s) i g" "graph_len (ss_graph s) \<le> j" "j < graph_len g"
          "child = sg_nodes g ! j" "is_goal P (nd_config child)"
        using spec unfolding x by auto
      then show thesis using ex x cs(2) by (intro goal[of "?s1\<lparr>ss_graph := g\<rparr>" j]) simp_all
    qed
  next
    case (Inl r)
    then obtain g ch where r: "?ins = Inl (g, ch)" by (cases r) auto
    then have g: "inserted P root ?flag (ss_graph s) i g" "ch = [graph_len (ss_graph s)..<graph_len g]"
        "\<forall>cand \<in> set cs. sg_seen g (entries (mc_new_config cand)) \<noteq> None"
        "\<forall>es. sg_seen (ss_graph s) es \<noteq> None \<longrightarrow> sg_seen g es \<noteq> None"
      using spec cs(1) by simp_all
    show thesis
    proof (cases "ch = []")
      case True
      then have "mset [graph_len (ss_graph s)..<graph_len g] = {#}" using g(2) by (metis mset.simps(1))
      then show thesis using ex r True g cs(2) by (intro expanded[of "?s1\<lparr>ss_graph := g\<rparr>"]) simp_all
    next
      case False
      have "graph_wf g" "\<forall>j \<in> set ch. j < graph_len g" using g(1,2) by (auto simp: inserted_def graph_sound_def)
      then obtain f where f: "receive_children ops (ss_frontier s) ch g = Returned f"
          "held f = held (ss_frontier s) + mset ch" "check_goal_on_pop ops f = check_goal_on_pop ops (ss_frontier s)"
        using receive by blast
      then show thesis using ex r False g cs(2) by (intro expanded[of "?s1\<lparr>ss_graph := g, ss_frontier := f\<rparr>"]) simp_all
    qed
  qed
qed

lemma search_step_cases:
  assumes inv: "core_inv P ops held root s"
  obtains (exhausted) "held (ss_frontier s) = {#}"
      "search_step P ops s = Inr (Returned (stop_search s None (ss_max_depth_seen s) []))"
  | (limit) f where "reached (max_expansions P) (ss_nodes_expanded s)"
      "search_step P ops s = Inr (Returned (stop_search (s\<lparr>ss_frontier := f\<rparr>) None (ss_max_depth_seen s) []))"
  | (skip) i f where "held (ss_frontier s) = add_mset i (held f)" "check_goal_on_pop ops f = check_goal_on_pop ops (ss_frontier s)"
      "child_closed (ss_closed s) i"
      "search_step P ops s = Inl (s\<lparr>ss_frontier := f, ss_closed := resize_closed (ss_closed s) i\<rparr>)"
  | (goal_pop) i f where "i < graph_len (ss_graph s)" "is_goal P (nd_config (sg_nodes (ss_graph s) ! i))"
      "search_step P ops s = Inr (Returned (stop_search
         (s\<lparr>ss_frontier := f, ss_closed := (resize_closed (ss_closed s) i)[i := True]\<rparr>) (Some i) (ss_max_depth_seen s)
         [GoalFound (nd_depth (sg_nodes (ss_graph s) ! i)) i (nd_config (sg_nodes (ss_graph s) ! i))]))"
  | (deep) i f where "held (ss_frontier s) = add_mset i (held f)" "check_goal_on_pop ops f = check_goal_on_pop ops (ss_frontier s)"
      "\<not> child_closed (ss_closed s) i" "i < graph_len (ss_graph s)"
      "\<not> is_goal P (nd_config (sg_nodes (ss_graph s) ! i))"
      "reached (max_depth P) (nd_depth (sg_nodes (ss_graph s) ! i))" "search_step P ops s = Inl (taken s i f)"
  | (expand) i f where "held (ss_frontier s) = add_mset i (held f)" "check_goal_on_pop ops f = check_goal_on_pop ops (ss_frontier s)"
      "\<not> child_closed (ss_closed s) i" "i < graph_len (ss_graph s)"
      "\<not> is_goal P (nd_config (sg_nodes (ss_graph s) ! i))"
      "\<not> reached (max_depth P) (nd_depth (sg_nodes (ss_graph s) ! i))"
      "\<not> reached (max_expansions P) (ss_nodes_expanded s)"
      "search_step P ops s = expand_node P ops i (sg_nodes (ss_graph s) ! i) (taken s i f)"
proof (cases "select_next ops (ss_frontier s)")
  case None
  then show thesis
    using select_None[of "ss_frontier s"] by (intro exhausted) (auto simp: search_step_def)
next
  case (Some r)
  then obtain i f where sel: "select_next ops (ss_frontier s) = Some (i, f)" by (cases r) auto
  have f: "held (ss_frontier s) = add_mset i (held f)" "check_goal_on_pop ops f = check_goal_on_pop ops (ss_frontier s)"
    using select_Some[OF sel] by simp_all
  then have i: "i < graph_len (ss_graph s)" using inv by (simp add: core_inv_def)
  let ?n = "sg_nodes (ss_graph s) ! i"
  note step = search_step_def[of P ops s, unfolded sel option.case prod.case Let_def]
  show thesis
  proof (cases "reached (max_expansions P) (ss_nodes_expanded s)")
    case True
    then show thesis using step by (intro limit) simp_all
  next
    case unlimited: False
    show thesis
    proof (cases "child_closed (ss_closed s) i")
      case True
      then show thesis using step unlimited f by (intro skip) (simp_all add: resize_closed_nth)
    next
      case False
      have goal: "is_goal P (nd_config ?n) \<Longrightarrow> check_goal_on_pop ops f"
        using inv i f(2) by (auto simp: core_inv_def known_goals_def)
      have step: "search_step P ops s =
        (if is_goal P (nd_config ?n)
         then Inr (Returned (stop_search
           (s\<lparr>ss_frontier := f, ss_closed := (resize_closed (ss_closed s) i)[i := True]\<rparr>) (Some i) (ss_max_depth_seen s)
           [GoalFound (nd_depth ?n) i (nd_config ?n)]))
         else if reached (max_depth P) (nd_depth ?n) then Inl (taken s i f)
         else expand_node P ops i ?n (taken s i f))"
        using step unlimited False goal i by (auto simp: resize_closed_nth taken_def)
      show thesis
      proof (cases "is_goal P (nd_config ?n)")
        case True
        then show thesis using step i by (intro goal_pop) simp_all
      next
        case ng: False
        show thesis
        proof (cases "reached (max_depth P) (nd_depth ?n)")
          case True
          then show thesis using step ng f i False by (intro deep) simp_all
        next
          case open_node: False
          then show thesis using step ng f i False unlimited by (intro expand) simp_all
        qed
      qed
    qed
  qed
qed

end

section \<open>The loop invariant\<close>

lemma graph_node_old: "inserted P root gen g p g' \<Longrightarrow> i < graph_len g \<Longrightarrow> sg_nodes g' ! i = sg_nodes g ! i"
  by (auto simp: inserted_def intro: grows_node)

lemma inserted_len: "inserted P root gen g p g' \<Longrightarrow> graph_len g \<le> graph_len g'"
  by (auto simp: inserted_def intro: grows_len)

lemma core_inv_taken:
  assumes "core_inv P F held root s" "held (ss_frontier s) = add_mset i (held f)"
    "check_goal_on_pop F f = check_goal_on_pop F (ss_frontier s)" "i < graph_len (ss_graph s)"
    "\<not> is_goal P (nd_config (sg_nodes (ss_graph s) ! i))"
  shows "core_inv P F held root (taken s i f)"
  using assms by (auto simp: core_inv_def taken_def)

context frontier
begin

lemma core_inv_inserted:
  assumes inv: "core_inv P ops held root s"
    and ins: "inserted P root (check_goal_on_generate ops (ss_frontier s)) (ss_graph s) i (ss_graph s')"
    and held: "held (ss_frontier s') = held (ss_frontier s) + mset [graph_len (ss_graph s)..<graph_len (ss_graph s')]"
    and flag: "check_goal_on_pop ops (ss_frontier s') = check_goal_on_pop ops (ss_frontier s)"
    and closed: "ss_closed s' = ss_closed s"
  shows "core_inv P ops held root s'"
proof -
  note len = inserted_len[OF ins] and old = graph_node_old[OF ins]
  have sound: "graph_sound P root (ss_graph s')" using ins by (simp add: inserted_def)
  have old_closed: "j < graph_len (ss_graph s) \<and> sg_nodes (ss_graph s') ! j = sg_nodes (ss_graph s) ! j"
    if "child_closed (ss_closed s) j" for j
    using inv that old by (auto simp: core_inv_def)
  have held_iff: "j \<in># held (ss_frontier s') \<longleftrightarrow> j \<in># held (ss_frontier s)
      \<or> (graph_len (ss_graph s) \<le> j \<and> j < graph_len (ss_graph s'))" for j
    by (auto simp: held)
  have "known_goals P (ss_graph s') 0" if "\<not> check_goal_on_pop ops (ss_frontier s')"
  proof -
    have "check_goal_on_generate ops (ss_frontier s)" using one_check that flag by simp
    then have "known_goals P (ss_graph s') (graph_len (ss_graph s))" using ins by (simp add: inserted_def)
    moreover have "known_goals P (ss_graph s) 0" using inv that flag by (simp add: core_inv_def)
    ultimately show ?thesis using old by (metis known_goals_def linorder_not_less zero_le)
  qed
  moreover have "\<forall>j \<in># held (ss_frontier s'). j < graph_len (ss_graph s')"
    using inv by (auto simp: held_iff core_inv_def intro: order_less_le_trans[OF _ len])
  moreover have "\<forall>j < graph_len (ss_graph s'). j \<in># held (ss_frontier s') \<or> child_closed (ss_closed s') j"
    using inv by (metis closed core_inv_def held_iff linorder_not_less)
  moreover have "\<forall>j. child_closed (ss_closed s') j \<longrightarrow> j < graph_len (ss_graph s')"
    using old_closed len closed by (metis order_less_le_trans)
  moreover have "\<forall>j. child_closed (ss_closed s') j \<longrightarrow> \<not> is_goal P (nd_config (sg_nodes (ss_graph s') ! j))"
    using inv old_closed closed by (simp add: core_inv_def)
  ultimately show ?thesis using sound unfolding core_inv_def by blast
qed

end

text \<open>Expanded nodes are counted, once each, and stay below the limits.\<close>
definition expanded_ids :: "search_event list \<Rightarrow> nat list" where
  "expanded_ids evs = concat (map (\<lambda>e. case e of NodeExpanded d k i c \<Rightarrow> [i] | GoalFound d i c \<Rightarrow> []) evs)"

lemma expanded_ids_simps [simp]:
  "expanded_ids [] = []" "expanded_ids (xs @ ys) = expanded_ids xs @ expanded_ids ys"
  "expanded_ids [NodeExpanded d k i c] = [i]" "expanded_ids [GoalFound d i c] = []"
  by (simp_all add: expanded_ids_def)

definition within :: "u32 option \<Rightarrow> u32 \<Rightarrow> bool" where
  "within limit x \<longleftrightarrow> (case limit of None \<Rightarrow> True | Some m \<Rightarrow> x \<le> m)"

definition count_inv :: "'s search_problem \<Rightarrow> ('s, 'f) search_state \<Rightarrow> bool" where
  "count_inv P s \<longleftrightarrow>
     distinct (expanded_ids (ss_events s))
     \<and> (\<forall>i \<in> set (expanded_ids (ss_events s)). child_closed (ss_closed s) i)
     \<and> ss_nodes_expanded s = of_nat (length (expanded_ids (ss_events s)))
     \<and> within (max_expansions P) (ss_nodes_expanded s)
     \<and> within (max_depth P) (ss_max_depth_seen s)
     \<and> (\<forall>i < graph_len (ss_graph s). within (max_depth P) (nd_depth (sg_nodes (ss_graph s) ! i)))"

lemma within_next: "\<not> reached limit x \<Longrightarrow> within limit (x + 1)"
  by (cases limit) (auto simp: reached_def within_def inc_le)

lemma within_max: "within limit x \<Longrightarrow> within limit y \<Longrightarrow> within limit (max x y)"
  by (auto simp: within_def split: option.splits)

lemma count_inv_taken:
  assumes "count_inv P s" "i < graph_len (ss_graph s)"
  shows "count_inv P (taken s i f)"
  using assms by (auto simp: count_inv_def taken_def within_max)

lemma count_inv_inserted:
  assumes count: "count_inv P s" and i: "i < graph_len (ss_graph s)" "\<not> child_closed (ss_closed s) i"
    and limits: "\<not> reached (max_depth P) (nd_depth (sg_nodes (ss_graph s) ! i))"
      "\<not> reached (max_expansions P) (ss_nodes_expanded s)"
    and ins: "inserted P root gen (ss_graph s) i (ss_graph s')"
    and s': "ss_closed s' = ss_closed (taken s i f)" "ss_max_depth_seen s' = ss_max_depth_seen (taken s i f)"
      "ss_nodes_expanded s' = ss_nodes_expanded s + 1" "ss_events s' = ss_events s @ [NodeExpanded d k i c]"
  shows "count_inv P s'"
proof -
  have new: "i \<notin> set (expanded_ids (ss_events s))" using count i(2) by (auto simp: count_inv_def)
  have "within (max_depth P) (nd_depth (sg_nodes (ss_graph s') ! j))" if j: "j < graph_len (ss_graph s')" for j
  proof (cases "j < graph_len (ss_graph s)")
    case True
    then show ?thesis using count graph_node_old[OF ins True] by (simp add: count_inv_def)
  next
    case False
    then have "nd_depth (sg_nodes (ss_graph s') ! j) = nd_depth (sg_nodes (ss_graph s) ! i) + 1"
      using ins j by (simp add: inserted_def)
    then show ?thesis using within_next[OF limits(1)] by simp
  qed
  moreover have "within (max_depth P) (ss_max_depth_seen s')"
    using count_inv_taken[OF count i(1)] by (simp add: s'(2) count_inv_def)
  moreover have "within (max_expansions P) (ss_nodes_expanded s + 1)" by (rule within_next[OF limits(2)])
  moreover have "\<forall>j \<in> set (expanded_ids (ss_events s')). child_closed (ss_closed s') j"
    using count by (auto simp: s' taken_def count_inv_def)
  moreover have "ss_nodes_expanded s' = of_nat (length (expanded_ids (ss_events s')))"
    using count by (simp add: s' count_inv_def)
  moreover have "distinct (expanded_ids (ss_events s'))" using count new by (simp add: s' count_inv_def)
  ultimately show ?thesis unfolding count_inv_def s'(3) by blast
qed

text \<open>The successors of closed nodes are known, when every closed node has been expanded.\<close>
definition complete_inv :: "'s search_problem \<Rightarrow> ('s, 'f) search_state \<Rightarrow> bool" where
  "complete_inv P s \<longleftrightarrow>
     (\<forall>i cand. child_closed (ss_closed s) i \<longrightarrow> offers P (nd_config (sg_nodes (ss_graph s) ! i)) cand \<longrightarrow>
        sg_seen (ss_graph s) (entries (mc_new_config cand)) \<noteq> None)"

text \<open>The generator keeps no state.\<close>
definition stateless :: "'s search_problem \<Rightarrow> bool" where
  "stateless P \<longleftrightarrow> (\<forall>c i st i' st'. fst (generate P c i st) = fst (generate P c i' st'))"

definition unlimited_depth :: "'s search_problem \<Rightarrow> bool" where
  "unlimited_depth P \<longleftrightarrow> max_depth P = None"

lemma complete_inv_inserted:
  assumes complete: "complete_inv P s" and stateless: "stateless P" and core: "core_inv P F held root s"
    and ins: "inserted P root gen (ss_graph s) i (ss_graph s')" and i: "i < graph_len (ss_graph s)"
    and seen: "\<forall>cand \<in> set (candidates_at P s i). sg_seen (ss_graph s') (entries (mc_new_config cand)) \<noteq> None"
      "\<forall>es. sg_seen (ss_graph s) es \<noteq> None \<longrightarrow> sg_seen (ss_graph s') es \<noteq> None"
    and closed: "ss_closed s' = ss_closed (taken s i f)"
  shows "complete_inv P s'"
  unfolding complete_inv_def
proof (intro allI impI)
  fix j cand assume j: "child_closed (ss_closed s') j" and off: "offers P (nd_config (sg_nodes (ss_graph s') ! j)) cand"
  then have jl: "j < graph_len (ss_graph s)" using core i closed by (auto simp: taken_def core_inv_def)
  then have old: "sg_nodes (ss_graph s') ! j = sg_nodes (ss_graph s) ! j" by (rule graph_node_old[OF ins])
  show "sg_seen (ss_graph s') (entries (mc_new_config cand)) \<noteq> None"
  proof (cases "j = i")
    case True
    then obtain k st where "cand \<in> set (fst (generate P (nd_config (sg_nodes (ss_graph s) ! i)) k st))"
      using off old by (auto simp: offers_def)
    then have "cand \<in> set (candidates_at P s i)"
      using stateless unfolding stateless_def candidates_at_def by metis
    with seen(1) show ?thesis by blast
  next
    case False
    then have "child_closed (ss_closed s) j" using j closed by (simp add: taken_def)
    then have "sg_seen (ss_graph s) (entries (mc_new_config cand)) \<noteq> None"
      using complete off old by (simp add: complete_inv_def)
    with seen(2) show ?thesis by blast
  qed
qed

definition search_inv ::
  "'s search_problem \<Rightarrow> 'f frontier_ops \<Rightarrow> ('f \<Rightarrow> nat multiset) \<Rightarrow> config \<Rightarrow> ('s, 'f) search_state \<Rightarrow> bool" where
  "search_inv P F held root s \<longleftrightarrow>
     core_inv P F held root s \<and> count_inv P s \<and> (stateless P \<and> unlimited_depth P \<longrightarrow> complete_inv P s)"

definition search_measure :: "('f \<Rightarrow> nat multiset) \<Rightarrow> ('s, 'f) search_state \<Rightarrow> nat" where
  "search_measure held s = (2 ^ 32 - graph_len (ss_graph s)) + size (held (ss_frontier s))"

context frontier
begin

lemma search_step_Inl:
  assumes inv: "search_inv P ops held root s" and step: "search_step P ops s = Inl s'"
  shows "search_inv P ops held root s' \<and> search_measure held s' < search_measure held s"
proof -
  have core: "core_inv P ops held root s" and count: "count_inv P s"
    and complete: "stateless P \<and> unlimited_depth P \<longrightarrow> complete_inv P s"
    using inv by (simp_all add: search_inv_def)
  show ?thesis
    using core
  proof (cases rule: search_step_cases)
    case (skip i f)
    then have s': "s' = s\<lparr>ss_frontier := f, ss_closed := resize_closed (ss_closed s) i\<rparr>" using step by simp
    have "core_inv P ops held root s'" using core skip by (auto simp: core_inv_def s')
    moreover have "count_inv P s'" using count unfolding count_inv_def s' by auto
    moreover have "complete_inv P s' \<longleftrightarrow> complete_inv P s" by (simp add: complete_inv_def s')
    ultimately show ?thesis using complete skip(1) by (simp add: search_inv_def search_measure_def s')
  next
    case (deep i f)
    then have s': "s' = taken s i f" using step by simp
    have "\<not> unlimited_depth P" using deep(6) by (auto simp: unlimited_depth_def reached_def split: option.splits)
    then show ?thesis
      using core_inv_taken[OF core deep(1,2,4,5)] count_inv_taken[OF count deep(4)] deep(1)
      by (simp add: search_inv_def s') (simp add: search_measure_def taken_def)
  next
    case (expand i f)
    let ?t = "taken s i f"
    have t: "core_inv P ops held root ?t" "count_inv P ?t" "ss_graph ?t = ss_graph s" "held (ss_frontier s) = add_mset i (held (ss_frontier ?t))"
      using core_inv_taken[OF core expand(1,2,4,5)] count_inv_taken[OF count expand(4)] expand(1)
      by (simp_all add: taken_def)
    have sound: "graph_sound P root (ss_graph ?t)" and closed: "\<forall>j. child_closed (ss_closed ?t) j \<longrightarrow> j < graph_len (ss_graph ?t)"
      and i: "i < graph_len (ss_graph ?t)"
      using t expand(4) by (simp_all add: core_inv_def)
    show ?thesis
      using sound i closed refl
    proof (cases rule: expand_node_cases)
      case (expanded s1)
      then have s1: "s1 = s'" using step expand t(3) by simp
      note ex = expanded[unfolded s1]
      have core': "core_inv P ops held root s'" by (rule core_inv_inserted[OF t(1) ex(2-5)])
      have ins: "inserted P root (check_goal_on_generate ops (ss_frontier ?t)) (ss_graph s) i (ss_graph s')"
        using ex(2) t(3) by simp
      have count': "count_inv P s'"
        by (rule count_inv_inserted[OF count expand(4,3,6,7) ins ex(5,6)]) (use ex(7,8) in \<open>simp_all add: taken_def\<close>)
      have "candidates_at P ?t i = candidates_at P s i" by (simp add: candidates_at_def taken_def)
      then have "stateless P \<and> unlimited_depth P \<longrightarrow> complete_inv P s'"
        using complete_inv_inserted[OF _ _ core ins expand(4) _ _ ex(5)] complete ex(9,10) t(3) by simp
      moreover have "search_measure held s' < search_measure held s"
      proof -
        have "graph_len (ss_graph s') \<le> 2 ^ 32" using ins by (simp add: inserted_def graph_sound_def graph_wf_def)
        then show ?thesis
          using inserted_len[OF ins] t(3,4) ex(3) by (simp add: search_measure_def)
      qed
      ultimately show ?thesis using core' count' by (simp add: search_inv_def)
    qed (use step expand t(3) in simp_all)
  qed (use step in simp_all)
qed

end

section \<open>How a search ends\<close>

text \<open>The graph holds every reachable configuration, and none is a goal.\<close>
definition saturated :: "'s search_problem \<Rightarrow> search_graph \<Rightarrow> bool" where
  "saturated P g \<longleftrightarrow>
     (\<forall>i < graph_len g. \<not> is_goal P (nd_config (sg_nodes g ! i))
        \<and> (\<forall>cand. offers P (nd_config (sg_nodes g ! i)) cand \<longrightarrow> sg_seen g (entries (mc_new_config cand)) \<noteq> None))"

definition finish_ok :: "'s search_problem \<Rightarrow> config \<Rightarrow> ('s, 'f) finished outcome \<Rightarrow> bool" where
  "finish_ok P root r \<longleftrightarrow>
     (case r of
        Panicked \<Rightarrow> full_graph P root
      | Returned (res, f, st, evs) \<Rightarrow>
          graph_sound P root (sr_graph res)
          \<and> (case sr_goal res of
               None \<Rightarrow> stateless P \<longrightarrow> unlimited_depth P \<longrightarrow>
                 \<not> reached (max_expansions P) (sr_nodes_expanded res) \<longrightarrow> saturated P (sr_graph res)
             | Some i \<Rightarrow> i < graph_len (sr_graph res) \<and> is_goal P (nd_config (sg_nodes (sr_graph res) ! i)))
          \<and> distinct (expanded_ids evs) \<and> sr_nodes_expanded res = of_nat (length (expanded_ids evs))
          \<and> within (max_expansions P) (sr_nodes_expanded res)
          \<and> within (max_depth P) (sr_max_depth_reached res)
          \<and> (\<forall>i < graph_len (sr_graph res). within (max_depth P) (nd_depth (sg_nodes (sr_graph res) ! i))))"

context frontier
begin

lemma search_step_Inr:
  assumes inv: "search_inv P ops held root s" and step: "search_step P ops s = Inr r"
  shows "finish_ok P root r"
proof -
  have core: "core_inv P ops held root s" and count: "count_inv P s"
    and complete: "stateless P \<and> unlimited_depth P \<longrightarrow> complete_inv P s"
    using inv by (simp_all add: search_inv_def)
  have sound: "graph_sound P root (ss_graph s)" using core by (simp add: core_inv_def)
  show ?thesis
    using core
  proof (cases rule: search_step_cases)
    case exhausted
    then have closed: "child_closed (ss_closed s) i" if "i < graph_len (ss_graph s)" for i
      using core that by (auto simp: core_inv_def)
    have "saturated P (ss_graph s)" if "stateless P" "unlimited_depth P"
      unfolding saturated_def
    proof (intro allI impI conjI)
      fix i assume i: "i < graph_len (ss_graph s)"
      show "\<not> is_goal P (nd_config (sg_nodes (ss_graph s) ! i))"
        using core closed[OF i] by (simp add: core_inv_def)
      show "offers P (nd_config (sg_nodes (ss_graph s) ! i)) cand \<Longrightarrow>
          sg_seen (ss_graph s) (entries (mc_new_config cand)) \<noteq> None" for cand
        using complete that closed[OF i] by (simp add: complete_inv_def)
    qed
    then show ?thesis
      using exhausted step sound count by (auto simp: finish_ok_def stop_search_def count_inv_def)
  next
    case (limit f)
    then show ?thesis
      using step sound count by (auto simp: finish_ok_def stop_search_def count_inv_def)
  next
    case (goal_pop i f)
    then show ?thesis
      using step sound count by (auto simp: finish_ok_def stop_search_def count_inv_def)
  next
    case (expand i f)
    let ?t = "taken s i f"
    have t: "core_inv P ops held root ?t" "ss_graph ?t = ss_graph s"
      using core_inv_taken[OF core expand(1,2,4,5)] by (simp_all add: taken_def)
    have sound: "graph_sound P root (ss_graph ?t)" and closed: "\<forall>j. child_closed (ss_closed ?t) j \<longrightarrow> j < graph_len (ss_graph ?t)"
      and i: "i < graph_len (ss_graph ?t)"
      using t expand(4) by (simp_all add: core_inv_def)
    show ?thesis
      using sound i closed refl
    proof (cases rule: expand_node_cases)
      case panic
      then show ?thesis using step expand t(2) by (simp add: finish_ok_def)
    next
      case (goal s' j)
      let ?s' = "s'\<lparr>ss_closed := ss_closed ?t, ss_max_depth_seen := ss_max_depth_seen ?t\<rparr>"
      have ins: "inserted P root False (ss_graph s) i (ss_graph ?s')" using goal(2) t(2) by simp
      have count': "count_inv P ?s'"
        by (rule count_inv_inserted[OF count expand(4,3,6,7) ins]) (use goal(6,7) in \<open>simp_all add: taken_def\<close>)
      let ?d = "max (ss_max_depth_seen ?t) (nd_depth (sg_nodes (ss_graph s') ! j))"
      have "within (max_depth P) ?d"
        using count' goal(4) by (intro within_max) (simp_all add: count_inv_def)
      moreover have "r = Returned (stop_search s' (Some j) ?d
          [GoalFound (nd_depth (sg_nodes (ss_graph s') ! j)) j (nd_config (sg_nodes (ss_graph s') ! j))])"
        using step expand(8) goal(1) t(2) by simp
      moreover have "graph_sound P root (ss_graph s')" using ins by (simp add: inserted_def)
      moreover have "distinct (expanded_ids (ss_events s'))" "within (max_expansions P) (ss_nodes_expanded s')"
          "ss_nodes_expanded s' = of_nat (length (expanded_ids (ss_events s')))"
          "\<forall>i < graph_len (ss_graph s'). within (max_depth P) (nd_depth (sg_nodes (ss_graph s') ! i))"
        using count' unfolding count_inv_def by auto
      ultimately show ?thesis
        using goal(4,5) unfolding finish_ok_def stop_search_def by (simp del: of_nat_add)
    next
      case (expanded s')
      then show ?thesis using step expand t(2) by simp
    qed
  qed (use step in simp_all)
qed

lemma child_closed_start [simp]: "\<not> child_closed (replicate n False) i"
  by (simp add: child_closed_def)

lemma search_start_inv:
  assumes "\<not> is_goal P root" "held f = {#0#}"
  shows "search_inv P ops held root (search_start root f st)"
proof -
  have "nd_depth (sg_nodes (graph_new root) ! 0) = 0" by (simp add: graph_new_def)
  then show ?thesis
    using assms
    by (simp add: search_inv_def core_inv_def count_inv_def complete_inv_def search_start_def graph_new_sound
        known_goals_def within_def split: option.split)
qed

lemma run_search_finishes:
  assumes "held f = {#}"
  shows "\<exists>r. run_search P ops root f st = Some r \<and> finish_ok P root r"
proof (cases "is_goal P root")
  case True
  have "nd_depth (sg_nodes (graph_new root) ! 0) = 0" by (simp add: graph_new_def)
  with True show ?thesis
    by (simp add: run_search_def finish_ok_def graph_new_sound within_def split: option.split)
next
  case False
  obtain f1 where f1: "receive_children ops f [0] (graph_new root) = Returned f1" "held f1 = {#0#}"
    using receive[of "graph_new root" "[0]" f] assms by (auto simp: graph_new_wf)
  have "\<exists>r. iterate (search_step P ops) (search_start root f1 st) = Some r \<and> finish_ok P root r"
    by (rule iterate_total[where I = "search_inv P ops held root" and m = "search_measure held"])
      (use search_step_Inl search_step_Inr search_start_inv[OF False f1(2)] in blast)+
  then show ?thesis using False f1(1) by (simp add: run_search_def)
qed

end

section \<open>What the end gives\<close>

lemma finish_path:
  assumes "finish_ok P root (Returned (res, f, st, evs))" "sr_goal res = Some i"
  shows "\<exists>ms. solution_path res = Some (Some (Returned ms)) \<and> reaches P root ms (nd_config (sg_nodes (sr_graph res) ! i))
    \<and> i < graph_len (sr_graph res) \<and> is_goal P (nd_config (sg_nodes (sr_graph res) ! i))
    \<and> length ms = unat (nd_depth (sg_nodes (sr_graph res) ! i))"
proof -
  have fin: "graph_sound P root (sr_graph res)" "i < graph_len (sr_graph res)"
      "is_goal P (nd_config (sg_nodes (sr_graph res) ! i))"
    using assms by (simp_all add: finish_ok_def)
  then have "graph_wf (sr_graph res)" by (simp add: graph_sound_def)
  from reconstruct_path_returns[OF this fin(2)] obtain ms
    where "reconstruct_path (sr_graph res) i = Some (Returned ms)" "graph_path (sr_graph res) i ms"
      "length ms = unat (nd_depth (sg_nodes (sr_graph res) ! i))" by blast
  then show ?thesis using graph_sound_path[OF _ fin(1,2)] fin assms(2) by (simp add: solution_path_def)
qed

text \<open>Configurations that are well formed are equal when their entries are.\<close>
lemma config_wf_eqI: "config_wf c \<Longrightarrow> config_wf d \<Longrightarrow> entries c = entries d \<Longrightarrow> c = d"
  by (simp add: config_wf_def)

lemma saturated_reaches:
  assumes sound: "graph_sound P root g" and sat: "saturated P g" and wf: "config_wf root"
    and gen: "\<And>c cand. config_wf c \<Longrightarrow> offers P c cand \<Longrightarrow> config_wf (mc_new_config cand)"
    and "reaches P root ms c"
  shows "config_wf c \<and> (\<exists>i < graph_len g. nd_config (sg_nodes g ! i) = c)"
proof -
  have gwf: "graph_wf g" using sound by (simp add: graph_sound_def)
  have nodes_wf: "config_wf (nd_config (sg_nodes g ! i))" if "i < graph_len g" for i
    using that
  proof (induction i rule: less_induct)
    case (less i)
    show ?case
    proof (cases "nd_parent (sg_nodes g ! i)")
      case None
      then have "i = 0" using graph_wf_root[OF gwf less.prems] by simp
      then show ?thesis using sound wf by (simp add: graph_sound_def)
    next
      case (Some p)
      then have p: "p < i" "p < graph_len g" using graph_wf_parent[OF gwf less.prems] by simp_all
      have "edge_ok P g i" using sound less.prems by (simp add: graph_sound_def)
      then obtain cand where "offers P (nd_config (sg_nodes g ! p)) cand" "nd_config (sg_nodes g ! i) = mc_new_config cand"
        using Some by (auto simp: edge_ok_def)
      then show ?thesis using gen[OF less.IH[OF p]] by simp
    qed
  qed
  from assms(5) show ?thesis
  proof induction
    case start
    then show ?case using sound wf gwf by (auto simp: graph_sound_def graph_wf_def)
  next
    case (move ms c cand)
    then obtain i where i: "i < graph_len g" "nd_config (sg_nodes g ! i) = c" by blast
    then obtain j where j: "sg_seen g (entries (mc_new_config cand)) = Some j"
      using sat move.hyps(2) by (auto simp: saturated_def)
    have "config_wf (mc_new_config cand)" using gen move by blast
    moreover have "j < graph_len g" "entries (nd_config (sg_nodes g ! j)) = entries (mc_new_config cand)"
      using graph_wf_seen[OF gwf j] by simp_all
    ultimately show ?case using config_wf_eqI[OF nodes_wf[of j]] by blast
  qed
qed

end
