(* ===== verification/Solve_Strategy.thy ===== *)
theory Solve_Strategy
  imports Search_Correct
begin

text \<open>
  Strategy dispatch and restarts: \<open>search/restarts.rs\<close> with the values of \<open>search/options.rs\<close> and
  \<open>search/result.rs\<close>, the uniform cost of \<open>cost.rs\<close> and the scorer of \<open>scorers/distance.rs\<close>.
  The generator factory, the goal, the two heuristics and the distance table are parameters, as
  they are for \<open>run_with_components\<close>; so is the entropy driver, which is not modelled here.  A
  value of type \<open>'a outcome option\<close> is \<open>None\<close> when the code does not return.
\<close>

section \<open>Options and results\<close>

datatype inner_strategy = InnerIds | InnerDfs | InnerEntropy

datatype strategy = AStar | HeuristicDfs | Bfs | GreedyBestFirst | Ids | Cascade inner_strategy | Entropy

datatype deadlock_policy = Skip | MoveBlockers | AllMoves

record solve_options =
  so_strategy :: strategy
  so_weight :: f64
  so_restarts :: u32
  so_deadlock_policy :: deadlock_policy
  so_lookahead :: bool
  so_top_c :: "nat option"

definition f64_one :: f64 where "f64_one = F64 0x3FF0000000000000"

definition default_options :: solve_options where
  "default_options = \<lparr>so_strategy = AStar, so_weight = f64_one, so_restarts = 1, so_deadlock_policy = Skip,
     so_lookahead = False, so_top_c = None\<rparr>"

definition upgraded_for_entangling :: "solve_options \<Rightarrow> solve_options" where
  "upgraded_for_entangling opts =
     (if so_deadlock_policy opts = Skip then opts\<lparr>so_deadlock_policy := MoveBlockers\<rparr> else opts)"

definition clipped_future_layers :: "nat option \<Rightarrow> 'a list \<Rightarrow> 'a list" where
  "clipped_future_layers hungarian_horizon layers =
     (case hungarian_horizon of Some n \<Rightarrow> (if n = 0 then [] else take (min (length layers) n) layers) | None \<Rightarrow> layers)"

datatype solve_status = Solved | Unsolvable | BudgetExceeded

definition as_label :: "solve_status \<Rightarrow> string" where
  "as_label s = (case s of Solved \<Rightarrow> ''solved'' | Unsolvable \<Rightarrow> ''unsolvable'' | BudgetExceeded \<Rightarrow> ''budget_exceeded'')"

record 'tr solve_result =
  sv_status :: solve_status
  sv_move_layers :: "move_set list"
  sv_goal_config :: config
  sv_nodes_expanded :: u32
  sv_cost :: f64
  sv_deadlocks :: u32
  sv_entropy_trace :: "'tr option"

definition solve_solved :: "config \<Rightarrow> move_set list \<Rightarrow> f64 \<Rightarrow> u32 \<Rightarrow> u32 \<Rightarrow> 'tr solve_result" where
  "solve_solved goal_config move_layers cost nodes_expanded deadlocks =
     \<lparr>sv_status = Solved, sv_move_layers = move_layers, sv_goal_config = goal_config,
      sv_nodes_expanded = nodes_expanded, sv_cost = cost, sv_deadlocks = deadlocks, sv_entropy_trace = None\<rparr>"

definition solve_unsolved :: "solve_status \<Rightarrow> config \<Rightarrow> u32 \<Rightarrow> u32 \<Rightarrow> 'tr solve_result" where
  "solve_unsolved status root_config nodes_expanded deadlocks =
     \<lparr>sv_status = status, sv_move_layers = [], sv_goal_config = root_config,
      sv_nodes_expanded = nodes_expanded, sv_cost = pos_zero, sv_deadlocks = deadlocks, sv_entropy_trace = None\<rparr>"

definition solve_unsolvable :: "config \<Rightarrow> 'tr solve_result" where
  "solve_unsolvable root_config = solve_unsolved Unsolvable root_config 0 0"

section \<open>Cost and score\<close>

definition uniform_edge_cost :: "move_set \<Rightarrow> config \<Rightarrow> config \<Rightarrow> f64" where
  "uniform_edge_cost ms c d = f64_one"

definition u32_max :: nat where "u32_max = 2 ^ 32 - 1"

text \<open>\<open>DistanceScorer\<close>, with the distance table as a parameter: the hops from a location to a target.\<close>
definition distance_score ::
  "(u64 \<Rightarrow> u64 \<Rightarrow> u32 option) \<Rightarrow> (u32 \<times> u64) list \<Rightarrow> move_candidate \<Rightarrow> config \<Rightarrow> f64" where
  "distance_score distance targets candidate c =
     foldl (\<lambda>total (qid, target_enc).
        case location_of c qid of
          None \<Rightarrow> total
        | Some before \<Rightarrow>
            (case location_of (mc_new_config candidate) qid of
               None \<Rightarrow> total
             | Some after \<Rightarrow>
                 let d = \<lambda>l. f64_of_nat (case distance (location_encode l) target_enc of
                               Some k \<Rightarrow> unat k | None \<Rightarrow> u32_max)
                 in fadd total (fsub (d before) (d after)))) pos_zero targets"

section \<open>Results of a search\<close>

definition extract_result :: "search_result \<Rightarrow> u32 \<Rightarrow> u32 option \<Rightarrow> 'tr solve_result outcome option" where
  "extract_result result deadlocks max_exp =
     (case sr_goal result of
        Some goal_id \<Rightarrow>
          and_then (case solution_path result of None \<Rightarrow> Some (Returned []) | Some path \<Rightarrow> path) (\<lambda>move_layers.
          and_then (Some (graph_config (sr_graph result) goal_id)) (\<lambda>goal_config.
          and_then (Some (graph_g_score (sr_graph result) goal_id)) (\<lambda>cost.
            Some (Returned (solve_solved goal_config move_layers cost (sr_nodes_expanded result) deadlocks)))))
      | None \<Rightarrow>
          and_then (Some (graph_config (sr_graph result) 0)) (\<lambda>root_config.
            Some (Returned (solve_unsolved
              (if reached max_exp (sr_nodes_expanded result) then BudgetExceeded else Unsolvable)
              root_config (sr_nodes_expanded result) deadlocks))))"

text \<open>\<open>min_by\<close> keeps the first of equal results; solved ones come first, then the lowest cost.\<close>
definition pick_key :: "'tr solve_result \<Rightarrow> nat \<times> f64" where
  "pick_key r = (if sv_status r = Solved then 0 else 1, sv_cost r)"

definition pick_best :: "'tr solve_result list \<Rightarrow> 'tr solve_result outcome" where
  "pick_best results =
     (case results of [] \<Rightarrow> Panicked
      | r # rs \<Rightarrow> Returned (foldl (\<lambda>m y. if pick_key y < pick_key m then y else m) r rs))"

section \<open>Dispatch\<close>

text \<open>A generator with its own state, the search state included, as a fresh one starts.\<close>
record 's move_generator =
  mg_generate :: "config \<Rightarrow> nat \<Rightarrow> 's \<Rightarrow> move_candidate list \<times> 's"
  mg_initial :: 's
  mg_deadlock_count :: "'s \<Rightarrow> u32"

record ('s, 'tr) solver_parts =
  sp_root :: config
  sp_goal :: "config \<Rightarrow> bool"
  sp_make_generator :: "u64 \<Rightarrow> deadlock_policy \<Rightarrow> 's move_generator"
  sp_h_max :: heuristic
  sp_h_sum :: heuristic
  sp_score :: "move_candidate \<Rightarrow> config \<Rightarrow> f64"
  sp_entropy :: "u64 \<Rightarrow> u32 option \<Rightarrow> (search_result \<times> 'tr option) outcome option"

definition problem_of ::
  "('s, 'tr) solver_parts \<Rightarrow> 's move_generator \<Rightarrow> u32 option \<Rightarrow> u32 option \<Rightarrow> 's search_problem" where
  "problem_of S g budget depth =
     \<lparr>generate = mg_generate g, score = sp_score S, edge_cost = uniform_edge_cost, is_goal = sp_goal S,
      max_expansions = budget, max_depth = depth\<rparr>"

text \<open>A call of \<open>run_search\<close> with a fresh generator and frontier, and the extraction of its result.\<close>
definition search_with ::
  "('s, 'tr) solver_parts \<Rightarrow> 's move_generator \<Rightarrow> 'f frontier_ops \<Rightarrow> 'f \<Rightarrow> u32 option \<Rightarrow> u32 option \<Rightarrow>
   'tr solve_result outcome option" where
  "search_with S g F f budget depth =
     and_then (run_search (problem_of S g budget depth) F (sp_root S) f (mg_initial g))
       (\<lambda>(result, f', st, events). extract_result result (mg_deadlock_count g st) budget)"

definition run_strategy_v2 ::
  "('s, 'tr) solver_parts \<Rightarrow> strategy \<Rightarrow> 's move_generator \<Rightarrow> f64 \<Rightarrow> u32 option \<Rightarrow> 'tr solve_result outcome option" where
  "run_strategy_v2 S strategy g weight budget =
     (case strategy of
        AStar \<Rightarrow> search_with S g (priority_ops (sp_h_max S)) (astar_frontier weight) budget None
      | Bfs \<Rightarrow> search_with S g bfs_ops [] budget None
      | GreedyBestFirst \<Rightarrow> search_with S g (priority_ops (sp_h_max S)) greedy_frontier budget None
      | _ \<Rightarrow> Some Panicked)"

definition run_inner ::
  "('s, 'tr) solver_parts \<Rightarrow> deadlock_policy \<Rightarrow> inner_strategy \<Rightarrow> u64 \<Rightarrow> u32 option \<Rightarrow> 'tr solve_result outcome option" where
  "run_inner S policy inner seed budget =
     (case inner of
        InnerIds \<Rightarrow> search_with S (sp_make_generator S seed policy) (ids_ops (sp_h_sum S)) ids_new budget None
      | InnerDfs \<Rightarrow> search_with S (sp_make_generator S seed policy) (dfs_ops (sp_h_sum S)) [] budget None
      | InnerEntropy \<Rightarrow>
          and_then (sp_entropy S seed budget) (\<lambda>(result, trace).
          and_then (extract_result result 0 budget) (\<lambda>solve. Some (Returned (solve\<lparr>sv_entropy_trace := trace\<rparr>)))))"

text \<open>The runs of the restarts, in order; the code runs them in parallel and collects in order.\<close>
fun collect_runs :: "('a \<Rightarrow> 'b outcome option) \<Rightarrow> 'a list \<Rightarrow> 'b list outcome option" where
  "collect_runs f [] = Some (Returned [])"
| "collect_runs f (x # xs) = and_then (f x) (\<lambda>y. and_then (collect_runs f xs) (\<lambda>ys. Some (Returned (y # ys))))"

definition saturating_add :: "u64 \<Rightarrow> u64 \<Rightarrow> u64" where
  "saturating_add a b = (if unat a + unat b < 2 ^ 64 then a + b else 0xFFFFFFFFFFFFFFFF)"

definition with_restarts ::
  "u32 \<Rightarrow> u64 \<Rightarrow> (u64 \<Rightarrow> 'tr solve_result outcome option) \<Rightarrow> 'tr solve_result outcome option" where
  "with_restarts restarts base_seed run =
     (if restarts \<le> 1 then run base_seed
      else let start = max base_seed 1
           in and_then (collect_runs (\<lambda>i. run (saturating_add start (of_nat i))) [0..<unat restarts])
                (\<lambda>results. Some (pick_best results)))"

text \<open>\<open>cost.ceil() as u32\<close>, a saturating cast.\<close>
definition ceil_u32 :: "f64 \<Rightarrow> u32" where
  "ceil_u32 x =
     (if is_nan x \<or> sign_bit x then 0
      else of_int (min (2 ^ 32 - 1) (- ((- (significand x * 2 ^ scale x)) div 2 ^ 1074))))"

definition run_once ::
  "('s, 'tr) solver_parts \<Rightarrow> solve_options \<Rightarrow> u32 option \<Rightarrow> u64 \<Rightarrow> 'tr solve_result outcome option" where
  "run_once S opts budget seed =
     (case so_strategy opts of
        Entropy \<Rightarrow> run_inner S (so_deadlock_policy opts) InnerEntropy seed budget
      | Ids \<Rightarrow> run_inner S (so_deadlock_policy opts) InnerIds seed budget
      | HeuristicDfs \<Rightarrow> run_inner S (so_deadlock_policy opts) InnerDfs seed budget
      | strategy \<Rightarrow>
          run_strategy_v2 S strategy (sp_make_generator S seed MoveBlockers) (so_weight opts) budget)"

definition run_cascade ::
  "('s, 'tr) solver_parts \<Rightarrow> solve_options \<Rightarrow> u32 option \<Rightarrow> u64 \<Rightarrow> inner_strategy \<Rightarrow> 'tr solve_result outcome option" where
  "run_cascade S opts budget base_seed inner =
     and_then (with_restarts (so_restarts opts) base_seed
         (\<lambda>seed. run_inner S (so_deadlock_policy opts) inner seed budget)) (\<lambda>inner_result.
       if sv_status inner_result \<noteq> Solved then Some (Returned inner_result)
       else and_then (search_with S (sp_make_generator S 0 MoveBlockers) (priority_ops (sp_h_max S))
               (astar_frontier (so_weight opts)) budget (Some (ceil_u32 (sv_cost inner_result)))) (\<lambda>astar_solve.
            if sv_status astar_solve = Solved then Some (pick_best [inner_result, astar_solve])
            else Some (Returned inner_result)))"

definition run_with_components ::
  "('s, 'tr) solver_parts \<Rightarrow> solve_options \<Rightarrow> u32 option \<Rightarrow> u64 \<Rightarrow> 'tr solve_result outcome option" where
  "run_with_components S opts budget base_seed =
     (case so_strategy opts of
        Cascade inner \<Rightarrow> run_cascade S opts budget base_seed inner
      | _ \<Rightarrow> with_restarts (so_restarts opts) base_seed (run_once S opts budget))"

section \<open>One search\<close>

definition wf_generator :: "'s search_problem \<Rightarrow> bool" where
  "wf_generator P \<longleftrightarrow> (\<forall>c cand. config_wf c \<longrightarrow> offers P c cand \<longrightarrow> config_wf (mc_new_config cand))"

text \<open>No reachable configuration is a goal.\<close>
definition no_solution :: "'s search_problem \<Rightarrow> config \<Rightarrow> bool" where
  "no_solution P root \<longleftrightarrow> (\<forall>ms c. reaches P root ms c \<longrightarrow> \<not> is_goal P c)"

text \<open>What a result says, for the generator it was found with.\<close>
definition solve_ok :: "'s search_problem \<Rightarrow> config \<Rightarrow> 'tr solve_result outcome \<Rightarrow> bool" where
  "solve_ok P root r \<longleftrightarrow>
     (case r of
        Panicked \<Rightarrow> full_graph P root
      | Returned s \<Rightarrow>
          within (max_expansions P) (sv_nodes_expanded s)
          \<and> (case sv_status s of
               Solved \<Rightarrow> reaches P root (sv_move_layers s) (sv_goal_config s) \<and> is_goal P (sv_goal_config s)
             | Unsolvable \<Rightarrow> sv_goal_config s = root \<and> sv_move_layers s = []
                 \<and> (stateless P \<and> wf_generator P \<and> config_wf root \<and> unlimited_depth P \<longrightarrow> no_solution P root)
             | BudgetExceeded \<Rightarrow> sv_goal_config s = root \<and> sv_move_layers s = []
                 \<and> max_expansions P = Some (sv_nodes_expanded s)))"

lemma reached_within: "reached l x \<Longrightarrow> within l x \<Longrightarrow> l = Some x"
  by (auto simp: reached_def within_def split: option.splits)

lemma finish_extract:
  assumes fin: "finish_ok P root (Returned (res, f, st, evs))"
  shows "\<exists>s. extract_result res d (max_expansions P) = Some (Returned s) \<and> solve_ok P root (Returned s)"
proof (cases "sr_goal res")
  case (Some i)
  obtain ms where ms: "solution_path res = Some (Some (Returned ms))"
      "reaches P root ms (nd_config (sg_nodes (sr_graph res) ! i))" "i < graph_len (sr_graph res)"
      "is_goal P (nd_config (sg_nodes (sr_graph res) ! i))"
    using finish_path[OF fin Some] by blast
  have "within (max_expansions P) (sr_nodes_expanded res)" using fin by (auto simp: finish_ok_def)
  with ms show ?thesis by (simp add: extract_result_def Some solve_ok_def solve_solved_def)
next
  case None
  have sound: "graph_sound P root (sr_graph res)" and limit: "within (max_expansions P) (sr_nodes_expanded res)"
    and sat: "stateless P \<Longrightarrow> unlimited_depth P \<Longrightarrow> \<not> reached (max_expansions P) (sr_nodes_expanded res) \<Longrightarrow>
      saturated P (sr_graph res)"
    using fin None by (auto simp: finish_ok_def)
  have "no_solution P root"
    if unreached: "\<not> reached (max_expansions P) (sr_nodes_expanded res)" "stateless P" "unlimited_depth P"
      and gen: "wf_generator P" and wf: "config_wf root"
    unfolding no_solution_def
  proof (intro allI impI)
    note satd = sat[OF unreached(2,3,1)]
    fix ms c assume "reaches P root ms c"
    then have "\<exists>i < graph_len (sr_graph res). nd_config (sg_nodes (sr_graph res) ! i) = c"
      using saturated_reaches[OF sound satd wf] gen by (simp add: wf_generator_def)
    then show "\<not> is_goal P c" using satd by (auto simp: saturated_def)
  qed
  moreover have "0 < graph_len (sr_graph res)" "nd_config (sg_nodes (sr_graph res) ! 0) = root"
    using sound by (simp_all add: graph_sound_def graph_wf_def)
  ultimately show ?thesis
    using None limit reached_within[OF _ limit] by (simp add: extract_result_def solve_ok_def solve_unsolved_def)
qed

context frontier
begin

lemma search_with_ok:
  assumes "held f = {#}"
  shows "\<exists>r. search_with S g ops f budget depth = Some r \<and> solve_ok (problem_of S g budget depth) (sp_root S) r"
proof -
  let ?P = "problem_of S g budget depth"
  obtain r where r: "run_search ?P ops (sp_root S) f (mg_initial g) = Some r" "finish_ok ?P (sp_root S) r"
    using run_search_finishes[where ?f = f and ?P = ?P, OF assms] by blast
  show ?thesis
  proof (cases r)
    case Panicked
    then show ?thesis using r by (simp add: search_with_def solve_ok_def finish_ok_def)
  next
    case (Returned x)
    then obtain res f' st evs where x: "r = Returned (res, f', st, evs)" by (cases x) auto
    have "max_expansions ?P = budget" by (simp add: problem_of_def)
    then show ?thesis
      using finish_extract[OF r(2)[unfolded x], of "mg_deadlock_count g st"] r(1) x by (auto simp: search_with_def)
  qed
qed

end

section \<open>Restarts and cascades\<close>

lemma collect_runs_ok:
  assumes "\<And>x. x \<in> set xs \<Longrightarrow> \<exists>r. f x = Some r \<and> Q r"
  shows "\<exists>r. collect_runs f xs = Some r
    \<and> (case r of Panicked \<Rightarrow> Q Panicked | Returned ys \<Rightarrow> length ys = length xs \<and> (\<forall>y \<in> set ys. Q (Returned y)))"
  using assms
proof (induction xs)
  case (Cons x xs)
  obtain r where r: "f x = Some r" "Q r" using Cons.prems[of x] by auto
  obtain rs where rs: "collect_runs f xs = Some rs"
      "case rs of Panicked \<Rightarrow> Q Panicked | Returned ys \<Rightarrow> length ys = length xs \<and> (\<forall>y \<in> set ys. Q (Returned y))"
    using Cons by auto
  then show ?case using r by (cases r; cases rs) auto
qed simp

lemma pick_best_in: "rs \<noteq> [] \<Longrightarrow> \<exists>s. pick_best rs = Returned s \<and> s \<in> set rs \<and> (\<forall>r \<in> set rs. pick_key s \<le> pick_key r)"
proof (induction rs rule: rev_induct)
  case (snoc y ys)
  show ?case
  proof (cases ys)
    case Nil
    then show ?thesis by (simp add: pick_best_def)
  next
    case (Cons x xs)
    then obtain s where s: "pick_best ys = Returned s" "s \<in> set ys" "\<forall>r \<in> set ys. pick_key s \<le> pick_key r"
      using snoc.IH by blast
    then have "pick_best (ys @ [y]) = Returned (if pick_key y < pick_key s then y else s)"
      by (simp add: pick_best_def Cons)
    then show ?thesis using s by (auto intro: order_trans[OF order_less_imp_le])
  qed
qed simp

lemma with_restarts_ok:
  assumes "\<And>seed. \<exists>r. run seed = Some r \<and> Q r"
  shows "\<exists>r. with_restarts restarts base_seed run = Some r \<and> Q r"
proof (cases "restarts \<le> 1")
  case True
  then show ?thesis using assms by (simp add: with_restarts_def)
next
  case False
  then have "1 < unat restarts" by (simp add: word_le_nat_alt)
  then have n: "[0..<unat restarts] \<noteq> []" by simp
  define f where "f = (\<lambda>i. run (saturating_add (max base_seed 1) (of_nat i)))"
  have unfold: "with_restarts restarts base_seed run =
      and_then (collect_runs f [0..<unat restarts]) (\<lambda>results. Some (pick_best results))"
    using False by (simp add: with_restarts_def f_def Let_def)
  obtain rs where rs: "collect_runs f [0..<unat restarts] = Some rs"
      "case rs of Panicked \<Rightarrow> Q Panicked
        | Returned ys \<Rightarrow> length ys = length [0..<unat restarts] \<and> (\<forall>y \<in> set ys. Q (Returned y))"
    using collect_runs_ok[of "[0..<unat restarts]" f Q] assms unfolding f_def by blast
  show ?thesis
  proof (cases rs)
    case (Returned ys)
    have ys: "length ys = length [0..<unat restarts]" "\<forall>y \<in> set ys. Q (Returned y)"
      using rs(2) unfolding Returned outcome.case by blast+
    then have "ys \<noteq> []" using n by (metis length_0_conv)
    then obtain s where s: "pick_best ys = Returned s" "s \<in> set ys" using pick_best_in by blast
    then have "Q (Returned s)" using ys(2) by blast
    then show ?thesis unfolding unfold rs(1) Returned by (simp add: s(1))
  next
    case Panicked
    then have "Q Panicked" using rs(2) by (simp only: outcome.case)
    then show ?thesis unfolding unfold rs(1) Panicked by simp
  qed
qed

section \<open>The dispatch\<close>

text \<open>The problem that a generator of the factory poses; limits do not change what it offers.\<close>
definition poses :: "('s, 'tr) solver_parts \<Rightarrow> u64 \<Rightarrow> deadlock_policy \<Rightarrow> 's search_problem" where
  "poses S seed policy = problem_of S (sp_make_generator S seed policy) None None"

definition uses_entropy :: "strategy \<Rightarrow> bool" where
  "uses_entropy s = (case s of Entropy \<Rightarrow> True | Cascade i \<Rightarrow> i = InnerEntropy | _ \<Rightarrow> False)"

text \<open>What a result of the dispatch says, for the generator of some seed and policy.\<close>
definition run_ok :: "('s, 'tr) solver_parts \<Rightarrow> u32 option \<Rightarrow> 'tr solve_result outcome \<Rightarrow> bool" where
  "run_ok S budget r \<longleftrightarrow>
     (\<exists>seed policy. let P = poses S seed policy; root = sp_root S in
       (case r of
        Panicked \<Rightarrow> full_graph P root
      | Returned s \<Rightarrow>
          within budget (sv_nodes_expanded s)
          \<and> (case sv_status s of
               Solved \<Rightarrow> reaches P root (sv_move_layers s) (sv_goal_config s) \<and> is_goal P (sv_goal_config s)
             | Unsolvable \<Rightarrow> sv_goal_config s = root \<and> sv_move_layers s = []
                 \<and> (stateless P \<and> wf_generator P \<and> config_wf root \<longrightarrow> no_solution P root)
             | BudgetExceeded \<Rightarrow> sv_goal_config s = root \<and> sv_move_layers s = []
                 \<and> budget = Some (sv_nodes_expanded s))))"

lemma offers_problem: "offers (problem_of S g b d) = offers (problem_of S g None None)"
  by (simp add: offers_def problem_of_def fun_eq_iff)

lemma reaches_mono: "offers P = offers Q \<Longrightarrow> reaches P root ms c \<Longrightarrow> reaches Q root ms c"
proof (rotate_tac, induction rule: reaches.induct)
  case (move ms c cand)
  then show ?case by (intro reaches.move) simp_all
qed (rule reaches.start)

lemma reaches_problem: "reaches (problem_of S g b d) = reaches (problem_of S g None None)"
  using reaches_mono[OF offers_problem] reaches_mono[OF offers_problem[symmetric]] by (intro ext) blast

lemma problem_facts:
  "stateless (problem_of S g b d) = stateless (problem_of S g None None)"
  "wf_generator (problem_of S g b d) = wf_generator (problem_of S g None None)"
  "full_graph (problem_of S g b d) root = full_graph (problem_of S g None None) root"
  "no_solution (problem_of S g b d) root = no_solution (problem_of S g None None) root"
  "is_goal (problem_of S g b d) = sp_goal S" "max_expansions (problem_of S g b d) = b" "max_depth (problem_of S g b d) = d"
  unfolding wf_generator_def full_graph_def no_solution_def graph_sound_def edge_ok_def
    reaches_problem[of S g b d] offers_problem[of S g b d]
  by (simp_all add: stateless_def problem_of_def)

lemma solve_run_ok:
  assumes "solve_ok (problem_of S (sp_make_generator S seed policy) budget None) (sp_root S) r"
  shows "run_ok S budget r"
  using assms unfolding run_ok_def solve_ok_def poses_def Let_def unlimited_depth_def
    problem_facts[where b = budget] reaches_problem[where b = budget]
  by (intro exI[of _ seed] exI[of _ policy]) (simp add: problem_facts(5) split: outcome.splits solve_status.splits)

lemma run_inner_ok:
  "inner \<noteq> InnerEntropy \<Longrightarrow> \<exists>r. run_inner S policy inner seed budget = Some r \<and> run_ok S budget r"
  using ids.search_with_ok[of ids_new S "sp_make_generator S seed policy" "sp_h_sum S" budget None]
    dfs.search_with_ok[of "[]" S "sp_make_generator S seed policy" "sp_h_sum S" budget None]
    solve_run_ok[of S seed policy budget]
  by (cases inner) (auto simp: run_inner_def ids_held_def ids_new_def)

lemma run_strategy_ok:
  "strategy \<in> {AStar, Bfs, GreedyBestFirst} \<Longrightarrow>
   \<exists>r. run_strategy_v2 S strategy (sp_make_generator S seed policy) weight budget = Some r \<and> run_ok S budget r"
  using priority.search_with_ok[of "astar_frontier weight" S "sp_make_generator S seed policy" "sp_h_max S" budget None]
    priority.search_with_ok[of greedy_frontier S "sp_make_generator S seed policy" "sp_h_max S" budget None]
    bfs.search_with_ok[of "[]" S "sp_make_generator S seed policy" budget None]
    solve_run_ok[of S seed policy budget]
  by (auto simp: run_strategy_v2_def priority_held_def astar_frontier_def greedy_frontier_def)

lemma run_once_ok:
  assumes "\<not> uses_entropy (so_strategy opts)" "\<And>i. so_strategy opts \<noteq> Cascade i"
  shows "\<exists>r. run_once S opts budget seed = Some r \<and> run_ok S budget r"
  using assms run_inner_ok[of InnerIds] run_inner_ok[of InnerDfs]
    run_strategy_ok[of "so_strategy opts" S seed MoveBlockers "so_weight opts" budget]
  by (cases "so_strategy opts") (auto simp: run_once_def uses_entropy_def)

text \<open>A depth limit weakens only what an unsolved result says.\<close>
lemma solve_run_ok_depth:
  assumes "solve_ok (problem_of S (sp_make_generator S seed policy) budget depth) (sp_root S) r"
    "case r of Panicked \<Rightarrow> True | Returned s \<Rightarrow> sv_status s = Solved"
  shows "run_ok S budget r"
  using assms unfolding run_ok_def solve_ok_def poses_def Let_def
    problem_facts[where b = budget] reaches_problem[where b = budget]
  by (intro exI[of _ seed] exI[of _ policy]) (simp add: problem_facts(5) split: outcome.splits)

lemma run_ok_pick:
  assumes "run_ok S budget (Returned a)" "run_ok S budget (Returned b)"
  shows "\<exists>s. pick_best [a, b] = Returned s \<and> run_ok S budget (Returned s)"
  using assms pick_best_in[of "[a, b]"] by auto

lemma run_cascade_ok:
  assumes "inner \<noteq> InnerEntropy"
  shows "\<exists>r. run_cascade S opts budget seed inner = Some r \<and> run_ok S budget r"
proof -
  let ?run = "\<lambda>seed. run_inner S (so_deadlock_policy opts) inner seed budget"
  obtain r where r: "with_restarts (so_restarts opts) seed ?run = Some r" "run_ok S budget r"
    using with_restarts_ok[of ?run "run_ok S budget" "so_restarts opts" seed] run_inner_ok[OF assms] by blast
  show ?thesis
  proof (cases r)
    case (Returned a)
    show ?thesis
    proof (cases "sv_status a = Solved")
      case True
      let ?search = "search_with S (sp_make_generator S 0 MoveBlockers) (priority_ops (sp_h_max S))
               (astar_frontier (so_weight opts)) budget (Some (ceil_u32 (sv_cost a)))"
      have casc: "run_cascade S opts budget seed inner = and_then ?search (\<lambda>b.
          if sv_status b = Solved then Some (pick_best [a, b]) else Some (Returned a))"
        using r(1) True Returned by (simp add: run_cascade_def)
      have "priority_held (astar_frontier (so_weight opts)) = {#}"
        by (simp add: priority_held_def astar_frontier_def)
      from priority.search_with_ok[OF this] obtain t where t: "?search = Some t"
          "solve_ok (problem_of S (sp_make_generator S 0 MoveBlockers) budget (Some (ceil_u32 (sv_cost a)))) (sp_root S) t"
        by blast
      show ?thesis
      proof (cases t)
        case Panicked
        then show ?thesis using casc t solve_run_ok_depth[OF t(2)] by simp
      next
        case tb: (Returned b)
        show ?thesis
        proof (cases "sv_status b = Solved")
          case True
          then have "run_ok S budget (Returned b)" using solve_run_ok_depth[OF t(2)] tb by simp
          then obtain s where "pick_best [a, b] = Returned s" "run_ok S budget (Returned s)"
            using run_ok_pick r(2) Returned by blast
          then show ?thesis using casc t(1) tb True by simp
        qed (use casc t(1) tb r(2) Returned in simp)
      qed
    qed (use r Returned in \<open>simp add: run_cascade_def\<close>)
  qed (use r in \<open>simp add: run_cascade_def\<close>)
qed

lemma run_with_components_ok:
  assumes "\<not> uses_entropy (so_strategy opts)"
  shows "\<exists>r. run_with_components S opts budget seed = Some r \<and> run_ok S budget r"
proof (cases "\<exists>i. so_strategy opts = Cascade i")
  case True
  then obtain i where i: "so_strategy opts = Cascade i" by blast
  then have "i \<noteq> InnerEntropy" using assms by (simp add: uses_entropy_def)
  from run_cascade_ok[OF this] show ?thesis by (simp add: run_with_components_def i)
next
  case False
  then have "run_with_components S opts budget seed =
      with_restarts (so_restarts opts) seed (run_once S opts budget)"
    by (simp add: run_with_components_def split: strategy.split)
  moreover have "\<exists>r. with_restarts (so_restarts opts) seed (run_once S opts budget) = Some r \<and> run_ok S budget r"
    by (rule with_restarts_ok) (use run_once_ok[OF assms] False in blast)
  ultimately show ?thesis by simp
qed

section \<open>A small instance\<close>

text \<open>One qubit with the moves that are given, the same from everywhere, to use in the witnesses.\<close>
definition config_at :: "u64 \<Rightarrow> config" where
  "config_at l = \<lparr>entries = [(0, l)], cached_hash = hash_entries [(0, l)]\<rparr>"

definition small_parts :: "move_candidate list \<Rightarrow> (config \<Rightarrow> bool) \<Rightarrow> (unit, unit) solver_parts" where
  "small_parts moves goal =
     \<lparr>sp_root = config_at 5, sp_goal = goal,
      sp_make_generator = (\<lambda>seed policy.
        \<lparr>mg_generate = (\<lambda>c i s. (moves, s)),
         mg_initial = (), mg_deadlock_count = (\<lambda>s. 0)\<rparr>),
      sp_h_max = (\<lambda>c. pos_zero), sp_h_sum = (\<lambda>c. pos_zero), sp_score = (\<lambda>m c. pos_zero),
      sp_entropy = (\<lambda>seed budget. None)\<rparr>"

definition one_move_parts :: "(config \<Rightarrow> bool) \<Rightarrow> (unit, unit) solver_parts" where
  "one_move_parts = small_parts [\<lparr>mc_move_set = MoveSet [1], mc_new_config = config_at 7\<rparr>]"

definition solved_at_7 :: "config \<Rightarrow> bool" where "solved_at_7 c \<longleftrightarrow> entries c = [(0, 7)]"

lemma one_move_cost: "fadd pos_zero f64_one = f64_one"
  by code_simp

definition one_move_problem :: "unit search_problem" where
  "one_move_problem = poses (one_move_parts solved_at_7) 0 MoveBlockers"

definition one_move_graph :: search_graph where
  "one_move_graph =
     \<lparr>sg_nodes = [\<lparr>nd_config = config_at 5, nd_parent = None, nd_parent_move = None, nd_g_score = pos_zero, nd_depth = 0\<rparr>,
        \<lparr>nd_config = config_at 7, nd_parent = Some 0, nd_parent_move = Some (MoveSet [1]), nd_g_score = f64_one, nd_depth = 1\<rparr>],
      sg_seen = [[(0, 5)] \<mapsto> 0, [(0, 7)] \<mapsto> 1]\<rparr>"

lemma one_move_step:
  "search_step one_move_problem bfs_ops (search_start (config_at 5) [0] ()) = Inr (Returned
      (\<lparr>sr_goal = Some 1, sr_nodes_expanded = 1, sr_max_depth_reached = 1, sr_graph = one_move_graph\<rparr>,
       [], (), [NodeExpanded 0 1 0 (config_at 5), GoalFound 1 1 (config_at 7)]))"
  by (simp add: one_move_problem_def poses_def problem_of_def one_move_parts_def
      small_parts_def bfs_ops_def search_step_def
      search_start_def reached_def resize_closed_def graph_new_def node_at_def list_get_def expand_node_def
      sort_candidates_def sort_by_def graph_insert_def known_node_def seen_id_def graph_depth_def config_at_def
      uniform_edge_cost_def one_move_cost child_closed_def solved_at_7_def stop_search_def one_move_graph_def Let_def)

lemma one_move_path: "reconstruct_path one_move_graph 1 = Some (Returned [MoveSet [1]])"
  by (simp add: reconstruct_path_def one_move_graph_def path_step_def node_at_def list_get_def iterate.simps)

lemma one_move_extract:
  "extract_result \<lparr>sr_goal = Some (Suc 0), sr_nodes_expanded = 1, sr_max_depth_reached = 1, sr_graph = one_move_graph\<rparr> 0 None =
   Some (Returned (solve_solved (config_at 7) [MoveSet [1]] f64_one 1 0))"
  using one_move_path
  by (simp add: extract_result_def solution_path_def graph_config_def graph_g_score_def node_at_def list_get_def)
    (simp add: one_move_graph_def)

lemma one_move_solved:
  "run_with_components (one_move_parts solved_at_7) (default_options\<lparr>so_strategy := Bfs\<rparr>) None 0 =
   Some (Returned (solve_solved (config_at 7) [MoveSet [1]] f64_one 1 0))"
proof -
  have run: "run_search one_move_problem bfs_ops (config_at 5) [] () = Some (Returned
      (\<lparr>sr_goal = Some 1, sr_nodes_expanded = 1, sr_max_depth_reached = 1, sr_graph = one_move_graph\<rparr>,
       [], (), [NodeExpanded 0 1 0 (config_at 5), GoalFound 1 1 (config_at 7)]))"
    using iterate_Inr[of "search_step one_move_problem bfs_ops", OF one_move_step]
    by (simp add: run_search_def bfs_ops_def one_move_problem_def poses_def problem_of_def one_move_parts_def small_parts_def
        solved_at_7_def config_at_def)
  have parts: "sp_root (one_move_parts solved_at_7) = config_at 5"
      "mg_initial (sp_make_generator (one_move_parts solved_at_7) 0 MoveBlockers) = ()"
      "mg_deadlock_count (sp_make_generator (one_move_parts solved_at_7) 0 MoveBlockers) () = 0"
    by (simp_all add: one_move_parts_def small_parts_def)
  show ?thesis
    using run one_move_extract
    by (simp add: run_with_components_def default_options_def with_restarts_def run_once_def run_strategy_v2_def
        search_with_def one_move_problem_def poses_def parts)
qed

section \<open>Properties\<close>

text \<open>C13. Every strategy but the entropy search ends: with any generator, goal, heuristic, budget and number of
  restarts the solver returns a result, or panics, and it can panic only on a search graph that has
  2^32 nodes, each the result of an offered move.  The limit on expansions holds for the result.\<close>
theorem solve_terminates:
  assumes "\<not> uses_entropy (so_strategy opts)"
  shows "\<exists>r. run_with_components S opts budget seed = Some r
    \<and> (case r of
         Panicked \<Rightarrow> \<exists>seed policy. full_graph (poses S seed policy) (sp_root S)
       | Returned s \<Rightarrow> within budget (sv_nodes_expanded s)
           \<and> (sv_status s = BudgetExceeded \<longrightarrow> budget = Some (sv_nodes_expanded s)))"
proof -
  obtain r where r: "run_with_components S opts budget seed = Some r" "run_ok S budget r"
    using run_with_components_ok[OF assms] by blast
  show ?thesis
  proof (cases r)
    case (Returned s)
    then show ?thesis using r by (auto simp: run_ok_def Let_def split: solve_status.splits)
  next
    case Panicked
    then show ?thesis using r by (auto simp: run_ok_def Let_def)
  qed
qed

theorem solve_terminates_witness:
  "\<exists>r. run_with_components (one_move_parts solved_at_7) default_options (Some 3) 0 = Some r"
  using solve_terminates[of default_options "one_move_parts solved_at_7" "Some 3" 0]
  by (auto simp: uses_entropy_def default_options_def)

text \<open>C12. A solved result of any strategy but the entropy search is a solution: its move layers, applied in order from the root, are moves that
  the generator offers, they lead to the goal configuration it returns, and that one is a goal.\<close>
theorem solved_is_reached:
  assumes "\<not> uses_entropy (so_strategy opts)" "run_with_components S opts budget seed = Some (Returned s)"
    "sv_status s = Solved"
  shows "sp_goal S (sv_goal_config s)
    \<and> (\<exists>seed policy. reaches (poses S seed policy) (sp_root S) (sv_move_layers s) (sv_goal_config s))"
  using run_with_components_ok[OF assms(1), of S budget seed] assms(2,3)
  by (auto simp: run_ok_def Let_def poses_def problem_facts(5))

theorem solved_is_reached_witness:
  "solved_at_7 (config_at 7)
   \<and> (\<exists>seed policy. reaches (poses (one_move_parts solved_at_7) seed policy) (config_at 5) [MoveSet [1]] (config_at 7))"
proof -
  have parts: "sp_goal (one_move_parts solved_at_7) = solved_at_7" "sp_root (one_move_parts solved_at_7) = config_at 5"
    by (simp_all add: one_move_parts_def small_parts_def)
  show ?thesis
    using solved_is_reached[OF _ one_move_solved] unfolding parts
    by (simp add: uses_entropy_def default_options_def solve_solved_def)
qed

text \<open>C14. \<open>Unsolvable\<close> is a proof: when the generators keep no state, a search other than the entropy search reports it only if no
  configuration that they can reach from the root is a goal, whatever the frontier, the costs, the
  heuristic and the budget.  It then returns the root and no moves.\<close>
theorem unsolvable_is_exhaustive:
  assumes "\<not> uses_entropy (so_strategy opts)" "run_with_components S opts budget seed = Some (Returned s)"
    "sv_status s = Unsolvable" "config_wf (sp_root S)"
    "\<And>seed policy. stateless (poses S seed policy) \<and> wf_generator (poses S seed policy)"
  shows "sv_goal_config s = sp_root S \<and> sv_move_layers s = []
    \<and> (\<exists>seed policy. no_solution (poses S seed policy) (sp_root S))"
  using run_with_components_ok[OF assms(1), of S budget seed] assms(2-5)
  by (auto simp: run_ok_def Let_def)

lemma no_move_unsolvable:
  "run_with_components (small_parts [] solved_at_7) (default_options\<lparr>so_strategy := Bfs\<rparr>) None 0 =
   Some (Returned (solve_unsolvable (config_at 5)\<lparr>sv_nodes_expanded := 1\<rparr>))"
proof -
  define P where "P = poses (small_parts [] solved_at_7) 0 MoveBlockers"
  note defs = P_def poses_def problem_of_def small_parts_def bfs_ops_def
  define s1 where "s1 = (search_start (config_at 5) ([] :: nat list) ())\<lparr>ss_nodes_expanded := 1,
    ss_closed := (replicate 64 False)[0 := True], ss_events := [NodeExpanded 0 0 0 (config_at 5)]\<rparr>"
  let ?res = "\<lparr>sr_goal = None, sr_nodes_expanded = 1, sr_max_depth_reached = 0, sr_graph = graph_new (config_at 5)\<rparr>"
  have "search_step P bfs_ops (search_start (config_at 5) [0] ()) = Inl s1"
    by (simp add: defs search_step_def search_start_def reached_def resize_closed_def graph_new_def node_at_def list_get_def
      expand_node_def sort_candidates_def sort_by_def config_at_def solved_at_7_def s1_def Let_def)
  moreover have "search_step P bfs_ops s1 = Inr (Returned (?res, [], (), [NodeExpanded 0 0 0 (config_at 5)]))"
    by (simp add: defs search_step_def s1_def search_start_def stop_search_def)
  ultimately have "iterate (search_step P bfs_ops) (search_start (config_at 5) [0] ()) =
      Some (Returned (?res, [], (), [NodeExpanded 0 0 0 (config_at 5)]))"
    by (simp add: iterate_Inl iterate_Inr)
  then have run: "run_search P bfs_ops (config_at 5) [] () = Some (Returned (?res, [], (), [NodeExpanded 0 0 0 (config_at 5)]))"
    by (simp add: run_search_def defs solved_at_7_def config_at_def)
  have parts: "sp_root (small_parts [] solved_at_7) = config_at 5"
      "mg_initial (sp_make_generator (small_parts [] solved_at_7) 0 MoveBlockers) = ()"
      "mg_deadlock_count (sp_make_generator (small_parts [] solved_at_7) 0 MoveBlockers) () = 0"
    by (simp_all add: small_parts_def)
  show ?thesis
    using run
    by (simp add: run_with_components_def default_options_def with_restarts_def run_once_def run_strategy_v2_def
        search_with_def P_def poses_def parts extract_result_def reached_def solve_unsolvable_def solve_unsolved_def)
qed

theorem unsolvable_is_exhaustive_witness:
  "\<exists>seed policy. no_solution (poses (small_parts [] solved_at_7) seed policy) (config_at 5)"
proof -
  have "config_wf (sp_root (small_parts [] solved_at_7))" by (simp add: small_parts_def config_at_def config_wf_def)
  moreover have "stateless (poses (small_parts [] solved_at_7) seed policy)
      \<and> wf_generator (poses (small_parts [] solved_at_7) seed policy)" for seed policy
    by (simp add: stateless_def wf_generator_def offers_def poses_def problem_of_def small_parts_def)
  ultimately show ?thesis
    using unsolvable_is_exhaustive[OF _ no_move_unsolvable]
    by (simp add: uses_entropy_def default_options_def solve_unsolvable_def solve_unsolved_def)
qed

end
