(* ===== verification/Shot_Plan.thy ===== *)
theory Shot_Plan
  imports Joint_Moves Solve_Strategy
begin

text \<open>
  From candidates to a plan.  Every generator of the search crate promises the same: a candidate is a
  shot that the configuration allows.  The promise is stated once, as a locale; what follows from it
  for the move layers of a solved result is proved once, and each generator provides it.
\<close>

text \<open>The layers of a result, applied one after the other to the state of the core crate.\<close>
fun apply_layers :: "arch_spec \<Rightarrow> move_set list \<Rightarrow> atom_state \<Rightarrow> atom_state option" where
  "apply_layers a [] st = Some st"
| "apply_layers a (ms # mss) st =
     (case move_set_decode ms of
        Panicked \<Rightarrow> None
      | Returned ls \<Rightarrow> Option.bind (apply_moves st ls a) (apply_layers a mss))"

lemma apply_layers_snoc:
  "apply_layers a (mss @ [ms]) st = Option.bind (apply_layers a mss st) (apply_layers a [ms])"
proof (induction mss arbitrary: st)
  case (Cons m mss)
  show ?case
  proof (cases "move_set_decode m")
    case (Returned ls)
    then show ?thesis using Cons by (cases "apply_moves st ls a") simp_all
  qed simp
qed simp

lemma sound_shot_step:
  assumes "arch_fits a" "orderly_buses a" "clear_config blocked c" "sound_shot a blocked c ms c'" "tracks st c"
  shows "clear_config blocked c' \<and> (\<exists>st'. apply_layers a [ms] st = Some st' \<and> tracks st' c' \<and> collision st' = collision st)"
proof -
  obtain ls where ls: "ms = move_set_new ls" "clear_group a blocked c ls" "shot_to a ls c c'"
    using assms(4) unfolding sound_shot_def by blast
  from shot_applies[OF assms(1,2) ls(2,3) assms(5)] obtain ds st' where
    "move_set_decode ms = Returned ds" "apply_moves st ds a = Some st'" "tracks st' c'" "collision st' = collision st"
    unfolding ls(1) by blast
  then show ?thesis using shot_keeps_clear[OF assms(1-3) ls(2,3)] by simp
qed

text \<open>The plan up to any of its layers is a plan.\<close>
lemma reaches_take: "reaches P root mss c \<Longrightarrow> \<exists>c'. reaches P root (take n mss) c'"
proof (induction arbitrary: n rule: reaches.induct)
  case start
  then show ?case by (auto intro: reaches.start)
next
  case (move mss c cand)
  show ?case
  proof (cases "n \<le> length mss")
    case True
    then show ?thesis using move.IH[of n] by simp
  next
    case False
    then show ?thesis using reaches.move[OF move(1,2)] by auto
  qed
qed

locale shot_generator =
  fixes candidates :: "arch_spec \<Rightarrow> 'p \<Rightarrow> config \<Rightarrow> move_candidate list"
    and obstacles :: "'p \<Rightarrow> u64 set"
    and usable :: "arch_spec \<Rightarrow> 'p \<Rightarrow> bool"
  assumes candidates_sound: "arch_fits a \<Longrightarrow> orderly_buses a \<Longrightarrow> usable a p \<Longrightarrow> clear_config (obstacles p) c
    \<Longrightarrow> cand \<in> set (candidates a p c) \<Longrightarrow> sound_shot a (obstacles p) c (mc_move_set cand) (mc_new_config cand)"
begin

text \<open>Moves that the generator offers, one after the other, can be executed without a collision.\<close>
lemma plan_executes:
  assumes "arch_fits a" "orderly_buses a" "usable a p" "clear_config (obstacles p) root" "tracks st root"
    and offered: "\<And>c cand. offers P c cand \<Longrightarrow> cand \<in> set (candidates a p c)"
    and plan: "reaches P root mss c"
  shows "clear_config (obstacles p) c
    \<and> (\<exists>st'. apply_layers a mss st = Some st' \<and> tracks st' c \<and> collision st' = collision st)"
  using plan
proof (induction rule: reaches.induct)
  case start
  then show ?case using assms(4,5) by simp
next
  case (move mss c cand)
  then obtain st1 where st1: "apply_layers a mss st = Some st1" "tracks st1 c" "collision st1 = collision st" by blast
  have "sound_shot a (obstacles p) c (mc_move_set cand) (mc_new_config cand)"
    by (rule candidates_sound[OF assms(1-3) _ offered[OF move(2)]]) (use move.IH in blast)
  from sound_shot_step[OF assms(1,2) _ this st1(2)] move.IH st1(1,3)
  show ?case by (auto simp: apply_layers_snoc)
qed

end

end
