(* ===== verification/Move_Order.thy ===== *)
theory Move_Order
  imports Config Move_Set "HOL-Library.Product_Lexorder" "HOL-Library.List_Lexorder"
begin

text \<open>
  Comparators: \<open>Ordering\<close>, \<open>cmp\<close> and \<open>then_with\<close> of the standard library, and the tie-breakers of
  \<open>primitives/ordering.rs\<close>.  A sort by a comparator that compares keys is a sort by these keys.
\<close>

section \<open>Ordering\<close>

datatype ordering = Less | Equal | Greater

definition cmp :: "'a :: linorder \<Rightarrow> 'a \<Rightarrow> ordering" where
  "cmp a b = (if a < b then Less else if a = b then Equal else Greater)"

definition then_with :: "ordering \<Rightarrow> ordering \<Rightarrow> ordering" where
  "then_with x y = (case x of Equal \<Rightarrow> y | _ \<Rightarrow> x)"

text \<open>Slices and pairs are compared element by element.\<close>
fun cmp_slice :: "('a \<Rightarrow> 'a \<Rightarrow> ordering) \<Rightarrow> 'a list \<Rightarrow> 'a list \<Rightarrow> ordering" where
  "cmp_slice f [] [] = Equal"
| "cmp_slice f [] (b # bs) = Less"
| "cmp_slice f (a # as) [] = Greater"
| "cmp_slice f (a # as) (b # bs) = then_with (f a b) (cmp_slice f as bs)"

definition cmp_pair :: "('a :: linorder) \<times> ('b :: linorder) \<Rightarrow> 'a \<times> 'b \<Rightarrow> ordering" where
  "cmp_pair a b = then_with (cmp (fst a) (fst b)) (cmp (snd a) (snd b))"

section \<open>Tie-breakers\<close>

type_synonym triplet_key = "u8 \<times> u32 \<times> u8"

definition cmp_triplet_key :: "triplet_key \<Rightarrow> triplet_key \<Rightarrow> ordering" where
  "cmp_triplet_key a b =
     then_with (cmp (fst a) (fst b)) (then_with (cmp (fst (snd a)) (fst (snd b))) (cmp (snd (snd a)) (snd (snd b))))"

definition cmp_triplet_entry_tiebreak ::
  "triplet_key \<Rightarrow> u32 \<Rightarrow> u64 \<Rightarrow> u64 \<Rightarrow> triplet_key \<Rightarrow> u32 \<Rightarrow> u64 \<Rightarrow> u64 \<Rightarrow> ordering" where
  "cmp_triplet_entry_tiebreak a_key a_qubit a_lane a_dst b_key b_qubit b_lane b_dst =
     then_with (then_with (then_with (cmp_triplet_key a_key b_key) (cmp a_qubit b_qubit)) (cmp a_lane b_lane)) (cmp a_dst b_dst)"

definition cmp_qubit_lane_dst_tiebreak :: "u32 \<Rightarrow> u64 \<Rightarrow> u64 \<Rightarrow> u32 \<Rightarrow> u64 \<Rightarrow> u64 \<Rightarrow> ordering" where
  "cmp_qubit_lane_dst_tiebreak a_qubit a_lane a_dst b_qubit b_lane b_dst =
     then_with (then_with (cmp a_qubit b_qubit) (cmp a_lane b_lane)) (cmp a_dst b_dst)"

definition cmp_moveset_config_tiebreak :: "move_set \<Rightarrow> config \<Rightarrow> move_set \<Rightarrow> config \<Rightarrow> ordering" where
  "cmp_moveset_config_tiebreak a_ms a_cfg b_ms b_cfg =
     then_with (cmp_slice cmp (encoded_lanes a_ms) (encoded_lanes b_ms)) (cmp_slice cmp_pair (entries a_cfg) (entries b_cfg))"

section \<open>Comparators and keys\<close>

text \<open>A comparator that compares keys.\<close>
locale keyed_comparator =
  fixes compare :: "'a \<Rightarrow> 'a \<Rightarrow> ordering" and key :: "'a \<Rightarrow> 'k :: linorder"
  assumes compare_key: "compare a b = cmp (key a) (key b)"
begin

lemma sort_by_compare: "sort_by (\<lambda>a b. compare a b = Less) xs = sort_key key xs"
  by (rule sort_by_key) (simp add: compare_key cmp_def)

end

lemma cmp_simps: "cmp a b = Less \<longleftrightarrow> a < b" "cmp a b = Equal \<longleftrightarrow> a = b" "cmp a b = Greater \<longleftrightarrow> b < a"
  by (auto simp: cmp_def)

lemma then_with_cmp: "then_with (cmp a b) (cmp x y) = cmp (a, x) (b, y)"
  by (auto simp: cmp_def then_with_def)

lemma cmp_pair_cmp: "cmp_pair a b = cmp a b"
  by (cases a; cases b) (simp add: cmp_pair_def then_with_cmp)

lemma cmp_slice_cmp: "cmp_slice cmp as bs = cmp as bs"
proof (induction "cmp :: 'a \<Rightarrow> 'a \<Rightarrow> ordering" as bs rule: cmp_slice.induct)
  case (4 a as b bs)
  then show ?case by (auto simp: cmp_def then_with_def split: if_splits)
qed (simp_all add: cmp_def)

lemma cmp_triplet_key_cmp: "cmp_triplet_key a b = cmp a b"
  by (cases a; cases b) (simp add: cmp_triplet_key_def then_with_cmp)

lemma cmp_triplet_entry_cmp:
  "cmp_triplet_entry_tiebreak k q l d k' q' l' d' = cmp (((k, q), l), d) (((k', q'), l'), d')"
  by (simp add: cmp_triplet_entry_tiebreak_def cmp_triplet_key_cmp then_with_cmp)

lemma cmp_moveset_config_cmp:
  "cmp_moveset_config_tiebreak m c m' c' = cmp (encoded_lanes m, entries c) (encoded_lanes m', entries c')"
proof -
  have "(cmp_pair :: u32 \<times> u64 \<Rightarrow> _) = cmp" by (simp add: fun_eq_iff cmp_pair_cmp)
  then show ?thesis by (simp add: cmp_moveset_config_tiebreak_def cmp_slice_cmp then_with_cmp)
qed

end
