(* ===== verification/Gen_Heuristic.thy ===== *)
theory Gen_Heuristic
  imports Grid_Shots Shot_Plan Move_Order
begin

text \<open>
  The heuristic move generator, \<open>generators/heuristic.rs\<close>, with the search context of
  \<open>primitives/context.rs\<close>.  A score is an \<open>i32\<close>, a 32-bit word compared as a signed number.  The
  random numbers of the score perturbation come from another crate: the \<open>i\<close>-th number drawn from a
  seed is a parameter.  The counter of deadlocks is the state of the generator.
\<close>

section \<open>Signed scores\<close>

type_synonym i32 = "32 word"

definition i32_max :: i32 where "i32_max = 0x7FFFFFFF"
definition i32_min :: i32 where "i32_min = 0x80000000"

definition i32_saturate :: "int \<Rightarrow> i32" where
  "i32_saturate n = (if n < - (2 ^ 31) then i32_min else if 2 ^ 31 \<le> n then i32_max else word_of_int n)"

definition i32_saturating_add :: "i32 \<Rightarrow> i32 \<Rightarrow> i32" where
  "i32_saturating_add a b = i32_saturate (sint a + sint b)"

definition i32_saturating_sub :: "i32 \<Rightarrow> i32 \<Rightarrow> i32" where
  "i32_saturating_sub a b = i32_saturate (sint a - sint b)"

definition i32_larger :: "i32 \<Rightarrow> i32 \<Rightarrow> i32" where
  "i32_larger a b = (if sint b < sint a then a else b)"

section \<open>Data\<close>

record search_context =
  sc_index :: lane_index
  sc_dist_table :: distance_table
  sc_blocked :: "u64 set"
  sc_targets :: qubit_targets
  sc_cz_pairs :: "(u32 \<times> u32) list option"

record scored_triple =
  st_qubit_id :: u32
  st_score :: i32
  st_lane_encoded :: u64
  st_dst_encoded :: u64

type_synonym keyed_triple = "triplet_key \<times> scored_triple"
type_synonym scored_candidate = "i32 \<times> move_set \<times> config"

definition cmp_scored_triples :: "keyed_triple \<Rightarrow> keyed_triple \<Rightarrow> ordering" where
  "cmp_scored_triples a b =
     then_with (cmp (sint (st_score (snd b))) (sint (st_score (snd a))))
       (cmp_triplet_entry_tiebreak
          (fst a) (st_qubit_id (snd a)) (st_lane_encoded (snd a)) (st_dst_encoded (snd a))
          (fst b) (st_qubit_id (snd b)) (st_lane_encoded (snd b)) (st_dst_encoded (snd b)))"

definition cmp_candidates :: "scored_candidate \<Rightarrow> scored_candidate \<Rightarrow> ordering" where
  "cmp_candidates a b =
     then_with (cmp (sint (fst b)) (sint (fst a)))
       (cmp_moveset_config_tiebreak (fst (snd a)) (snd (snd a)) (fst (snd b)) (snd (snd b)))"

record heuristic_generator =
  hg_deadlock_policy :: deadlock_policy
  hg_lookahead :: bool
  hg_seed :: u64
  hg_top_c :: "nat option"
  hg_deadlock_count :: u32

definition heuristic_generator_new :: heuristic_generator where
  "heuristic_generator_new = \<lparr>hg_deadlock_policy = AllMoves, hg_lookahead = False, hg_seed = 0,
     hg_top_c = None, hg_deadlock_count = 0\<rparr>"

definition heuristic_generator_configured ::
  "u64 \<Rightarrow> deadlock_policy \<Rightarrow> bool \<Rightarrow> nat option \<Rightarrow> heuristic_generator" where
  "heuristic_generator_configured seed policy lookahead top_c =
     (let g = heuristic_generator_new\<lparr>hg_deadlock_policy := policy, hg_lookahead := lookahead, hg_seed := seed\<rparr>
      in case top_c of Some c \<Rightarrow> g\<lparr>hg_top_c := Some c\<rparr> | None \<Rightarrow> g)"

section \<open>Scores\<close>

text \<open>A distance as a score, \<open>i32::MAX\<close> when the target cannot be reached.\<close>
definition hops_or_max :: "u32 option \<Rightarrow> i32" where
  "hops_or_max d = (case d of Some n \<Rightarrow> n | None \<Rightarrow> i32_max)"

text \<open>The second step of the lookahead, one lane at a time.\<close>
definition lookahead_step :: "u64 set \<Rightarrow> lane_index \<Rightarrow> distance_table \<Rightarrow> u64 \<Rightarrow> i32 \<Rightarrow> i32 \<Rightarrow> lane_addr \<Rightarrow> i32" where
  "lookahead_step occupied idx T target_enc d_after_1 best lane2 =
     (case index_endpoints idx lane2 of
        None \<Rightarrow> best
      | Some (_, dst2) \<Rightarrow>
          let dst2_enc = location_encode dst2
          in if dst2_enc \<in> occupied then best
             else i32_larger best (i32_saturating_sub d_after_1 (hops_or_max (table_distance T dst2_enc target_enc))))"

definition lookahead_score :: "i32 \<Rightarrow> u64 \<Rightarrow> u64 \<Rightarrow> u64 set \<Rightarrow> lane_index \<Rightarrow> distance_table \<Rightarrow> i32" where
  "lookahead_score score_step1 dst_enc target_enc occupied idx T =
     score_step1 +
     foldl (lookahead_step occupied idx T target_enc (hops_or_max (table_distance T dst_enc target_enc))) 0
       (outgoing_lanes idx (location_decode dst_enc))"

definition occupied_places :: "u64 set \<Rightarrow> config \<Rightarrow> u64 set" where
  "occupied_places blocked c = blocked \<union> set (map (\<lambda>(_, loc). location_encode loc) (config_iter c))"

definition unresolved_qubits :: "qubit_targets \<Rightarrow> config \<Rightarrow> (u32 \<times> u64 \<times> u64) list" where
  "unresolved_qubits targets c =
     List.map_filter (\<lambda>(qid, target_enc).
       Option.bind (location_of c qid) (\<lambda>loc.
         let loc_enc = location_encode loc
         in if loc_enc = target_enc then None else Some (qid, loc_enc, target_enc))) targets"

text \<open>One qubit of the loop that looks for spectators opposite each other.\<close>
definition spectator_visit ::
  "arch_spec \<Rightarrow> u32 set \<Rightarrow> config \<Rightarrow> (u32 \<times> u64) list \<times> u64 set \<Rightarrow> u32 \<times> location_addr \<Rightarrow> (u32 \<times> u64) list \<times> u64 set" where
  "spectator_visit a target_qubits c st e =
     (let (found, seen) = st; (qid, loc) = e
      in if qid \<in> target_qubits then st
         else case get_cz_partner a loc of
                None \<Rightarrow> st
              | Some partner_loc \<Rightarrow>
                  (case qubit_at c partner_loc of
                     None \<Rightarrow> st
                   | Some other_qid \<Rightarrow>
                       let partner_enc = location_encode partner_loc; loc_enc = location_encode loc
                       in if other_qid \<in> target_qubits then st
                          else if loc_enc \<in> seen \<or> partner_enc \<in> seen then st
                          else if other_qid < qid then (found @ [(qid, loc_enc)], insert loc_enc seen)
                          else (found @ [(other_qid, partner_enc)], insert partner_enc seen)))"

definition accidental_cz_qubits :: "arch_spec \<Rightarrow> u32 set \<Rightarrow> config \<Rightarrow> (u32 \<times> u64) list" where
  "accidental_cz_qubits a target_qubits c =
     fst (foldl (spectator_visit a target_qubits c) ([], {}) (config_iter c))"

definition move_type_u8 :: "move_type \<Rightarrow> u8" where
  "move_type_u8 m = (case m of SiteBus \<Rightarrow> 0 | WordBus \<Rightarrow> 1 | ZoneBus \<Rightarrow> 2)"

definition direction_u8 :: "direction \<Rightarrow> u8" where
  "direction_u8 d = (case d of Forward \<Rightarrow> 0 | Backward \<Rightarrow> 1)"

definition lane_triplet :: "lane_addr \<Rightarrow> triplet_key" where
  "lane_triplet lane = (move_type_u8 (lane_move_type lane), lane_bus_id lane, direction_u8 (lane_direction lane))"

text \<open>The score of one lane for a qubit that is \<open>d_now\<close> hops from its target.\<close>
definition move_score ::
  "heuristic_generator \<Rightarrow> search_context \<Rightarrow> u64 set \<Rightarrow> u64 set \<Rightarrow> u64 \<Rightarrow> i32 \<Rightarrow> u64 \<Rightarrow> i32" where
  "move_score g ctx occupied contested target_enc d_now dst_enc =
     (let score1 = d_now - hops_or_max (table_distance (sc_dist_table ctx) dst_enc target_enc);
          score2 = (if 0 < sint score1 \<and> dst_enc \<noteq> target_enc \<and> dst_enc \<in> contested \<and> sc_cz_pairs ctx \<noteq> None
                    then score1 - 1 else score1)
      in if hg_lookahead g
         then lookahead_score score2 dst_enc target_enc occupied (sc_index ctx) (sc_dist_table ctx)
         else score2)"

definition score_lane ::
  "heuristic_generator \<Rightarrow> search_context \<Rightarrow> u64 set \<Rightarrow> u64 set \<Rightarrow> u32 \<Rightarrow> u64 \<Rightarrow> i32 \<Rightarrow> lane_addr \<Rightarrow> keyed_triple option" where
  "score_lane g ctx occupied contested qid target_enc d_now lane =
     (case index_endpoints (sc_index ctx) lane of
        None \<Rightarrow> None
      | Some (_, dst) \<Rightarrow>
          let dst_enc = location_encode dst
          in if dst_enc \<in> occupied then None
             else Some (lane_triplet lane,
                    \<lparr>st_qubit_id = qid, st_score = move_score g ctx occupied contested target_enc d_now dst_enc,
                     st_lane_encoded = lane_encode_u64 lane, st_dst_encoded = dst_enc\<rparr>))"

definition score_qubit ::
  "heuristic_generator \<Rightarrow> search_context \<Rightarrow> u64 set \<Rightarrow> u64 set \<Rightarrow> u32 \<times> u64 \<times> u64 \<Rightarrow> keyed_triple list" where
  "score_qubit g ctx occupied contested = (\<lambda>(qid, loc_enc, target_enc).
     case table_distance (sc_dist_table ctx) loc_enc target_enc of
       None \<Rightarrow> []
     | Some d_now \<Rightarrow>
         List.map_filter (score_lane g ctx occupied contested qid target_enc d_now)
           (outgoing_lanes (sc_index ctx) (location_decode loc_enc)))"

text \<open>A way out for a spectator, always of score 1.\<close>
definition escape_lane :: "lane_index \<Rightarrow> u64 set \<Rightarrow> u32 \<Rightarrow> lane_addr \<Rightarrow> keyed_triple option" where
  "escape_lane idx occupied qid lane =
     (case index_endpoints idx lane of
        None \<Rightarrow> None
      | Some (_, dst) \<Rightarrow>
          let dst_enc = location_encode dst
          in if dst_enc \<in> occupied then None
             else Some (lane_triplet lane,
                    \<lparr>st_qubit_id = qid, st_score = 1, st_lane_encoded = lane_encode_u64 lane, st_dst_encoded = dst_enc\<rparr>))"

definition spectator_escapes :: "lane_index \<Rightarrow> u64 set \<Rightarrow> (u32 \<times> u64) list \<Rightarrow> keyed_triple list" where
  "spectator_escapes idx occupied accidental =
     concat (map (\<lambda>(qid, loc_enc).
       List.map_filter (escape_lane idx occupied qid) (outgoing_lanes idx (location_decode loc_enc))) accidental)"

section \<open>Selection\<close>

text \<open>A \<open>BTreeMap\<close> of vectors, filled in the order of the list and traversed in that of the keys.\<close>
definition btree_groups :: "('a \<Rightarrow> 'k :: linorder) \<Rightarrow> 'a list \<Rightarrow> ('k \<times> 'a list) list" where
  "btree_groups key xs = map (\<lambda>k. (k, filter (\<lambda>x. key x = k) xs)) (sorted_list_of_set (set (map key xs)))"

definition sort_triples :: "keyed_triple list \<Rightarrow> keyed_triple list" where
  "sort_triples es = sort_by (\<lambda>a b. cmp_scored_triples a b = Less) es"

definition truncate_to :: "nat option \<Rightarrow> 'a list \<Rightarrow> 'a list" where
  "truncate_to n xs = (case n of None \<Rightarrow> xs | Some k \<Rightarrow> take k xs)"

definition kept_triples :: "heuristic_generator \<Rightarrow> keyed_triple list \<Rightarrow> keyed_triple list" where
  "kept_triples g all_scores =
     concat (map (\<lambda>(_, es). truncate_to (hg_top_c g) (sort_triples es))
       (btree_groups (\<lambda>e. st_qubit_id (snd e)) all_scores))"

definition improves :: "keyed_triple \<Rightarrow> bool" where
  "improves e \<longleftrightarrow> 0 < sint (st_score (snd e))"

definition select_triples :: "search_context \<Rightarrow> keyed_triple list \<Rightarrow> keyed_triple list" where
  "select_triples ctx kept =
     (if \<not> list_ex improves kept
      then take (if sc_cz_pairs ctx \<noteq> None then 3 else 1) (sort_triples kept)
      else filter improves kept)"

definition merge_escapes ::
  "lane_index \<Rightarrow> u64 set \<Rightarrow> (u32 \<times> u64) list \<Rightarrow> keyed_triple list \<Rightarrow> keyed_triple list \<Rightarrow> keyed_triple list" where
  "merge_escapes idx occupied accidental escapes selected =
     (if escapes = [] then selected
      else let added = filter (\<lambda>e. fst e \<in> set (map fst selected)) escapes
           in if added = [] \<and> accidental \<noteq> []
              then let (qid, loc_enc) = hd accidental
                   in case find_map (escape_lane idx occupied qid) (outgoing_lanes idx (location_decode loc_enc)) of
                        None \<Rightarrow> selected
                      | Some e \<Rightarrow> selected @ [e]
              else selected @ added)"

text \<open>The buses that both qubits of a pair may use, each with the two qubits.\<close>
definition boost_set :: "(u32 \<times> u32) list \<Rightarrow> keyed_triple list \<Rightarrow> (triplet_key \<times> u32) set" where
  "boost_set pairs selected =
     (let keys_of = (\<lambda>q. set (map fst (filter (\<lambda>e. st_qubit_id (snd e) = q) selected)))
      in (\<Union>(qa, qb) \<in> set pairs. (\<lambda>k. (k, qa)) ` (keys_of qa \<inter> keys_of qb) \<union> (\<lambda>k. (k, qb)) ` (keys_of qa \<inter> keys_of qb)))"

definition boost_pairs :: "(u32 \<times> u32) list option \<Rightarrow> keyed_triple list \<Rightarrow> keyed_triple list" where
  "boost_pairs cz_pairs selected =
     (case cz_pairs of
        None \<Rightarrow> selected
      | Some pairs \<Rightarrow>
          map (\<lambda>(key, t). if (key, st_qubit_id t) \<in> boost_set pairs selected
                          then (key, t\<lparr>st_score := st_score t + 1\<rparr>) else (key, t)) selected)"

section \<open>Grids\<close>

text \<open>The bus of a key; other discriminants are \<open>unreachable!\<close>.\<close>
definition move_type_of_u8 :: "u8 \<Rightarrow> move_type outcome" where
  "move_type_of_u8 x = (if x = move_type_u8 SiteBus then Returned SiteBus
     else if x = move_type_u8 WordBus then Returned WordBus
     else if x = move_type_u8 ZoneBus then Returned ZoneBus else Panicked)"

definition direction_of_u8 :: "u8 \<Rightarrow> direction outcome" where
  "direction_of_u8 x = (if x = direction_u8 Forward then Returned Forward
     else if x = direction_u8 Backward then Returned Backward else Panicked)"

text \<open>The tables of a group: the lane of each source and the triple of each lane.\<close>
definition add_group_entry ::
  "lane_index \<Rightarrow> (u64, u64) fmap \<times> (u64 \<rightharpoonup> scored_triple) \<Rightarrow> scored_triple \<Rightarrow> ((u64, u64) fmap \<times> (u64 \<rightharpoonup> scored_triple)) outcome" where
  "add_group_entry idx tables t =
     bind_outcome (lane_decode_u64 (st_lane_encoded t)) (\<lambda>lane.
       Returned (case index_endpoints idx lane of
          None \<Rightarrow> tables
        | Some (src, _) \<Rightarrow>
            (fmupd (location_encode src) (st_lane_encoded t) (fst tables), (snd tables)(st_lane_encoded t \<mapsto> t))))"

definition group_tables ::
  "lane_index \<Rightarrow> scored_triple list \<Rightarrow> ((u64, u64) fmap \<times> (u64 \<rightharpoonup> scored_triple)) outcome" where
  "group_tables idx qubits = fold_outcome (add_group_entry idx) (fmempty, Map.empty) qubits"

definition grid_triples :: "(u64 \<rightharpoonup> scored_triple) \<Rightarrow> u64 list \<Rightarrow> scored_triple list" where
  "grid_triples triple_by_lane grid_lanes = List.map_filter triple_by_lane grid_lanes"

definition grid_score :: "scored_triple list \<Rightarrow> i32" where
  "grid_score ts = foldl (\<lambda>total t. total + st_score t) 0 ts"

definition grid_moves :: "scored_triple list \<Rightarrow> (u32 \<times> location_addr) list" where
  "grid_moves ts = map (\<lambda>t. (st_qubit_id t, location_decode (st_dst_encoded t))) ts"

definition add_grid ::
  "config \<Rightarrow> (u64 \<rightharpoonup> scored_triple) \<Rightarrow> scored_candidate list \<Rightarrow> u64 list \<Rightarrow> scored_candidate list" where
  "add_grid c triple_by_lane candidates grid_lanes =
     (let ts = grid_triples triple_by_lane grid_lanes;
          moves = grid_moves ts;
          ms = move_set_from_encoded grid_lanes
      in if moves = [] then candidates
         else if list_ex (\<lambda>(_, ms', _). ms' = ms) candidates then candidates
         else candidates @ [(grid_score ts, ms, with_moves c moves)])"

definition group_candidates ::
  "search_context \<Rightarrow> u64 set \<Rightarrow> config \<Rightarrow> scored_candidate list \<Rightarrow> triplet_key \<times> scored_triple list \<Rightarrow> scored_candidate list outcome" where
  "group_candidates ctx occupied c candidates = (\<lambda>((mt_u8, bus_id, dir_u8), qubits).
     bind_outcome (move_type_of_u8 mt_u8) (\<lambda>mt.
     bind_outcome (direction_of_u8 dir_u8) (\<lambda>dir.
       let grid_ctx = grid_context_new (sc_index ctx) mt bus_id None dir occupied
       in bind_outcome (group_tables (sc_index ctx) qubits) (\<lambda>(es, triple_by_lane).
            Returned (foldl (add_grid c triple_by_lane) candidates (build_aod_grids grid_ctx es))))))"

definition all_candidates ::
  "search_context \<Rightarrow> u64 set \<Rightarrow> config \<Rightarrow> keyed_triple list \<Rightarrow> scored_candidate list outcome" where
  "all_candidates ctx occupied c selected =
     fold_outcome (group_candidates ctx occupied c) []
       (map (\<lambda>(key, es). (key, map snd es)) (btree_groups fst selected))"

definition perturb_scores :: "(u64 \<Rightarrow> nat \<Rightarrow> i32) \<Rightarrow> u64 \<Rightarrow> scored_candidate list \<Rightarrow> scored_candidate list" where
  "perturb_scores rng seed candidates =
     (if seed \<noteq> 0
      then map (\<lambda>(i, (s, rest)). (i32_saturating_add s (rng seed i), rest)) (enumerate 0 candidates)
      else candidates)"

definition sort_scored :: "scored_candidate list \<Rightarrow> scored_candidate list" where
  "sort_scored candidates = sort_by (\<lambda>a b. cmp_candidates a b = Less) candidates"

section \<open>Ways out of a deadlock\<close>

definition escape_candidate :: "lane_index \<Rightarrow> u64 set \<Rightarrow> config \<Rightarrow> u32 \<Rightarrow> lane_addr \<Rightarrow> move_candidate option" where
  "escape_candidate idx occupied c qid lane =
     (case index_endpoints idx lane of
        None \<Rightarrow> None
      | Some (_, dst) \<Rightarrow>
          if location_encode dst \<in> occupied then None
          else Some \<lparr>mc_move_set = move_set_from_encoded [lane_encode_u64 lane], mc_new_config = with_moves c [(qid, dst)]\<rparr>)"

definition generate_blocker_escape ::
  "config \<Rightarrow> u64 set \<Rightarrow> (u32 \<times> u64 \<times> u64) list \<Rightarrow> lane_index \<Rightarrow> move_candidate list" where
  "generate_blocker_escape c occupied unresolved idx =
     (let target_locs = set (map (\<lambda>(_, _, t). t) unresolved)
      in concat (map (\<lambda>(qid, loc).
           if location_encode loc \<notin> target_locs then []
           else List.map_filter (escape_candidate idx occupied c qid) (outgoing_lanes idx loc)) (config_iter c)))"

definition generate_all_escape :: "config \<Rightarrow> u64 set \<Rightarrow> lane_index \<Rightarrow> move_candidate list" where
  "generate_all_escape c occupied idx =
     concat (map (\<lambda>(qid, loc).
       List.map_filter (escape_candidate idx occupied c qid) (outgoing_lanes idx loc)) (config_iter c))"

section \<open>The generator\<close>

text \<open>The entries that are turned into grids, and whether one of the routing moves improves.\<close>
definition chosen_triples ::
  "heuristic_generator \<Rightarrow> search_context \<Rightarrow> u64 set \<Rightarrow> (u32 \<times> u64 \<times> u64) list \<Rightarrow> (u32 \<times> u64) list \<Rightarrow> keyed_triple list \<times> bool" where
  "chosen_triples g ctx occupied unresolved accidental =
     (let contested = set (map (\<lambda>(_, _, t). t) unresolved);
          all_scores = concat (map (score_qubit g ctx occupied contested) unresolved);
          escapes = spectator_escapes (sc_index ctx) occupied accidental;
          kept = kept_triples g all_scores;
          selected = merge_escapes (sc_index ctx) occupied accidental escapes (select_triples ctx kept)
      in (boost_pairs (sc_cz_pairs ctx) selected, list_ex improves kept))"

definition heuristic_generate ::
  "(u64 \<Rightarrow> nat \<Rightarrow> i32) \<Rightarrow> search_context \<Rightarrow> heuristic_generator \<Rightarrow> config \<Rightarrow> (move_candidate list \<times> heuristic_generator) outcome" where
  "heuristic_generate rng ctx g c =
     (let occupied = occupied_places (sc_blocked ctx) c;
          unresolved = unresolved_qubits (sc_targets ctx) c;
          target_qubits = set (map fst (sc_targets ctx));
          accidental = accidental_cz_qubits (li_arch (sc_index ctx)) target_qubits c
      in if unresolved = [] \<and> accidental = [] then Returned ([], g)
         else let (selected, has_positive) = chosen_triples g ctx occupied unresolved accidental
              in bind_outcome (all_candidates ctx occupied c selected) (\<lambda>candidates.
                   let out = map (\<lambda>(_, ms, c'). \<lparr>mc_move_set = ms, mc_new_config = c'\<rparr>)
                               (sort_scored (perturb_scores rng (hg_seed g) candidates))
                   in Returned (if has_positive then (out, g)
                        else (out @ (case hg_deadlock_policy g of
                                       Skip \<Rightarrow> []
                                     | MoveBlockers \<Rightarrow> generate_blocker_escape c occupied unresolved (sc_index ctx)
                                     | AllMoves \<Rightarrow> generate_all_escape c occupied (sc_index ctx)),
                              g\<lparr>hg_deadlock_count := hg_deadlock_count g + 1\<rparr>))))"

section \<open>The orders of the generator\<close>

text \<open>Both sorts are sorts by keys, with the best score first.\<close>

definition candidate_key :: "scored_candidate \<Rightarrow> int \<times> u64 list \<times> (u32 \<times> u64) list" where
  "candidate_key x = (- sint (fst x), encoded_lanes (fst (snd x)), entries (snd (snd x)))"

definition scored_triple_key :: "keyed_triple \<Rightarrow> int \<times> ((triplet_key \<times> u32) \<times> u64) \<times> u64" where
  "scored_triple_key e =
     (- sint (st_score (snd e)), ((fst e, st_qubit_id (snd e)), st_lane_encoded (snd e)), st_dst_encoded (snd e))"

lemma cmp_scores: "cmp (sint a) (sint b) = cmp (- sint b) (- sint a)"
  by (auto simp: cmp_def)

interpretation candidate_order: keyed_comparator cmp_candidates candidate_key
  by unfold_locales
    (simp add: cmp_candidates_def candidate_key_def cmp_moveset_config_cmp then_with_cmp cmp_scores)

interpretation triple_order: keyed_comparator cmp_scored_triples scored_triple_key
  by unfold_locales
    (simp add: cmp_scored_triples_def scored_triple_key_def cmp_triplet_entry_cmp then_with_cmp cmp_scores)

lemma sort_scored_key: "sort_scored cs = sort_key candidate_key cs"
  unfolding sort_scored_def by (rule candidate_order.sort_by_compare)

lemma sort_triples_key: "sort_triples es = sort_key scored_triple_key es"
  unfolding sort_triples_def by (rule triple_order.sort_by_compare)

text \<open>The candidates come best score first.\<close>
lemma sort_scored_best_first: "sorted_wrt (\<lambda>x y. sint (fst y) \<le> sint (fst x)) (sort_scored cs)"
proof -
  have "sorted_wrt (\<lambda>x y. candidate_key x \<le> candidate_key y) (sort_scored cs)"
    using sorted_sort_key[of candidate_key cs] by (simp add: sort_scored_key sorted_map)
  then show ?thesis by (rule sorted_wrt_mono_rel[rotated]) (auto simp: candidate_key_def less_eq_prod_def)
qed

text \<open>When no move improves, the triples that are kept are the best ones.\<close>
lemma sort_triples_best_first: "sorted_wrt (\<lambda>x y. sint (st_score (snd y)) \<le> sint (st_score (snd x))) (sort_triples es)"
proof -
  have "sorted_wrt (\<lambda>x y. scored_triple_key x \<le> scored_triple_key y) (sort_triples es)"
    using sorted_sort_key[of scored_triple_key es] by (simp add: sort_triples_key sorted_map)
  then show ?thesis by (rule sorted_wrt_mono_rel[rotated]) (auto simp: scored_triple_key_def less_eq_prod_def)
qed

end
