(* ===== verification/Heuristic_Sound.thy ===== *)
theory Heuristic_Sound
  imports Gen_Heuristic
begin

text \<open>
  What the heuristic generator offers.  Every entry it chooses is a lane from the place of a qubit to
  a free place; the grids of such entries are shots that the configuration allows; a lane that brings
  a qubit nearer to its target is in one of them; and a generator that may make any move is never stuck.
\<close>

section \<open>What the entries are\<close>

lemma config_iter_location:
  assumes "config_wf c" "encoded_config c"
  shows "(q, x) \<in> set (config_iter c) \<longleftrightarrow> location_of c q = Some x"
proof -
  have "(q, x) \<in> set (config_iter c) \<longleftrightarrow> (\<exists>e. (q, e) \<in> set (entries c) \<and> x = location_decode e)"
    by (force simp: config_iter_def)
  also have "\<dots> \<longleftrightarrow> location_of c q = Some x"
  proof
    assume "\<exists>e. (q, e) \<in> set (entries c) \<and> x = location_decode e"
    then show "location_of c q = Some x" using entry_location[OF assms] by blast
  next
    assume at: "location_of c q = Some x"
    then have "(q, location_encode x) \<in> set (entries c)" by (simp add: location_of_entry[OF assms])
    moreover have "location_decode (location_encode x) = x" using loc_codec.roundtrip[OF location_of_fits[OF at]] by simp
    ultimately show "\<exists>e. (q, e) \<in> set (entries c) \<and> x = location_decode e" by metis
  qed
  finally show ?thesis .
qed

lemma occupied_places_taken:
  assumes "config_wf c" "encoded_config c"
  shows "occupied_places blocked c = taken_places blocked c"
proof -
  have "set (map (\<lambda>(_, loc). location_encode loc) (config_iter c)) = {location_encode l | q l. location_of c q = Some l}"
    using config_iter_location[OF assms] by force
  then show ?thesis by (simp add: occupied_places_def taken_places_def)
qed

text \<open>An entry is a lane from the place of its qubit to a free place.\<close>
definition good_triple :: "arch_spec \<Rightarrow> u64 set \<Rightarrow> config \<Rightarrow> keyed_triple \<Rightarrow> bool" where
  "good_triple a blocked c e \<longleftrightarrow> (\<exists>l. l \<in> set (registered_lanes a) \<and> fst e = lane_triplet l
     \<and> st_lane_encoded (snd e) = lane_encode_u64 l \<and> st_dst_encoded (snd e) = location_encode (lane_dst a l)
     \<and> location_of c (st_qubit_id (snd e)) = Some (lane_src a l)
     \<and> location_encode (lane_dst a l) \<notin> taken_places blocked c)"

lemma outgoing_lane:
  assumes "arch_fits a" "loc_fits x"
  shows "l \<in> set (outgoing_lanes (lane_index_new order cbrt a) x) \<longleftrightarrow> l \<in> set (registered_lanes a) \<and> lane_src a l = x"
proof -
  have "l \<in> set (outgoing_lanes (lane_index_new order cbrt a) x)
      \<longleftrightarrow> lane_move_type l \<noteq> ZoneBus \<and> (\<exists>d. lane_endpoints a l = Some (x, d))"
    using outgoing_lanes_spec[OF assms, of order cbrt] by blast
  then show ?thesis
    unfolding registered_lanes_set[OF assms(1)] by (auto simp: lane_src_def)
qed

lemma triple_from_lane:
  assumes "arch_fits a" "location_of c q = Some x" "l \<in> set (outgoing_lanes (lane_index_new order cbrt a) x)"
    "index_endpoints (lane_index_new order cbrt a) l = Some (s, d)" "location_encode d \<notin> taken_places blocked c"
  shows "good_triple a blocked c (lane_triplet l, \<lparr>st_qubit_id = q, st_score = sc, st_lane_encoded = lane_encode_u64 l,
           st_dst_encoded = location_encode d\<rparr>)"
proof -
  have l: "l \<in> set (registered_lanes a)" "lane_src a l = x"
    using outgoing_lane[OF assms(1) location_of_fits[OF assms(2)]] assms(3) by blast+
  have "d = lane_dst a l" using registered_bus[OF assms(1) l(1), of order cbrt] assms(4) by simp
  then show ?thesis unfolding good_triple_def using l assms(2,5) by auto
qed

lemma score_lane_good:
  assumes "arch_fits a" "sc_index ctx = lane_index_new order cbrt a" "location_of c q = Some x"
    "l \<in> set (outgoing_lanes (sc_index ctx) x)" "score_lane g ctx (taken_places blocked c) contested q t d l = Some e"
  shows "good_triple a blocked c e"
  using triple_from_lane[OF assms(1,3) assms(4)[unfolded assms(2)]] assms(2,5)
  by (auto simp: score_lane_def Let_def split: option.splits if_splits)

lemma escape_lane_good:
  assumes "arch_fits a" "idx = lane_index_new order cbrt a" "location_of c q = Some x"
    "l \<in> set (outgoing_lanes idx x)" "escape_lane idx (taken_places blocked c) q l = Some e"
  shows "good_triple a blocked c e"
  using triple_from_lane[OF assms(1,3) assms(4)[unfolded assms(2)]] assms(2,5)
  by (auto simp: escape_lane_def Let_def split: option.splits if_splits)

lemma unresolved_located:
  assumes "(q, e, t) \<in> set (unresolved_qubits targets c)"
  shows "location_of c q = Some (location_decode e) \<and> e \<noteq> t \<and> (q, t) \<in> set targets"
proof -
  obtain l where l: "(q, t) \<in> set targets" "location_of c q = Some l" "e = location_encode l" "e \<noteq> t"
  proof -
    obtain r u where r: "(r, u) \<in> set targets" "Option.bind (location_of c r) (\<lambda>loc.
         let loc_enc = location_encode loc in if loc_enc = u then None else Some (r, loc_enc, u)) = Some (q, e, t)"
      using assms unfolding unresolved_qubits_def set_map_filter by force
    then obtain y where "location_of c r = Some y" "location_encode y \<noteq> u" "r = q" "location_encode y = e" "u = t"
      by (auto simp: Let_def bind_eq_Some_conv split: if_splits)
    then show thesis using r(1) by (intro that[of y]) simp_all
  qed
  have "location_decode (location_encode l) = l" using loc_codec.roundtrip[OF location_of_fits[OF l(2)]] by simp
  then show ?thesis using l by simp
qed

lemma score_qubit_good:
  assumes "arch_fits a" "sc_index ctx = lane_index_new order cbrt a" "u \<in> set (unresolved_qubits targets c)"
    "e \<in> set (score_qubit g ctx (taken_places blocked c) contested u)"
  shows "good_triple a blocked c e"
proof -
  obtain q x t where u: "u = (q, x, t)" by (cases u)
  have at: "location_of c q = Some (location_decode x)" using unresolved_located assms(3) u by blast
  obtain d l where "l \<in> set (outgoing_lanes (sc_index ctx) (location_decode x))"
      "score_lane g ctx (taken_places blocked c) contested q t d l = Some e"
    using assms(4) by (auto simp: u score_qubit_def set_map_filter image_iff split: option.splits)
  from score_lane_good[OF assms(1,2) at this] show ?thesis .
qed

text \<open>The spectators are atoms of the configuration.\<close>
lemma accidental_located:
  assumes "config_wf c" "encoded_config c" "(q, e) \<in> set (accidental_cz_qubits a T c)"
  shows "location_of c q = Some (location_decode e)"
proof -
  have found: "\<forall>(q, e) \<in> set (fst (foldl (spectator_visit a T c) ([], {}) xs)). location_of c q = Some (location_decode e)"
    if "set xs \<subseteq> set (config_iter c)" for xs
    using that
  proof (induction xs rule: rev_induct)
    case (snoc x xs)
    obtain found seen where st: "foldl (spectator_visit a T c) ([], {}) xs = (found, seen)" by fastforce
    obtain r loc where x: "x = (r, loc)" by (cases x)
    have here: "location_of c r = Some loc" using snoc.prems config_iter_location[OF assms(1,2)] x by simp
    then have dec: "location_decode (location_encode loc) = loc"
      using loc_codec.roundtrip[OF location_of_fits[OF here]] by simp
    have there: "location_of c s = Some (location_decode (location_encode p))" if "qubit_at c p = Some s" for p s
    proof -
      have "(s, location_encode p) \<in> set (entries c)"
        using that by (auto simp: qubit_at_def find_Some_iff) (metis nth_mem)
      then show ?thesis using entry_location[OF assms(1,2)] by blast
    qed
    have ih: "\<forall>(q, e) \<in> set found. location_of c q = Some (location_decode e)"
      using snoc by (simp add: st)
    have "fst (spectator_visit a T c (found, seen) (r, loc)) \<in>
        {found, found @ [(r, location_encode loc)]} \<union> {found @ [(s, location_encode p)] | s p. qubit_at c p = Some s}"
      by (auto simp: spectator_visit_def Let_def split: option.split)
    then show ?case using ih here dec there by (auto simp: st x)
  qed simp
  show ?thesis using found[of "config_iter c"] assms(3) by (auto simp: accidental_cz_qubits_def)
qed

lemma spectator_escapes_good:
  assumes "arch_fits a" "idx = lane_index_new order cbrt a"
    "\<And>q e. (q, e) \<in> set accidental \<Longrightarrow> location_of c q = Some (location_decode e)"
    "e \<in> set (spectator_escapes idx (taken_places blocked c) accidental)"
  shows "good_triple a blocked c e"
proof -
  obtain q x l where x: "(q, x) \<in> set accidental" "l \<in> set (outgoing_lanes idx (location_decode x))"
      "escape_lane idx (taken_places blocked c) q l = Some e"
    using assms(4) by (auto simp: spectator_escapes_def set_map_filter image_iff)
  from escape_lane_good[OF assms(1,2) assms(3)[OF x(1)] x(2,3)] show ?thesis .
qed

lemma set_btree_groups: "(k, ys) \<in> set (btree_groups key xs) \<longleftrightarrow> k \<in> key ` set xs \<and> ys = filter (\<lambda>x. key x = k) xs"
  by (auto simp: btree_groups_def)

lemma kept_triples_sub: "set (kept_triples g es) \<subseteq> set es"
proof
  fix e assume "e \<in> set (kept_triples g es)"
  then obtain k ys where k: "(k, ys) \<in> set (btree_groups (\<lambda>e. st_qubit_id (snd e)) es)"
      "e \<in> set (truncate_to (hg_top_c g) (sort_triples ys))"
    by (auto simp: kept_triples_def)
  then have "e \<in> set (sort_triples ys)" by (auto simp: truncate_to_def split: option.splits dest: in_set_takeD)
  then show "e \<in> set es" using k(1) by (simp add: sort_triples_def set_btree_groups)
qed

lemma select_triples_sub: "set (select_triples ctx es) \<subseteq> set es"
  by (auto simp: select_triples_def sort_triples_def dest!: in_set_takeD)

lemma merge_escapes_good:
  assumes "arch_fits a" "idx = lane_index_new order cbrt a"
    "\<And>q e. (q, e) \<in> set accidental \<Longrightarrow> location_of c q = Some (location_decode e)"
    "\<And>e. e \<in> set selected \<Longrightarrow> good_triple a blocked c e"
    "e \<in> set (merge_escapes idx (taken_places blocked c) accidental (spectator_escapes idx (taken_places blocked c) accidental) selected)"
  shows "good_triple a blocked c e"
proof -
  let ?occ = "taken_places blocked c"
  let ?esc = "spectator_escapes idx ?occ accidental"
  have first: "good_triple a blocked c y"
    if "accidental \<noteq> []" "find_map (escape_lane idx ?occ (fst (hd accidental)))
        (outgoing_lanes idx (location_decode (snd (hd accidental)))) = Some y" for y
  proof -
    have "hd accidental \<in> set accidental" using that(1) by simp
    then have at: "location_of c (fst (hd accidental)) = Some (location_decode (snd (hd accidental)))"
      using assms(3) by (metis prod.collapse)
    from find_map_SomeD[OF that(2)] escape_lane_good[OF assms(1,2) at] show ?thesis by blast
  qed
  have "e \<in> set selected \<or> e \<in> set ?esc \<or> (accidental \<noteq> [] \<and> find_map (escape_lane idx ?occ (fst (hd accidental)))
        (outgoing_lanes idx (location_decode (snd (hd accidental)))) = Some e)"
    using assms(5) by (auto simp: merge_escapes_def Let_def case_prod_unfold split: if_splits option.splits)
  then show ?thesis
    using assms(4) spectator_escapes_good[OF assms(1-3)] first by blast
qed

lemma boost_pairs_good:
  assumes "\<And>e. e \<in> set es \<Longrightarrow> good_triple a blocked c e" "e \<in> set (boost_pairs pairs es)"
  shows "good_triple a blocked c e"
proof -
  obtain e' where e': "e' \<in> set es" "e = e' \<or> e = (fst e', (snd e')\<lparr>st_score := st_score (snd e') + 1\<rparr>)"
  proof (cases pairs)
    case None
    then show thesis using assms(2) that by (simp add: boost_pairs_def)
  next
    case (Some ps)
    have "e \<in> (\<lambda>y. if (fst y, st_qubit_id (snd y)) \<in> boost_set ps es
        then (fst y, (snd y)\<lparr>st_score := st_score (snd y) + 1\<rparr>) else (fst y, snd y)) ` set es"
      using assms(2) by (simp add: boost_pairs_def case_prod_unfold Some)
    then obtain y where y: "y \<in> set es" "e = (if (fst y, st_qubit_id (snd y)) \<in> boost_set ps es
        then (fst y, (snd y)\<lparr>st_score := st_score (snd y) + 1\<rparr>) else (fst y, snd y))"
      by (rule imageE)
    show thesis by (rule that[OF y(1)]) (use y(2) in \<open>auto split: if_splits\<close>)
  qed
  from assms(1)[OF e'(1)] e'(2) show ?thesis by (elim disjE) (simp_all add: good_triple_def)
qed

lemma chosen_triples_good:
  assumes "arch_fits a" "sc_index ctx = lane_index_new order cbrt a"
    "\<And>q e. (q, e) \<in> set accidental \<Longrightarrow> location_of c q = Some (location_decode e)"
    "e \<in> set (fst (chosen_triples g ctx (taken_places blocked c) (unresolved_qubits targets c) accidental))"
  shows "good_triple a blocked c e"
proof -
  let ?u = "unresolved_qubits targets c" and ?occ = "taken_places blocked c"
  let ?scores = "concat (map (score_qubit g ctx ?occ (set (map (\<lambda>(_, _, t). t) ?u))) ?u)"
  have "good_triple a blocked c e" if "e \<in> set (select_triples ctx (kept_triples g ?scores))" for e
  proof -
    have "e \<in> set ?scores" using that select_triples_sub kept_triples_sub by blast
    then obtain u where "u \<in> set ?u" "e \<in> set (score_qubit g ctx ?occ (set (map (\<lambda>(_, _, t). t) ?u)) u)" by auto
    from score_qubit_good[OF assms(1,2) this] show ?thesis .
  qed
  from merge_escapes_good[OF assms(1,2,3) this] show ?thesis
    using boost_pairs_good assms(4) unfolding chosen_triples_def Let_def fst_conv by blast
qed

section \<open>The grids of a group\<close>

lemma lane_triplet_eq_iff:
  "lane_triplet l = lane_triplet m \<longleftrightarrow> lane_move_type l = lane_move_type m \<and> lane_bus_id l = lane_bus_id m \<and> lane_direction l = lane_direction m"
  by (cases "lane_move_type l"; cases "lane_move_type m"; cases "lane_direction l"; cases "lane_direction m")
    (simp_all add: lane_triplet_def move_type_u8_def direction_u8_def)

lemma key_decoders [simp]:
  "move_type_of_u8 (move_type_u8 m) = Returned m" "direction_of_u8 (direction_u8 d) = Returned d"
  by (cases m; simp add: move_type_of_u8_def move_type_u8_def) (cases d; simp add: direction_of_u8_def direction_u8_def)

text \<open>What the tables of a group of good entries of one key hold.\<close>
definition good_tables :: "arch_spec \<Rightarrow> triplet_key \<Rightarrow> scored_triple list \<Rightarrow> (u64, u64) fmap \<Rightarrow> (u64 \<rightharpoonup> scored_triple) \<Rightarrow> bool" where
  "good_tables a key ts es by_lane \<longleftrightarrow>
     (\<forall>e. e |\<in>| fmdom es \<longleftrightarrow> (\<exists>t \<in> set ts. \<exists>l \<in> set (registered_lanes a).
        st_lane_encoded t = lane_encode_u64 l \<and> e = location_encode (lane_src a l)))
     \<and> (\<forall>t \<in> set ts. by_lane (st_lane_encoded t) \<noteq> None)
     \<and> (\<forall>le t. by_lane le = Some t \<longrightarrow> t \<in> set ts \<and> st_lane_encoded t = le)"

lemma good_tablesD:
  assumes "good_tables a key ts es by_lane"
  shows "e |\<in>| fmdom es \<longleftrightarrow> (\<exists>t \<in> set ts. \<exists>l \<in> set (registered_lanes a).
        st_lane_encoded t = lane_encode_u64 l \<and> e = location_encode (lane_src a l))"
    "t \<in> set ts \<Longrightarrow> by_lane (st_lane_encoded t) \<noteq> None"
    "by_lane le = Some t \<Longrightarrow> t \<in> set ts \<and> st_lane_encoded t = le"
proof -
  note tables = assms[unfolded good_tables_def]
  show "e |\<in>| fmdom es \<longleftrightarrow> (\<exists>t \<in> set ts. \<exists>l \<in> set (registered_lanes a).
        st_lane_encoded t = lane_encode_u64 l \<and> e = location_encode (lane_src a l))"
    by (rule spec[OF conjunct1[OF tables]])
  show "t \<in> set ts \<Longrightarrow> by_lane (st_lane_encoded t) \<noteq> None"
    by (rule bspec[OF conjunct1[OF conjunct2[OF tables]]])
  show "by_lane le = Some t \<Longrightarrow> t \<in> set ts \<and> st_lane_encoded t = le"
    using conjunct2[OF conjunct2[OF tables]] by simp
qed

lemma registered_encode:
  assumes "arch_fits a" "l \<in> set (registered_lanes a)"
  shows "lane_decode_u64 (lane_encode_u64 l) = Returned l"
  by (rule lane_u64_codec.roundtrip) (rule registered_fits[OF assms])

lemma registered_encode_inj:
  assumes "arch_fits a" "l \<in> set (registered_lanes a)" "m \<in> set (registered_lanes a)"
  shows "lane_encode_u64 l = lane_encode_u64 m \<longleftrightarrow> l = m"
  using registered_encode[OF assms(1,2)] registered_encode[OF assms(1,3)] outcome.inject by metis

lemma group_tables_good:
  assumes "arch_fits a" "idx = lane_index_new order cbrt a"
    "\<And>t. t \<in> set ts \<Longrightarrow> \<exists>l \<in> set (registered_lanes a). st_lane_encoded t = lane_encode_u64 l"
  shows "\<exists>es by_lane. group_tables idx ts = Returned (es, by_lane) \<and> good_tables a key ts es by_lane"
  using assms(3)
proof (induction ts rule: rev_induct)
  case Nil
  then show ?case by (simp add: group_tables_def good_tables_def)
next
  case (snoc t ts)
  then obtain es by_lane where ih: "group_tables idx ts = Returned (es, by_lane)" "good_tables a key ts es by_lane" by auto
  obtain l where l: "l \<in> set (registered_lanes a)" "st_lane_encoded t = lane_encode_u64 l" using snoc.prems by auto
  have "group_tables idx (ts @ [t])
      = Returned (fmupd (location_encode (lane_src a l)) (st_lane_encoded t) es, by_lane(st_lane_encoded t \<mapsto> t))"
    using ih(1) l registered_encode[OF assms(1) l(1)] registered_bus[OF assms(1) l(1), of order cbrt]
    by (simp add: group_tables_def fold_outcome_append add_group_entry_def assms(2))
  moreover have "good_tables a key (ts @ [t])
      (fmupd (location_encode (lane_src a l)) (st_lane_encoded t) es) (by_lane(st_lane_encoded t \<mapsto> t))"
  proof -
    have same: "m = l" if "m \<in> set (registered_lanes a)" "st_lane_encoded t = lane_encode_u64 m" for m
      using registered_encode_inj[OF assms(1) that(1) l(1)] that(2) l(2) by simp
    note dom = good_tablesD(1)[OF ih(2)] and tab = good_tablesD(2,3)[OF ih(2)]
    have "e |\<in>| fmdom (fmupd (location_encode (lane_src a l)) (st_lane_encoded t) es) \<longleftrightarrow>
        (\<exists>t \<in> set (ts @ [t]). \<exists>l \<in> set (registered_lanes a). st_lane_encoded t = lane_encode_u64 l \<and> e = location_encode (lane_src a l))" for e
      using dom[of e] l same by auto
    then show ?thesis unfolding good_tables_def using tab by auto
  qed
  ultimately show ?case by blast
qed

text \<open>A grid of a group with the moves of its entries is a shot.\<close>
lemma group_grid_sound:
  assumes "arch_fits a" "orderly_buses a" "rearranges order" "clear_config blocked c"
    and good: "\<And>t. t \<in> set ts \<Longrightarrow> good_triple a blocked c (key, t)"
    and key: "key = (move_type_u8 mt, b, direction_u8 dir)"
    and tables: "good_tables a key ts es by_lane"
    and g: "g \<in> set (build_aod_grids (grid_context_new (lane_index_new order cbrt a) mt b None dir (taken_places blocked c)) es)"
  shows "sound_shot a blocked c (move_set_from_encoded g) (with_moves c (grid_moves (grid_triples by_lane g)))"
proof -
  note wf = assms(4)[unfolded clear_config_def]
  note dom = good_tablesD(1)[OF tables] and tab = good_tablesD(2,3)[OF tables]
  have entry: "\<exists>q. location_of c q = Some (lane_src a l) \<and> q = st_qubit_id t \<and> lane_triplet l = key
        \<and> st_dst_encoded t = location_encode (lane_dst a l)"
    if t: "t \<in> set ts" "l \<in> set (registered_lanes a)" "st_lane_encoded t = lane_encode_u64 l" for t l
  proof -
    obtain m where m: "m \<in> set (registered_lanes a)" "key = lane_triplet m" "st_lane_encoded t = lane_encode_u64 m"
        "st_dst_encoded t = location_encode (lane_dst a m)" "location_of c (st_qubit_id t) = Some (lane_src a m)"
      using good[OF t(1)] by (auto simp: good_triple_def)
    have "m = l" using registered_encode_inj[OF assms(1) m(1) t(2)] m(3) t(3) by simp
    then show ?thesis using m by simp
  qed
  have atoms: "\<exists>q x. location_of c q = Some x \<and> e = location_encode x" if "e |\<in>| fmdom es" for e
    using that entry unfolding dom by blast
  from grids_are_groups[OF assms(1-4) refl atoms g] obtain ls where
    ls: "g = map lane_encode_u64 ls" "set ls \<subseteq> bus_lanes_of a mt b None dir" "clear_group a blocked c ls"
      "\<forall>l \<in> set ls. location_encode (lane_src a l) \<in> taken_places blocked c \<longrightarrow> location_encode (lane_src a l) |\<in>| fmdom es"
    by blast
  have reg: "l \<in> set (registered_lanes a)" if "l \<in> set ls" for l using ls(2) that by (auto simp: bus_lanes_of_def)
  have trip: "lane_triplet l = key" if "l \<in> set ls" for l using ls(2) that by (auto simp: bus_lanes_of_def lane_triplet_def key)
  let ?ts = "grid_triples by_lane g"
  have triples: "t \<in> set ?ts \<longleftrightarrow> (\<exists>l \<in> set ls. by_lane (lane_encode_u64 l) = Some t)" for t
    by (auto simp: grid_triples_def set_map_filter ls(1) image_iff) metis
  have "shot_to a ls c (with_moves c (grid_moves ?ts))"
  proof (rule moves_shot[OF assms(1,2,4) ls(3)])
    fix q d assume "(q, d) \<in> set (grid_moves ?ts)"
    then obtain t where t: "t \<in> set ?ts" "q = st_qubit_id t" "d = location_decode (st_dst_encoded t)"
      by (auto simp: grid_moves_def)
    obtain l where l: "l \<in> set ls" "by_lane (lane_encode_u64 l) = Some t" using t(1) triples by blast
    have "t \<in> set ts" "st_lane_encoded t = lane_encode_u64 l" using tab(2)[OF l(2)] by blast+
    from entry[OF this(1) reg[OF l(1)] this(2)] have e: "location_of c q = Some (lane_src a l)"
      "st_dst_encoded t = location_encode (lane_dst a l)" using t(2) by blast+
    have "loc_fits (lane_dst a l)" using lane_ends_fit[OF assms(1) clear_groupD(1,2)[OF ls(3) l(1)]] by blast
    then have "d = lane_dst a l" using t(3) e(2) loc_codec.roundtrip[of "lane_dst a l"] by simp
    then show "\<exists>l \<in> set ls. location_of c q = Some (lane_src a l) \<and> d = lane_dst a l" using l(1) e(1) by blast
  next
    fix q l assume l: "l \<in> set ls" "location_of c q = Some (lane_src a l)"
    then have "location_encode (lane_src a l) \<in> taken_places blocked c" by (auto simp: taken_places_def)
    then have "location_encode (lane_src a l) |\<in>| fmdom es" using ls(4) l(1) by blast
    then obtain t m where t: "t \<in> set ts" "m \<in> set (registered_lanes a)" "st_lane_encoded t = lane_encode_u64 m"
        "location_encode (lane_src a l) = location_encode (lane_src a m)" unfolding dom by blast
    note rl = registered_bus[OF assms(1) reg[OF l(1)], of order cbrt] and rm = registered_bus[OF assms(1) t(2), of order cbrt]
    have src: "lane_src a m = lane_src a l"
      using t(4) location_encode_inj lane_ends_fit[OF assms(1)] rl rm by metis
    have "lane_triplet m = lane_triplet l" using entry[OF t(1,2,3)] trip[OF l(1)] by simp
    then have "bus_mates m l" using rm unfolding lane_triplet_eq_iff bus_mates_def by blast
    from orderly_lanes[OF assms(2,1) this] rl rm src have ml: "m = l" by blast
    obtain t' where t': "by_lane (lane_encode_u64 l) = Some t'" using tab(1)[OF t(1)] t(3) ml by auto
    have "t' \<in> set ts" "st_lane_encoded t' = lane_encode_u64 l" using tab(2)[OF t'] by blast+
    from entry[OF this(1) reg[OF l(1)] this(2)] have "location_of c (st_qubit_id t') = Some (lane_src a l)" by blast
    moreover have "\<forall>q r x. location_of c q = Some x \<longrightarrow> location_of c r = Some x \<longrightarrow> q = r"
      using assms(4) clear_config_iff[of c blocked] wf by blast
    ultimately have "st_qubit_id t' = q" using l(2) by blast
    moreover have "t' \<in> set ?ts" using triples t' l(1) by blast
    ultimately show "q \<in> fst ` set (grid_moves ?ts)" by (force simp: grid_moves_def)
  qed
  moreover have "move_set_from_encoded g = move_set_new ls"
    by (simp add: ls(1) move_set_new_set move_set_from_encoded_set)
  ultimately show ?thesis using ls(3) unfolding sound_shot_def by blast
qed

section \<open>Soundness\<close>

text \<open>A loop whose body never panics keeps an invariant.\<close>
lemma fold_outcome_inv:
  assumes "\<And>s x. I s \<Longrightarrow> x \<in> set xs \<Longrightarrow> \<exists>s'. f s x = Returned s' \<and> I s'" "I s"
  shows "\<exists>s'. fold_outcome f s xs = Returned s' \<and> I s'"
  using assms
proof (induction xs arbitrary: s)
  case (Cons x xs)
  obtain s' where s': "f s x = Returned s'" "I s'" using Cons.prems(1)[of s x] Cons.prems(2) by auto
  then show ?case using Cons.IH[of s'] Cons.prems(1) by simp
qed simp

definition sound_scored :: "arch_spec \<Rightarrow> u64 set \<Rightarrow> config \<Rightarrow> scored_candidate list \<Rightarrow> bool" where
  "sound_scored a blocked c cs \<longleftrightarrow> (\<forall>x \<in> set cs. sound_shot a blocked c (fst (snd x)) (snd (snd x)))"

text \<open>The entries of one key of a good selection.\<close>
lemma group_members:
  assumes "(key, ts) \<in> set (map (\<lambda>(key, es). (key, map snd es)) (btree_groups fst selected))"
  shows "t \<in> set ts \<Longrightarrow> (key, t) \<in> set selected" "\<exists>t. (key, t) \<in> set selected"
proof -
  have key: "key \<in> fst ` set selected" "ts = map snd (filter (\<lambda>e. fst e = key) selected)"
    using assms by (auto simp: set_btree_groups)
  show "t \<in> set ts \<Longrightarrow> (key, t) \<in> set selected" by (auto simp: key(2))
  obtain e where "e \<in> set selected" "key = fst e" using key(1) by blast
  then show "\<exists>t. (key, t) \<in> set selected" by (intro exI[of _ "snd e"]) simp
qed

lemma good_key:
  assumes "good_triple a blocked c (key, t)"
  shows "\<exists>mt b dir. key = (move_type_u8 mt, b, direction_u8 dir)"
  using assms unfolding good_triple_def lane_triplet_def by auto

lemma add_grid_sound:
  assumes "sound_scored a blocked c cs"
    "sound_shot a blocked c (move_set_from_encoded g) (with_moves c (grid_moves (grid_triples by_lane g)))"
  shows "sound_scored a blocked c (add_grid c by_lane cs g)"
proof -
  have "add_grid c by_lane cs g = cs \<or> add_grid c by_lane cs g = cs @ [(grid_score (grid_triples by_lane g), move_set_from_encoded g,
        with_moves c (grid_moves (grid_triples by_lane g)))]"
    by (simp add: add_grid_def Let_def)
  then show ?thesis using assms by (elim disjE) (simp_all add: sound_scored_def)
qed

lemma group_candidates_sound:
  assumes "arch_fits a" "orderly_buses a" "rearranges order" "clear_config blocked c"
    and ctx: "sc_index ctx = lane_index_new order cbrt a"
    and good: "\<And>t. t \<in> set ts \<Longrightarrow> good_triple a blocked c (key, t)" and key: "key = (move_type_u8 mt, b, direction_u8 dir)"
    and cs: "sound_scored a blocked c cs"
  shows "\<exists>cs'. group_candidates ctx (taken_places blocked c) c cs (key, ts) = Returned cs' \<and> sound_scored a blocked c cs'
    \<and> (\<exists>es by_lane. good_tables a key ts es by_lane
        \<and> cs' = foldl (add_grid c by_lane) cs (build_aod_grids (grid_context_new (sc_index ctx) mt b None dir (taken_places blocked c)) es))"
proof -
  have "\<exists>l \<in> set (registered_lanes a). st_lane_encoded t = lane_encode_u64 l" if "t \<in> set ts" for t
    using good[OF that] unfolding good_triple_def snd_conv by blast
  from group_tables_good[OF assms(1) ctx this] obtain es by_lane where
    t: "group_tables (sc_index ctx) ts = Returned (es, by_lane)" "good_tables a key ts es by_lane" by blast
  let ?grids = "build_aod_grids (grid_context_new (sc_index ctx) mt b None dir (taken_places blocked c)) es"
  have "sound_scored a blocked c (foldl (add_grid c by_lane) cs gs)" if "set gs \<subseteq> set ?grids" for gs
    using that
  proof (induction gs rule: rev_induct)
    case Nil
    then show ?case using cs by simp
  next
    case (snoc g gs)
    have "g \<in> set ?grids" using snoc.prems by simp
    then have "sound_shot a blocked c (move_set_from_encoded g) (with_moves c (grid_moves (grid_triples by_lane g)))"
      unfolding ctx by (intro group_grid_sound[OF assms(1-4) _ key t(2)] good)
    moreover have "sound_scored a blocked c (foldl (add_grid c by_lane) cs gs)"
      by (rule snoc.IH) (use snoc.prems in simp)
    ultimately show ?case unfolding foldl_append foldl.simps by (intro add_grid_sound)
  qed
  then have "sound_scored a blocked c (foldl (add_grid c by_lane) cs ?grids)" by simp
  moreover have "group_candidates ctx (taken_places blocked c) c cs (key, ts) = Returned (foldl (add_grid c by_lane) cs ?grids)"
    unfolding group_candidates_def key prod.case key_decoders bind_outcome_simps Let_def t(1) ..
  ultimately show ?thesis using t(2) by blast
qed

lemma all_candidates_sound:
  assumes "arch_fits a" "orderly_buses a" "rearranges order" "clear_config blocked c" "sc_index ctx = lane_index_new order cbrt a"
    and good: "\<And>e. e \<in> set selected \<Longrightarrow> good_triple a blocked c e"
  shows "\<exists>cs. all_candidates ctx (taken_places blocked c) c selected = Returned cs \<and> sound_scored a blocked c cs"
  unfolding all_candidates_def
proof (rule fold_outcome_inv)
  fix cs x
  assume cs: "sound_scored a blocked c cs" and x: "x \<in> set (map (\<lambda>(key, es). (key, map snd es)) (btree_groups fst selected))"
  obtain key ts where kt: "x = (key, ts)" by (cases x)
  note members = group_members[OF x[unfolded kt]]
  obtain mt b dir where key: "key = (move_type_u8 mt, b, direction_u8 dir)" using members(2) good good_key by blast
  have "good_triple a blocked c (key, t)" if "t \<in> set ts" for t using good members(1)[OF that] by blast
  from group_candidates_sound[OF assms(1-5) this key cs]
  show "\<exists>cs'. group_candidates ctx (taken_places blocked c) c cs x = Returned cs' \<and> sound_scored a blocked c cs'"
    unfolding kt by blast
qed (simp add: sound_scored_def)

lemma perturb_scores_rest: "snd ` set (perturb_scores rng seed cs) = snd ` set cs"
proof -
  have "map snd (perturb_scores rng seed cs) = map snd cs"
  proof (cases "seed = 0")
    case False
    have "map (snd \<circ> (\<lambda>(i, s, rest). (i32_saturating_add s (rng seed i), rest))) (enumerate 0 cs) = map snd (map snd (enumerate 0 cs))"
      unfolding map_map by (rule map_cong) (auto simp: case_prod_unfold)
    then show ?thesis using False by (simp add: perturb_scores_def)
  qed (simp add: perturb_scores_def)
  then show ?thesis by (metis list.set_map)
qed

lemma escape_candidate_sound:
  assumes "arch_fits a" "orderly_buses a" "clear_config blocked c" "location_of c q = Some x"
    "l \<in> set (outgoing_lanes (lane_index_new order cbrt a) x)"
    "escape_candidate (lane_index_new order cbrt a) (taken_places blocked c) c q l = Some cand"
  shows "sound_shot a blocked c (mc_move_set cand) (mc_new_config cand)"
proof -
  have l: "l \<in> set (registered_lanes a)" "lane_src a l = x"
    using outgoing_lane[OF assms(1) location_of_fits[OF assms(4)]] assms(5) by blast+
  note r = registered_bus[OF assms(1) l(1), of order cbrt]
  have cand: "location_encode (lane_dst a l) \<notin> taken_places blocked c"
      "cand = \<lparr>mc_move_set = move_set_from_encoded [lane_encode_u64 l], mc_new_config = with_moves c [(q, lane_dst a l)]\<rparr>"
    using assms(6) r by (auto simp: escape_candidate_def split: if_splits)
  have "clear_group a blocked c [l] \<and> shot_to a [l] c (with_moves c [(q, lane_dst a l)])"
    using single_shot[OF assms(1-3), of q l] assms(4) l(2) r cand(1) by simp
  moreover have "move_set_from_encoded [lane_encode_u64 l] = move_set_new [l]"
    by (simp add: move_set_new_set move_set_from_encoded_set)
  ultimately show ?thesis unfolding sound_shot_def cand(2) by auto
qed

lemma escapes_sound:
  assumes "arch_fits a" "orderly_buses a" "clear_config blocked c"
    "cand \<in> set (generate_all_escape c (taken_places blocked c) (lane_index_new order cbrt a))
       \<union> set (generate_blocker_escape c (taken_places blocked c) u (lane_index_new order cbrt a))"
  shows "sound_shot a blocked c (mc_move_set cand) (mc_new_config cand)"
proof -
  have wf: "config_wf c" "encoded_config c" using assms(3) by (auto simp: clear_config_def)
  obtain q x l where x: "(q, x) \<in> set (config_iter c)" "l \<in> set (outgoing_lanes (lane_index_new order cbrt a) x)"
      "escape_candidate (lane_index_new order cbrt a) (taken_places blocked c) c q l = Some cand"
    using assms(4)
    by (auto simp: generate_all_escape_def generate_blocker_escape_def Let_def set_map_filter image_iff split: if_splits)
  show ?thesis using escape_candidate_sound[OF assms(1-3) _ x(2,3)] x(1) config_iter_location[OF wf] by blast
qed

definition scored_output :: "(u64 \<Rightarrow> nat \<Rightarrow> i32) \<Rightarrow> u64 \<Rightarrow> scored_candidate list \<Rightarrow> move_candidate list" where
  "scored_output rng seed cs =
     map (\<lambda>(_, ms, c'). \<lparr>mc_move_set = ms, mc_new_config = c'\<rparr>) (sort_scored (perturb_scores rng seed cs))"

lemma set_scored_output: "set (scored_output rng seed cs) = (\<lambda>x. \<lparr>mc_move_set = fst (snd x), mc_new_config = snd (snd x)\<rparr>) ` set cs"
proof -
  have "set (scored_output rng seed cs) = (\<lambda>r. \<lparr>mc_move_set = fst r, mc_new_config = snd r\<rparr>) ` (snd ` set (perturb_scores rng seed cs))"
    by (simp add: scored_output_def sort_scored_def case_prod_unfold image_image)
  then show ?thesis unfolding perturb_scores_rest by (simp add: image_image)
qed

definition escapes_of :: "heuristic_generator \<Rightarrow> search_context \<Rightarrow> config \<Rightarrow> move_candidate list" where
  "escapes_of g ctx c = (case hg_deadlock_policy g of Skip \<Rightarrow> []
      | MoveBlockers \<Rightarrow> generate_blocker_escape c (taken_places (sc_blocked ctx) c) (unresolved_qubits (sc_targets ctx) c) (sc_index ctx)
      | AllMoves \<Rightarrow> generate_all_escape c (taken_places (sc_blocked ctx) c) (sc_index ctx))"

text \<open>A call in terms of the entries it chooses and the grids it builds.\<close>
lemma heuristic_generate_eq:
  fixes ctx :: search_context and c :: config
  defines "u \<equiv> unresolved_qubits (sc_targets ctx) c"
    and "acc \<equiv> accidental_cz_qubits (li_arch (sc_index ctx)) (set (map fst (sc_targets ctx))) c"
  assumes "config_wf c" "encoded_config c"
    "chosen_triples g ctx (taken_places (sc_blocked ctx) c) u acc = (selected, positive)"
    "all_candidates ctx (taken_places (sc_blocked ctx) c) c selected = Returned cs"
  shows "heuristic_generate rng ctx g c =
      (if u = [] \<and> acc = [] then Returned ([], g)
       else Returned (if positive then (scored_output rng (hg_seed g) cs, g)
         else (scored_output rng (hg_seed g) cs @ escapes_of g ctx c, g\<lparr>hg_deadlock_count := hg_deadlock_count g + 1\<rparr>)))"
  unfolding heuristic_generate_def Let_def occupied_places_taken[OF assms(3,4)] u_def[symmetric] acc_def[symmetric]
    assms(5) prod.case assms(6) bind_outcome_simps escapes_of_def scored_output_def ..

lemma chosen_good:
  assumes "arch_fits a" "sc_index ctx = lane_index_new order cbrt a" "config_wf c" "encoded_config c"
    "chosen_triples g ctx (taken_places (sc_blocked ctx) c) (unresolved_qubits (sc_targets ctx) c)
       (accidental_cz_qubits (li_arch (sc_index ctx)) (set (map fst (sc_targets ctx))) c) = (selected, positive)"
    "e \<in> set selected"
  shows "good_triple a (sc_blocked ctx) c e"
proof (rule chosen_triples_good[OF assms(1,2)])
  let ?acc = "accidental_cz_qubits (li_arch (sc_index ctx)) (set (map fst (sc_targets ctx))) c"
  show "e \<in> set (fst (chosen_triples g ctx (taken_places (sc_blocked ctx) c) (unresolved_qubits (sc_targets ctx) c) ?acc))"
    using assms(5,6) by simp
  show "location_of c q = Some (location_decode x)" if "(q, x) \<in> set ?acc" for q x
    by (rule accidental_located[OF assms(3,4) that])
qed

lemma heuristic_offers_shots:
  assumes "arch_fits a" "orderly_buses a" "rearranges order" "clear_config (sc_blocked ctx) c"
    and ctx: "sc_index ctx = lane_index_new order cbrt a"
  shows "\<exists>out g'. heuristic_generate rng ctx g c = Returned (out, g')
    \<and> (\<forall>cand \<in> set out. sound_shot a (sc_blocked ctx) c (mc_move_set cand) (mc_new_config cand))"
proof -
  let ?b = "sc_blocked ctx"
  have wf: "config_wf c" "encoded_config c" using assms(4) by (auto simp: clear_config_def)
  obtain selected positive where sel: "chosen_triples g ctx (taken_places ?b c) (unresolved_qubits (sc_targets ctx) c)
      (accidental_cz_qubits (li_arch (sc_index ctx)) (set (map fst (sc_targets ctx))) c) = (selected, positive)" by fastforce
  from all_candidates_sound[OF assms(1-5) chosen_good[OF assms(1) ctx wf sel]] obtain cs where
    cs: "all_candidates ctx (taken_places ?b c) c selected = Returned cs" "sound_scored a ?b c cs" by blast
  have out: "sound_shot a ?b c (mc_move_set cand) (mc_new_config cand)" if "cand \<in> set (scored_output rng (hg_seed g) cs)" for cand
    using that cs(2) unfolding set_scored_output sound_scored_def by auto
  have esc: "sound_shot a ?b c (mc_move_set cand) (mc_new_config cand)" if "cand \<in> set (escapes_of g ctx c)" for cand
    using escapes_sound[OF assms(1,2,4), where cand = cand] that
    by (cases "hg_deadlock_policy g") (auto simp: escapes_of_def ctx)
  have "\<forall>cand \<in> set (scored_output rng (hg_seed g) cs @ escapes_of g ctx c).
      sound_shot a ?b c (mc_move_set cand) (mc_new_config cand)"
    using out esc by (simp only: set_append Un_iff) blast
  then show ?thesis unfolding heuristic_generate_eq[OF wf sel cs(1)] by simp
qed

text \<open>C7. The heuristic generator never panics, and on an architecture whose buses are orderly every
  candidate it offers for a configuration without conflicts, grids and escapes alike, is a shot that
  this configuration allows, with the configuration that results.\<close>
theorem heuristic_generate_sound:
  assumes "arch_fits a" "orderly_buses a" "rearranges order" "clear_config (sc_blocked ctx) c"
    and ctx: "sc_index ctx = lane_index_new order cbrt a"
  shows "\<exists>out g'. heuristic_generate rng ctx g c = Returned (out, g')
    \<and> (\<forall>cand \<in> set out. sound_shot a (sc_blocked ctx) c (mc_move_set cand) (mc_new_config cand))"
  by (rule heuristic_offers_shots[OF assms])

section \<open>What is offered\<close>

definition offered :: "u64 \<Rightarrow> scored_candidate list \<Rightarrow> bool" where
  "offered le cs \<longleftrightarrow> (\<exists>x \<in> set cs. le \<in> set (encoded_lanes (fst (snd x))))"

lemma add_grid_keeps: "set cs \<subseteq> set (add_grid c by_lane cs g)"
  by (auto simp: add_grid_def Let_def)

lemma add_grids_keep: "set cs \<subseteq> set (foldl (add_grid c by_lane) cs gs)"
proof (induction gs rule: rev_induct)
  case (snoc g gs)
  then show ?case using add_grid_keeps[of "foldl (add_grid c by_lane) cs gs" c by_lane g] by simp
qed simp

lemma offered_mono: "offered le cs \<Longrightarrow> set cs \<subseteq> set ds \<Longrightarrow> offered le ds"
  by (auto simp: offered_def)

lemma add_grid_offers:
  assumes "le \<in> set g" "by_lane le \<noteq> None"
  shows "offered le (add_grid c by_lane cs g)"
proof -
  have "grid_triples by_lane g \<noteq> []"
    using assms by (auto simp: grid_triples_def List.map_filter_def filter_empty_conv)
  moreover have "le \<in> set (encoded_lanes (move_set_from_encoded g))"
    using assms(1) by (simp add: move_set_from_encoded_set)
  moreover have "offered le cs" if "list_ex (\<lambda>(_, ms', _). ms' = move_set_from_encoded g) cs"
  proof -
    from that obtain x where "x \<in> set cs" "fst (snd x) = move_set_from_encoded g" by (auto simp: list_ex_iff)
    with calculation(2) show ?thesis unfolding offered_def by metis
  qed
  ultimately show ?thesis
    by (simp add: add_grid_def grid_moves_def Let_def offered_def)
qed

lemma add_grids_offer:
  assumes "g \<in> set gs" "le \<in> set g" "by_lane le \<noteq> None"
  shows "offered le (foldl (add_grid c by_lane) cs gs)"
  using assms(1)
proof (induction gs rule: rev_induct)
  case (snoc h gs)
  show ?case
  proof (cases "g = h")
    case True
    then show ?thesis using add_grid_offers[of le h by_lane c "foldl (add_grid c by_lane) cs gs"] assms(2,3) by simp
  next
    case False
    then have "offered le (foldl (add_grid c by_lane) cs gs)" using snoc by simp
    from offered_mono[OF this add_grid_keeps] show ?thesis by simp
  qed
qed simp

text \<open>A loop whose body keeps what it has, and for one element establishes it.\<close>
lemma fold_outcome_establishes:
  assumes keep: "\<And>s x. I s \<Longrightarrow> x \<in> set xs \<Longrightarrow> \<exists>s'. f s x = Returned s' \<and> I s' \<and> (C s \<longrightarrow> C s')"
    and hit: "\<And>s. I s \<Longrightarrow> \<exists>s'. f s x0 = Returned s' \<and> C s'" and "x0 \<in> set xs" "I s"
  shows "\<exists>s'. fold_outcome f s xs = Returned s' \<and> C s'"
proof -
  obtain ys zs where xs: "xs = ys @ x0 # zs" using assms(3) by (meson split_list)
  obtain s1 where s1: "fold_outcome f s ys = Returned s1" "I s1"
    using fold_outcome_inv[of I ys f s] keep assms(4) unfolding xs by (metis Un_iff set_append)
  obtain s2 where s2: "f s1 x0 = Returned s2" "C s2" "I s2"
    using hit[OF s1(2)] keep[OF s1(2) assms(3)] by auto
  have "\<exists>s'. fold_outcome f s2 zs = Returned s' \<and> (I s' \<and> C s')"
  proof (rule fold_outcome_inv)
    fix t x assume "I t \<and> C t" "x \<in> set zs"
    then show "\<exists>t'. f t x = Returned t' \<and> I t' \<and> C t'" using keep[of t x] unfolding xs by auto
  qed (use s2 in simp)
  then show ?thesis using s1(1) s2(1) unfolding xs by (auto simp: fold_outcome_append)
qed

lemma all_candidates_offer:
  assumes "arch_fits a" "orderly_buses a" "rearranges order" "clear_config blocked c" "sc_index ctx = lane_index_new order cbrt a"
    and good: "\<And>e. e \<in> set selected \<Longrightarrow> good_triple a blocked c e"
    and l: "l \<in> set (registered_lanes a)" "(lane_triplet l, t) \<in> set selected" "st_lane_encoded t = lane_encode_u64 l"
      "alone_at a (bus_lanes_of a (lane_move_type l) (lane_bus_id l) None (lane_direction l)) l"
  shows "\<exists>cs. all_candidates ctx (taken_places blocked c) c selected = Returned cs \<and> offered (lane_encode_u64 l) cs"
  unfolding all_candidates_def
proof (rule fold_outcome_establishes[where I = "sound_scored a blocked c"])
  let ?groups = "map (\<lambda>(key, es). (key, map snd es)) (btree_groups fst selected)"
  have step: "\<exists>cs' es by_lane mt b dir. key = (move_type_u8 mt, b, direction_u8 dir)
      \<and> group_candidates ctx (taken_places blocked c) c cs (key, ts) = Returned cs' \<and> sound_scored a blocked c cs'
      \<and> good_tables a key ts es by_lane
      \<and> cs' = foldl (add_grid c by_lane) cs (build_aod_grids (grid_context_new (sc_index ctx) mt b None dir (taken_places blocked c)) es)"
    if cs: "sound_scored a blocked c cs" and x: "(key, ts) \<in> set ?groups" for cs key ts
  proof -
    note members = group_members[OF x]
    obtain mt b dir where key: "key = (move_type_u8 mt, b, direction_u8 dir)" using members(2) good good_key by blast
    have "good_triple a blocked c (key, t)" if "t \<in> set ts" for t using good members(1)[OF that] by blast
    from group_candidates_sound[OF assms(1-5) this key cs] key show ?thesis by blast
  qed
  show "\<exists>s'. group_candidates ctx (taken_places blocked c) c s x = Returned s' \<and> sound_scored a blocked c s'
      \<and> (offered (lane_encode_u64 l) s \<longrightarrow> offered (lane_encode_u64 l) s')"
    if "sound_scored a blocked c s" "x \<in> set ?groups" for s x
  proof -
    obtain key ts where x: "x = (key, ts)" by (cases x)
    from step[OF that(1) that(2)[unfolded x]] obtain cs' es by_lane mt b dir where
      cs': "group_candidates ctx (taken_places blocked c) c s (key, ts) = Returned cs'" "sound_scored a blocked c cs'"
        "cs' = foldl (add_grid c by_lane) s (build_aod_grids (grid_context_new (sc_index ctx) mt b None dir (taken_places blocked c)) es)"
      by blast
    then show ?thesis unfolding x using offered_mono[OF _ add_grids_keep] by blast
  qed
  let ?ts = "map snd (filter (\<lambda>e. fst e = lane_triplet l) selected)"
  show in_groups: "(lane_triplet l, ?ts) \<in> set ?groups"
    using l(2) by (force simp: set_btree_groups)
  show "\<exists>s'. group_candidates ctx (taken_places blocked c) c s (lane_triplet l, ?ts) = Returned s' \<and> offered (lane_encode_u64 l) s'"
    if "sound_scored a blocked c s" for s
  proof -
    from step[OF that in_groups] obtain cs' es by_lane mt b dir where
      cs': "lane_triplet l = (move_type_u8 mt, b, direction_u8 dir)"
        "group_candidates ctx (taken_places blocked c) c s (lane_triplet l, ?ts) = Returned cs'"
        "good_tables a (lane_triplet l) ?ts es by_lane"
        "cs' = foldl (add_grid c by_lane) s (build_aod_grids (grid_context_new (sc_index ctx) mt b None dir (taken_places blocked c)) es)"
      by blast
    have bus: "mt = lane_move_type l" "b = lane_bus_id l" "dir = lane_direction l"
      using cs'(1) lane_triplet_eq_iff[of l "l\<lparr>lane_move_type := mt, lane_bus_id := b, lane_direction := dir\<rparr>"]
      by (simp_all add: lane_triplet_def)
    have t: "t \<in> set ?ts" using l(2) by force
    note tab = good_tablesD[OF cs'(3)]
    have "location_encode (lane_src a l) |\<in>| fmdom es" unfolding tab(1) using t l(1,3) by blast
    moreover have "location_encode (lane_dst a l) \<notin> taken_places blocked c"
    proof -
      from good[OF l(2)] obtain m where m: "m \<in> set (registered_lanes a)" "st_lane_encoded t = lane_encode_u64 m"
        "location_encode (lane_dst a m) \<notin> taken_places blocked c" unfolding good_triple_def snd_conv by blast
      have "lane_encode_u64 m = lane_encode_u64 l" by (rule trans[OF m(2)[symmetric] l(3)])
      then have "m = l" unfolding registered_encode_inj[OF assms(1) m(1) l(1)] .
      then show ?thesis using m(3) by simp
    qed
    moreover have "l \<in> bus_lanes_of a (lane_move_type l) (lane_bus_id l) None (lane_direction l)"
      using l(1) by (simp add: bus_lanes_of_def)
    ultimately obtain g where "g \<in> set (build_aod_grids (grid_context_new (lane_index_new order cbrt a) mt b None dir (taken_places blocked c)) es)"
        "lane_encode_u64 l \<in> set g"
      using grids_offer_lane[OF assms(1-3) _ l(4) _ _ refl] unfolding bus by blast
    moreover have "by_lane (lane_encode_u64 l) \<noteq> None" using tab(2)[OF t] l(3) by simp
    ultimately have "offered (lane_encode_u64 l) cs'" unfolding cs'(4) assms(5) by (rule add_grids_offer)
    then show ?thesis using cs'(2) by blast
  qed
qed (simp add: sound_scored_def)

lemma set_kept_all:
  assumes "hg_top_c g = None"
  shows "set (kept_triples g es) = set es"
proof
  show "set es \<subseteq> set (kept_triples g es)"
  proof
    fix e assume "e \<in> set es"
    then have "(st_qubit_id (snd e), filter (\<lambda>x. st_qubit_id (snd x) = st_qubit_id (snd e)) es)
        \<in> set (btree_groups (\<lambda>e. st_qubit_id (snd e)) es)"
      unfolding set_btree_groups by simp
    moreover have "e \<in> set (sort_triples (filter (\<lambda>x. st_qubit_id (snd x) = st_qubit_id (snd e)) es))"
      using \<open>e \<in> set es\<close> by (simp add: sort_triples_def)
    ultimately show "e \<in> set (kept_triples g es)"
      unfolding kept_triples_def truncate_to_def assms option.case set_concat set_map by (intro UN_I) (auto intro: image_eqI)
  qed
qed (rule kept_triples_sub)

lemma merge_escapes_keeps: "set selected \<subseteq> set (merge_escapes idx occ acc esc selected)"
  by (auto simp: merge_escapes_def Let_def case_prod_unfold split: option.split)

lemma boost_pairs_keeps:
  assumes "e \<in> set es"
  shows "\<exists>t. (fst e, t) \<in> set (boost_pairs pairs es) \<and> st_lane_encoded t = st_lane_encoded (snd e)"
proof (cases pairs)
  case None
  then show ?thesis using assms by (intro exI[of _ "snd e"]) (simp add: boost_pairs_def)
next
  case (Some ps)
  obtain key t where e: "e = (key, t)" by (cases e)
  let ?t = "if (key, st_qubit_id t) \<in> boost_set ps es then t\<lparr>st_score := st_score t + 1\<rparr> else t"
  have "(key, ?t) \<in> set (boost_pairs pairs es)"
    using assms unfolding boost_pairs_def Some e option.case set_map by (intro image_eqI[of _ _ "(key, t)"]) simp_all
  then show ?thesis unfolding e by (intro exI[of _ ?t]) simp
qed

text \<open>The lanes of every bus start at places of different coordinates.\<close>
definition starts_apart :: "arch_spec \<Rightarrow> bool" where
  "starts_apart a \<longleftrightarrow> (\<forall>l \<in> set (registered_lanes a).
     alone_at a (bus_lanes_of a (lane_move_type l) (lane_bus_id l) None (lane_direction l)) l)"

text \<open>The lane of an improving entry that is kept is in a candidate.\<close>
lemma improving_kept_offered:
  fixes ctx :: search_context and c :: config and g :: heuristic_generator
  defines "u \<equiv> unresolved_qubits (sc_targets ctx) c"
    and "acc \<equiv> accidental_cz_qubits (li_arch (sc_index ctx)) (set (map fst (sc_targets ctx))) c"
    and "scores \<equiv> concat (map (score_qubit g ctx (taken_places (sc_blocked ctx) c)
        (set (map (\<lambda>(_, _, t). t) (unresolved_qubits (sc_targets ctx) c)))) (unresolved_qubits (sc_targets ctx) c))"
  assumes "arch_fits a" "orderly_buses a" "rearranges order" "clear_config (sc_blocked ctx) c" "sc_index ctx = lane_index_new order cbrt a"
    and e: "e \<in> set (kept_triples g scores)" "improves e" and l: "l \<in> set (registered_lanes a)" "fst e = lane_triplet l"
      "st_lane_encoded (snd e) = lane_encode_u64 l"
      "alone_at a (bus_lanes_of a (lane_move_type l) (lane_bus_id l) None (lane_direction l)) l"
  shows "\<exists>out g' cand. heuristic_generate rng ctx g c = Returned (out, g') \<and> cand \<in> set out
    \<and> lane_encode_u64 l \<in> set (encoded_lanes (mc_move_set cand))"
proof -
  have wf: "config_wf c" "encoded_config c" using assms(7) by (auto simp: clear_config_def)
  let ?occ = "taken_places (sc_blocked ctx) c"
  obtain selected positive where sel: "chosen_triples g ctx ?occ u acc = (selected, positive)" by fastforce
  have "list_ex improves (kept_triples g scores)" using e by (auto simp: list_ex_iff)
  then have "e \<in> set (select_triples ctx (kept_triples g scores))" using e by (simp add: select_triples_def)
  then have "e \<in> set (merge_escapes (sc_index ctx) ?occ acc (spectator_escapes (sc_index ctx) ?occ acc)
      (select_triples ctx (kept_triples g scores)))" using merge_escapes_keeps by blast
  from boost_pairs_keeps[OF this, of "sc_cz_pairs ctx"] obtain t where
    "(fst e, t) \<in> set (fst (chosen_triples g ctx ?occ u acc))" "st_lane_encoded t = st_lane_encoded (snd e)"
    unfolding chosen_triples_def Let_def fst_conv scores_def u_def by blast
  then have t: "(lane_triplet l, t) \<in> set selected" "st_lane_encoded t = lane_encode_u64 l" using sel l(2,3) by simp_all
  note good = chosen_good[OF assms(4,8) wf sel[unfolded u_def acc_def]]
  from all_candidates_offer[OF assms(4-8) good l(1) t l(4)] obtain cs where
    cs: "all_candidates ctx ?occ c selected = Returned cs" "offered (lane_encode_u64 l) cs" by blast
  obtain x where x: "x \<in> set cs" "lane_encode_u64 l \<in> set (encoded_lanes (fst (snd x)))" using cs(2) unfolding offered_def by blast
  let ?cand = "\<lparr>mc_move_set = fst (snd x), mc_new_config = snd (snd x)\<rparr>"
  have cand: "?cand \<in> set (scored_output rng (hg_seed g) cs)" using x(1) unfolding set_scored_output by blast
  have "scores \<noteq> []" using kept_triples_sub[of g scores] e(1) by auto
  then have "u \<noteq> []" by (auto simp: scores_def u_def)
  then show ?thesis
    unfolding heuristic_generate_eq[OF wf sel[unfolded u_def acc_def] cs(1)] u_def
    using cand x(2) by (cases positive) (auto intro!: exI[of _ ?cand])
qed

lemma nearer_positive:
  fixes m n :: u32
  assumes "m < n" "n < 2 ^ 31"
  shows "0 < sint (n - m)"
proof -
  have u: "uint m < uint n" "uint n < 2 ^ 31" using assms by (simp_all add: word_less_def)
  have le: "uint m \<le> uint n" using u(1) by simp
  have "uint (n - m) = uint n - uint m" using uint_sub_lem[THEN iffD1, OF le] .
  moreover have "0 \<le> uint m" by simp
  ultimately have "0 < uint (n - m)" "uint (n - m) < 2 ^ 31" using u by linarith+
  then show ?thesis by (simp add: sint_uint signed_take_bit_int_eq_self)
qed

text \<open>C11. Without lookahead, pair coordination or a cut per qubit, every lane to a free place that brings
  an unresolved qubit nearer to its target is part of a candidate, if no other lane of its bus starts
  at the same position.\<close>
theorem heuristic_offers_improving:
  assumes "arch_fits a" "orderly_buses a" "rearranges order" "clear_config (sc_blocked ctx) c"
    "sc_index ctx = lane_index_new order cbrt a"
    and plain: "\<not> hg_lookahead g" "hg_top_c g = None" "sc_cz_pairs ctx = None"
    and target: "(q, t) \<in> set (sc_targets ctx)" "location_of c q = Some x" "location_encode x \<noteq> t"
    and lane: "lane_endpoints a l = Some (x, d)" "lane_move_type l \<noteq> ZoneBus" "location_encode d \<notin> taken_places (sc_blocked ctx) c"
      "alone_at a (bus_lanes_of a (lane_move_type l) (lane_bus_id l) None (lane_direction l)) l"
    and nearer: "table_distance (sc_dist_table ctx) (location_encode x) t = Some n"
      "table_distance (sc_dist_table ctx) (location_encode d) t = Some m" "m < n" "n < 2 ^ 31"
  shows "\<exists>out g' cand. heuristic_generate rng ctx g c = Returned (out, g') \<and> cand \<in> set out
    \<and> lane_encode_u64 l \<in> set (encoded_lanes (mc_move_set cand))"
proof -
  let ?occ = "taken_places (sc_blocked ctx) c" and ?u = "unresolved_qubits (sc_targets ctx) c"
  let ?cont = "set (map (\<lambda>(_, _, t). t) ?u)"
  let ?e = "(lane_triplet l, \<lparr>st_qubit_id = q, st_score = n - m, st_lane_encoded = lane_encode_u64 l, st_dst_encoded = location_encode d\<rparr>)"
  have reg: "l \<in> set (registered_lanes a)" using lane(1,2) registered_lanes_set[OF assms(1)] by auto
  have ends: "lane_src a l = x" "lane_dst a l = d" using lane_ends_eq[OF lane(1)] by auto
  have dec: "location_decode (location_encode x) = x" using loc_codec.roundtrip[OF location_of_fits[OF target(2)]] by simp
  have u: "(q, location_encode x, t) \<in> set ?u"
    using target by (force simp: unresolved_qubits_def set_map_filter)
  have "l \<in> set (outgoing_lanes (sc_index ctx) x)"
    unfolding assms(5) outgoing_lane[OF assms(1) location_of_fits[OF target(2)]] using reg ends by simp
  moreover have "score_lane g ctx ?occ ?cont q t n l = Some ?e"
    using registered_bus[OF assms(1) reg, of order cbrt] ends lane(3) plain nearer(2) assms(5)
    by (simp add: score_lane_def move_score_def hops_or_max_def Let_def)
  ultimately have "?e \<in> set (score_qubit g ctx ?occ ?cont (q, location_encode x, t))"
    using nearer(1) dec by (force simp: score_qubit_def set_map_filter)
  then have "?e \<in> set (concat (map (score_qubit g ctx ?occ ?cont) ?u))" using u by auto
  then have kept: "?e \<in> set (kept_triples g (concat (map (score_qubit g ctx ?occ ?cont) ?u)))"
    unfolding set_kept_all[OF plain(2)] .
  have imp: "improves ?e" using nearer_positive[OF nearer(3,4)] by (simp add: improves_def)
  show ?thesis
    by (rule improving_kept_offered[OF assms(1-5) kept imp reg _ _ lane(4)]) simp_all
qed

text \<open>C8. The generator with the \<open>AllMoves\<close> policy is never stuck: on an architecture
  where no two lanes of a bus start at one position, as long as a target is not reached and some atom
  can move to a free place, it offers a candidate.\<close>
theorem heuristic_never_stuck:
  assumes "arch_fits a" "orderly_buses a" "rearranges order" "clear_config (sc_blocked ctx) c"
    "sc_index ctx = lane_index_new order cbrt a" "starts_apart a" "hg_deadlock_policy g = AllMoves"
    and target: "(q, t) \<in> set (sc_targets ctx)" "location_of c q = Some x" "location_encode x \<noteq> t"
    and move: "location_of c r = Some s" "lane_endpoints a l = Some (s, d)" "lane_move_type l \<noteq> ZoneBus"
      "location_encode d \<notin> taken_places (sc_blocked ctx) c"
  shows "\<exists>out g'. heuristic_generate rng ctx g c = Returned (out, g') \<and> out \<noteq> []"
proof -
  have wf: "config_wf c" "encoded_config c" using assms(4) by (auto simp: clear_config_def)
  let ?occ = "taken_places (sc_blocked ctx) c" and ?u = "unresolved_qubits (sc_targets ctx) c"
  let ?cont = "set (map (\<lambda>(_, _, t). t) ?u)"
  let ?scores = "concat (map (score_qubit g ctx ?occ ?cont) ?u)"
  show ?thesis
  proof (cases "list_ex improves (kept_triples g ?scores)")
    case True
    then obtain e where e: "e \<in> set (kept_triples g ?scores)" "improves e" by (auto simp: list_ex_iff)
    then have "e \<in> set ?scores" using kept_triples_sub by blast
    then obtain v where "v \<in> set ?u" "e \<in> set (score_qubit g ctx ?occ ?cont v)" by auto
    from score_qubit_good[OF assms(1,5) this] obtain l where l: "l \<in> set (registered_lanes a)" "fst e = lane_triplet l"
        "st_lane_encoded (snd e) = lane_encode_u64 l" unfolding good_triple_def by blast
    have "alone_at a (bus_lanes_of a (lane_move_type l) (lane_bus_id l) None (lane_direction l)) l"
      using assms(6) l(1) unfolding starts_apart_def by blast
    from improving_kept_offered[OF assms(1-5) e l this, of rng] show ?thesis by (metis empty_iff list.set(1))
  next
    case False
    obtain selected positive where sel: "chosen_triples g ctx ?occ ?u
        (accidental_cz_qubits (li_arch (sc_index ctx)) (set (map fst (sc_targets ctx))) c) = (selected, positive)" by fastforce
    have neg: "positive = False" using sel False by (simp add: chosen_triples_def Let_def)
    note good = chosen_good[OF assms(1,5) wf sel]
    from all_candidates_sound[OF assms(1-5) good] obtain cs where
      cs: "all_candidates ctx ?occ c selected = Returned cs" by blast
    have "(q, location_encode x, t) \<in> set ?u" using target by (force simp: unresolved_qubits_def set_map_filter)
    then have u: "?u \<noteq> []" by auto
    have reg: "l \<in> set (registered_lanes a)" using move(2,3) registered_lanes_set[OF assms(1)] by auto
    have ends: "lane_src a l = s" "lane_dst a l = d" using lane_ends_eq[OF move(2)] by auto
    have "l \<in> set (outgoing_lanes (sc_index ctx) s)"
      unfolding assms(5) outgoing_lane[OF assms(1) location_of_fits[OF move(1)]] using reg ends by simp
    moreover have "escape_candidate (sc_index ctx) ?occ c r l \<noteq> None"
      using registered_bus[OF assms(1) reg, of order cbrt] ends move(4) assms(5) by (simp add: escape_candidate_def)
    moreover have "(r, s) \<in> set (config_iter c)" using move(1) config_iter_location[OF wf] by blast
    ultimately have "escapes_of g ctx c \<noteq> []"
      by (force simp: escapes_of_def assms(7) generate_all_escape_def List.map_filter_def filter_empty_conv)
    then show ?thesis unfolding heuristic_generate_eq[OF wf sel cs] neg using u by simp
  qed
qed

section \<open>On the example architecture\<close>

text \<open>One atom, one lane from its target, and the table built for that target.\<close>
definition one_hop_context :: "distance_table \<Rightarrow> search_context" where
  "one_hop_context T = \<lparr>sc_index = example_index, sc_dist_table = T, sc_blocked = {},
     sc_targets = encode_targets [(0, example_target)], sc_cz_pairs = None\<rparr>"

lemma example_starts_apart: "starts_apart example_arch"
proof -
  let ?pos = "\<lambda>l. location_position example_arch (lane_src example_arch l)"
  let ?row = "\<lambda>l. (lane_src example_arch l, map_option position_bits (?pos l))"
  have rows: "set (map ?row (registered_lanes example_arch)) =
      {(\<lparr>loc_zone_id = 0, loc_word_id = 0, loc_site_id = 0\<rparr>, Some (0, 0)),
       (\<lparr>loc_zone_id = 0, loc_word_id = 1, loc_site_id = 0\<rparr>, Some (0x4014000000000000, 0)),
       (\<lparr>loc_zone_id = 0, loc_word_id = 0, loc_site_id = 1\<rparr>, Some (0, 0x4008000000000000)),
       (\<lparr>loc_zone_id = 0, loc_word_id = 1, loc_site_id = 1\<rparr>, Some (0x4014000000000000, 0x4008000000000000))}"
    by code_simp
  have pos: "?pos l \<noteq> None" if "l \<in> set (registered_lanes example_arch)" for l
  proof -
    have "?row l \<in> set (map ?row (registered_lanes example_arch))" using that by simp
    then show ?thesis unfolding rows by auto
  qed
  have apart: "lane_src example_arch m = lane_src example_arch l"
    if "l \<in> set (registered_lanes example_arch)" "m \<in> set (registered_lanes example_arch)"
      "map_option position_bits (?pos m) = map_option position_bits (?pos l)" for l m
  proof -
    have "?row l \<in> set (map ?row (registered_lanes example_arch))" "?row m \<in> set (map ?row (registered_lanes example_arch))"
      using that(1,2) by simp_all
    then show ?thesis using that(3) unfolding rows by auto
  qed
  show ?thesis
    unfolding starts_apart_def
  proof
    fix l assume l: "l \<in> set (registered_lanes example_arch)"
    let ?L = "bus_lanes_of example_arch (lane_move_type l) (lane_bus_id l) None (lane_direction l)"
    obtain p where p: "?pos l = Some p" using pos[OF l] by blast
    have "lane_src example_arch m = lane_src example_arch l"
      if m: "m \<in> ?L" "map_option position_bits (?pos m) = Some (position_bits p)" for m
    proof -
      have "m \<in> set (registered_lanes example_arch)" using m(1) by (simp add: bus_lanes_of_def)
      then show ?thesis using apart[OF l] m(2) p by simp
    qed
    then show "alone_at example_arch ?L l" unfolding alone_at_def using p by blast
  qed
qed

lemma one_hop_facts:
  "clear_config (sc_blocked (one_hop_context T)) (one_qubit_at example_source)"
  "location_of (one_qubit_at example_source) 0 = Some example_source"
  "(0, location_encode example_target) \<in> set (sc_targets (one_hop_context T))"
  "location_encode example_source \<noteq> location_encode example_target"
  "lane_endpoints example_arch index_lane = Some (example_source, example_target)"
  "lane_move_type index_lane \<noteq> ZoneBus"
  "location_encode example_target \<notin> taken_places (sc_blocked (one_hop_context T)) (one_qubit_at example_source)"
proof -
  show ne: "location_encode example_source \<noteq> location_encode example_target" by code_simp
  note at = one_qubit_clear[OF example_locs_fit(1), of "{}"]
  show "clear_config (sc_blocked (one_hop_context T)) (one_qubit_at example_source)"
    using at(1) by (simp add: one_hop_context_def)
  show "location_of (one_qubit_at example_source) 0 = Some example_source" using at(2)[of 0] by simp
  show "(0, location_encode example_target) \<in> set (sc_targets (one_hop_context T))"
    by (simp add: one_hop_context_def encode_targets_def)
  show "lane_endpoints example_arch index_lane = Some (example_source, example_target)" by (rule index_lane_endpoints)
  show "lane_move_type index_lane \<noteq> ZoneBus" by (simp add: index_lane_def)
  show "location_encode example_target \<notin> taken_places (sc_blocked (one_hop_context T)) (one_qubit_at example_source)"
    using at(3) ne by (simp add: one_hop_context_def)
qed

lemma one_hop_index: "sc_index (one_hop_context T) = lane_index_new rev fsqrt example_arch"
  by (simp add: one_hop_context_def)

theorem heuristic_offers_improving_witness:
  "\<exists>T out g' cand. distance_table_new (map snd (encode_targets [(0, example_target)])) example_index = Some (Returned T)
     \<and> heuristic_generate (\<lambda>_ _. 0) (one_hop_context T) heuristic_generator_new (one_qubit_at example_source) = Returned (out, g')
     \<and> cand \<in> set out \<and> lane_encode_u64 index_lane \<in> set (encoded_lanes (mc_move_set cand))"
proof -
  obtain T where T: "distance_table_new (map snd (encode_targets [(0, example_target)])) example_index = Some (Returned T)"
    "table_exact (hop_graph example_index) (snd ` set (encode_targets [(0, example_target)])) T" by (rule example_table)
  have E: "(location_encode example_source, location_encode example_target) \<in> hop_graph example_index"
    unfolding hop_graph_arch[OF example_fits rearranges_rev]
    using index_lane_endpoints by (force simp: index_lane_def)
  have "location_encode example_target \<in> snd ` set (encode_targets [(0, example_target)])" by (simp add: encode_targets_def)
  note dist = table_exact_defined[OF T(2) finite_hop_graph example_hops_small this]
  have "table_distance T (location_encode example_source) (location_encode example_target) = Some 1"
    using dist[of "location_encode example_source" 1] E one_hop_facts(4) by (simp add: hop_distance_def)
  moreover have "table_distance T (location_encode example_target) (location_encode example_target) = Some 0"
    using dist[of "location_encode example_target" 0] by (simp add: hop_distance_def)
  moreover have "alone_at example_arch (bus_lanes_of example_arch (lane_move_type index_lane) (lane_bus_id index_lane) None (lane_direction index_lane)) index_lane"
    using example_starts_apart one_hop_facts(5,6) registered_lanes_set[OF example_fits] unfolding starts_apart_def by auto
  moreover have "\<not> hg_lookahead heuristic_generator_new" "hg_top_c heuristic_generator_new = None"
    "sc_cz_pairs (one_hop_context T) = None" "sc_dist_table (one_hop_context T) = T"
    by (simp_all add: heuristic_generator_new_def one_hop_context_def)
  ultimately have "\<exists>out g' cand. heuristic_generate (\<lambda>_ _. 0) (one_hop_context T) heuristic_generator_new (one_qubit_at example_source)
        = Returned (out, g') \<and> cand \<in> set out \<and> lane_encode_u64 index_lane \<in> set (encoded_lanes (mc_move_set cand))"
    by (intro heuristic_offers_improving[where n = 1 and m = 0, OF example_fits example_orderly rearranges_rev one_hop_facts(1) one_hop_index _ _ _
          one_hop_facts(3,2,4,5,6,7)]) simp_all
  then show ?thesis using T(1) by blast
qed

theorem heuristic_generate_sound_witness:
  "\<exists>T out g'. distance_table_new (map snd (encode_targets [(0, example_target)])) example_index = Some (Returned T)
     \<and> heuristic_generate (\<lambda>_ _. 0) (one_hop_context T) heuristic_generator_new (one_qubit_at example_source) = Returned (out, g')
     \<and> list_all (\<lambda>cand. sound_shot example_arch {} (one_qubit_at example_source) (mc_move_set cand) (mc_new_config cand)) out"
proof -
  obtain T where T: "distance_table_new (map snd (encode_targets [(0, example_target)])) example_index = Some (Returned T)"
    using example_table by blast
  have "sc_blocked (one_hop_context T) = {}" by (simp add: one_hop_context_def)
  with T heuristic_generate_sound[OF example_fits example_orderly rearranges_rev one_hop_facts(1) one_hop_index,
      of "\<lambda>_ _. 0" T heuristic_generator_new] show ?thesis by (force simp: list_all_iff)
qed

theorem heuristic_never_stuck_witness:
  "\<exists>T out g'. distance_table_new (map snd (encode_targets [(0, example_target)])) example_index = Some (Returned T)
     \<and> heuristic_generate (\<lambda>_ _. 0) (one_hop_context T) heuristic_generator_new (one_qubit_at example_source) = Returned (out, g')
     \<and> out \<noteq> []"
proof -
  obtain T where T: "distance_table_new (map snd (encode_targets [(0, example_target)])) example_index = Some (Returned T)"
    using example_table by blast
  have "hg_deadlock_policy heuristic_generator_new = AllMoves" by (simp add: heuristic_generator_new_def)
  from heuristic_never_stuck[OF example_fits example_orderly rearranges_rev one_hop_facts(1) one_hop_index example_starts_apart this
      one_hop_facts(3,2,4,2,5,6,7), of "\<lambda>_ _. 0" T] T show ?thesis by blast
qed

end
