(* ===== verification/Time_Distance.thy ===== *)
theory Time_Distance
  imports Distance Frontier
begin

text \<open>
  The times of a distance table: \<open>DistanceTable::with_time_distances\<close> of \<open>primitives/distance.rs\<close>,
  a Dijkstra search per target over the reversed lanes with their durations.  The heap is compared
  by the cost alone, in reverse (\<open>DijkstraEntry\<close>), so that entries of equal cost may come in any
  order; nothing below depends on it.
\<close>

datatype dijkstra_entry = DijkstraEntry (de_cost: f64) (de_node: u64)

definition dijkstra_key :: "dijkstra_entry \<Rightarrow> int" where
  "dijkstra_key e = - total_key (de_cost e)"

definition f64_max :: f64 where "f64_max = F64 0x7FEFFFFFFFFFFFFF"

type_synonym time_map = "u64 \<rightharpoonup> f64"
type_synonym dijkstra_state = "time_map \<times> dijkstra_entry list"

definition or_max :: "f64 option \<Rightarrow> f64" where
  "or_max c = (case c of Some v \<Rightarrow> v | None \<Rightarrow> f64_max)"

lemma or_max_simps [simp]: "or_max (Some v) = v" "or_max None = f64_max"
  by (simp_all add: or_max_def)

definition dijkstra_relax :: "f64 \<Rightarrow> dijkstra_state \<Rightarrow> u64 \<times> f64 \<Rightarrow> dijkstra_state" where
  "dijkstra_relax cost = (\<lambda>(dist, heap) (pred, dur).
     let new_cost = fadd cost dur
     in if flt new_cost (or_max (dist pred))
        then (dist(pred \<mapsto> new_cost), DijkstraEntry new_cost pred # heap)
        else (dist, heap))"

definition dijkstra_step ::
  "(u64 \<rightharpoonup> (u64 \<times> f64) list) \<Rightarrow> dijkstra_state \<Rightarrow> dijkstra_state + time_map" where
  "dijkstra_step reverse_adj = (\<lambda>(dist, heap).
     case heap_pop dijkstra_key heap of
       None \<Rightarrow> Inr dist
     | Some (entry, rest) \<Rightarrow>
         if flt (or_max (dist (de_node entry))) (de_cost entry) then Inl (dist, rest)
         else (case reverse_adj (de_node entry) of
                 None \<Rightarrow> Inl (dist, rest)
               | Some preds \<Rightarrow> Inl (foldl (dijkstra_relax (de_cost entry)) (dist, rest) preds)))"

definition dijkstra_from :: "(u64 \<rightharpoonup> (u64 \<times> f64) list) \<Rightarrow> u64 \<Rightarrow> time_map option" where
  "dijkstra_from reverse_adj target_enc =
     iterate (dijkstra_step reverse_adj) ([target_enc \<mapsto> pos_zero], [DijkstraEntry pos_zero target_enc])"

text \<open>The lanes that have a duration.\<close>
definition timed_hops :: "lane_index \<Rightarrow> (u64 \<times> u64 \<times> f64) list" where
  "timed_hops idx =
     concat (map (\<lambda>(mt, bus_id, zone_id, dir).
       List.map_filter (\<lambda>lane.
          Option.bind (index_endpoints idx lane) (\<lambda>(src, dst).
          Option.bind (lane_duration_us idx lane) (\<lambda>dur.
            Some (location_encode src, location_encode dst, dur))))
         (lanes_for idx mt bus_id zone_id dir)) (bus_groups idx))"

definition timed_adjacency :: "(u64 \<times> u64 \<times> f64) list \<Rightarrow> (u64 \<rightharpoonup> (u64 \<times> f64) list)" where
  "timed_adjacency hops = foldl (\<lambda>m (src, dst, dur). push_map dst (src, dur) m) Map.empty hops"

fun time_targets ::
  "(u64 \<rightharpoonup> (u64 \<times> f64) list) \<Rightarrow> u64 list \<Rightarrow> (u64 \<rightharpoonup> time_map) \<Rightarrow> (u64 \<rightharpoonup> time_map) option" where
  "time_targets reverse_adj [] m = Some m"
| "time_targets reverse_adj (t # ts) m =
     Option.bind (dijkstra_from reverse_adj t) (\<lambda>dist. time_targets reverse_adj ts (m(t \<mapsto> dist)))"

definition with_time_distances :: "distance_table \<Rightarrow> lane_index \<Rightarrow> distance_table option" where
  "with_time_distances T idx =
     (case fastest_lane_duration_us idx of
        None \<Rightarrow> Some T
      | Some fastest \<Rightarrow>
          map_option (\<lambda>m. T\<lparr>dt_fastest := Some fastest, dt_time_to := Some m\<rparr>)
            (time_targets (timed_adjacency (timed_hops idx)) (dt_targets T) Map.empty))"

section \<open>What a finished search means\<close>

text \<open>A cost that some path to the target has: the durations are added from the target backwards.\<close>
inductive path_cost :: "(u64 \<rightharpoonup> (u64 \<times> f64) list) \<Rightarrow> u64 \<Rightarrow> u64 \<Rightarrow> f64 \<Rightarrow> bool" for adj t where
  start: "path_cost adj t t pos_zero"
| extend: "path_cost adj t c cost \<Longrightarrow> adj c = Some ps \<Longrightarrow> (p, dur) \<in> set ps \<Longrightarrow> path_cost adj t p (fadd cost dur)"

definition relaxed :: "(u64 \<rightharpoonup> (u64 \<times> f64) list) \<Rightarrow> time_map \<Rightarrow> u64 \<Rightarrow> f64 \<Rightarrow> bool" where
  "relaxed adj dist c cost \<longleftrightarrow>
     (\<forall>ps p dur. adj c = Some ps \<and> (p, dur) \<in> set ps \<longrightarrow> \<not> flt (fadd cost dur) (or_max (dist p)))"

definition dijkstra_inv :: "(u64 \<rightharpoonup> (u64 \<times> f64) list) \<Rightarrow> u64 \<Rightarrow> dijkstra_state \<Rightarrow> bool" where
  "dijkstra_inv adj t = (\<lambda>(dist, heap).
     dist t \<noteq> None
     \<and> (\<forall>c cost. dist c = Some cost \<longrightarrow> path_cost adj t c cost)
     \<and> (\<forall>e \<in> set heap. path_cost adj t (de_node e) (de_cost e))
     \<and> (\<forall>c cost. dist c = Some cost \<longrightarrow> DijkstraEntry cost c \<in> set heap \<or> relaxed adj dist c cost))"

text \<open>Lowering a distance keeps what is relaxed.\<close>
definition lowers :: "time_map \<Rightarrow> time_map \<Rightarrow> bool" where
  "lowers dist dist' \<longleftrightarrow> (\<forall>x. dist' x = dist x \<or> flt (or_max (dist' x)) (or_max (dist x)) \<and> dist' x \<noteq> None)"

lemma lowers_refl [simp]: "lowers dist dist"
  by (simp add: lowers_def)

lemma lowers_trans: "lowers a b \<Longrightarrow> lowers b c \<Longrightarrow> lowers a c"
  unfolding lowers_def by (intro allI, erule_tac x = x in allE, erule_tac x = x in allE) (auto dest: flt_trans)

lemma lowers_relaxed:
  assumes "lowers dist dist'" "relaxed adj dist c cost"
  shows "relaxed adj dist' c cost"
  unfolding relaxed_def
proof (intro allI impI notI)
  fix ps p dur assume e: "adj c = Some ps \<and> (p, dur) \<in> set ps" and l: "flt (fadd cost dur) (or_max (dist' p))"
  have "dist' p = dist p \<or> flt (or_max (dist' p)) (or_max (dist p))" using assms(1) unfolding lowers_def by blast
  then have "flt (fadd cost dur) (or_max (dist p))" using l by (auto intro: flt_trans)
  then show False using assms(2) e unfolding relaxed_def by blast
qed

definition rank :: "f64 option \<Rightarrow> nat" where
  "rank c = nat (total_key (or_max c) + 2 ^ 63)"

lemma total_key_lower: "- (2 ^ 63) \<le> total_key a"
  using magnitude_bounds[of a] by (simp add: total_key_def)

lemma rank_less: "flt a (or_max b) \<Longrightarrow> rank (Some a) < rank b"
  using flt_total[of a "or_max b"] total_key_lower[of a]
  by (simp add: rank_def or_max_def less_f64_def)


text \<open>The loop over the predecessors of a node.\<close>
definition relax_effect ::
  "f64 \<Rightarrow> u64 set \<Rightarrow> (u64 \<times> f64) list \<Rightarrow> dijkstra_state \<Rightarrow> dijkstra_state \<Rightarrow> bool" where
  "relax_effect cost N ps = (\<lambda>(dist, heap) (dist', heap').
     lowers dist dist' \<and> set heap \<subseteq> set heap'
     \<and> (\<forall>x. dist' x \<noteq> dist x \<longrightarrow> (\<exists>dur. (x, dur) \<in> set ps \<and> dist' x = Some (fadd cost dur)) \<and> DijkstraEntry (the (dist' x)) x \<in> set heap')
     \<and> (\<forall>e \<in> set heap' - set heap. \<exists>dur. (de_node e, dur) \<in> set ps \<and> de_cost e = fadd cost dur)
     \<and> (\<forall>(p, dur) \<in> set ps. \<not> flt (fadd cost dur) (or_max (dist' p)))
     \<and> (\<Sum>x\<in>N. rank (dist' x)) + length heap' \<le> (\<Sum>x\<in>N. rank (dist x)) + length heap)"

lemma relax_fold:
  assumes "fst ` set ps \<subseteq> N" "finite N"
    "foldl (dijkstra_relax cost) (dist, heap) ps = (dist', heap')"
  shows "relax_effect cost N ps (dist, heap) (dist', heap')"
  using assms
proof (induction ps arbitrary: dist heap)
  case Nil
  then show ?case by (auto simp: relax_effect_def)
next
  case (Cons pd ps)
  obtain p dur where pd: "pd = (p, dur)" by (cases pd)
  let ?c = "fadd cost dur"
  have sub: "fst ` set ps \<subseteq> N" using Cons.prems(1) by simp
  show ?case
  proof (cases "flt ?c (or_max (dist p))")
    case False
    have "dijkstra_relax cost (dist, heap) pd = (dist, heap)"
      using False by (simp add: dijkstra_relax_def pd Let_def)
    then have "foldl (dijkstra_relax cost) (dist, heap) ps = (dist', heap')"
      using Cons.prems(3) by (simp only: foldl.simps)
    from Cons.IH[OF sub assms(2) this] have IH: "relax_effect cost N ps (dist, heap) (dist', heap')" by blast
    note IH' = IH[unfolded relax_effect_def prod.case]
    have "\<not> flt ?c (or_max (dist' p))"
    proof
      assume a: "flt ?c (or_max (dist' p))"
      have "dist' p = dist p \<or> flt (or_max (dist' p)) (or_max (dist p))" using IH' unfolding lowers_def by blast
      then show False using a False flt_trans[OF a] by auto
    qed
    then show ?thesis using IH' unfolding relax_effect_def prod.case pd by (auto simp del: fun_upd_apply)
  next
    case True
    let ?dist = "dist(p \<mapsto> ?c)" and ?heap = "DijkstraEntry ?c p # heap"
    have "dijkstra_relax cost (dist, heap) pd = (?dist, ?heap)"
      using True by (simp add: dijkstra_relax_def pd Let_def)
    then have "foldl (dijkstra_relax cost) (?dist, ?heap) ps = (dist', heap')"
      using Cons.prems(3) by (simp only: foldl.simps)
    from Cons.IH[OF sub assms(2) this] have "relax_effect cost N ps (?dist, ?heap) (dist', heap')" by blast
    note IH = this[unfolded relax_effect_def prod.case]
    have low: "lowers dist ?dist" using True by (auto simp: lowers_def or_max_def)
    have p: "p \<in> N" using Cons.prems(1) by (simp add: pd)
    have "(\<Sum>x\<in>N. rank (?dist x)) < (\<Sum>x\<in>N. rank (dist x))"
    proof (rule sum_strict_mono_ex1[OF assms(2)])
      show "\<forall>x\<in>N. rank (?dist x) \<le> rank (dist x)" using rank_less[OF True] by auto
      show "\<exists>a\<in>N. rank (?dist a) < rank (dist a)" using rank_less[OF True] p by auto
    qed
    then have sum: "(\<Sum>x\<in>N. rank (dist' x)) + length heap' \<le> (\<Sum>x\<in>N. rank (dist x)) + length heap"
      using IH by simp
    have notl: "\<not> flt ?c (or_max (dist' p))"
    proof
      assume a: "flt ?c (or_max (dist' p))"
      have "dist' p = Some ?c \<or> flt (or_max (dist' p)) ?c"
        using IH unfolding lowers_def by (auto split: if_splits)
      then show False using a flt_asym[OF a] by auto
    qed
    have changed: "(\<exists>dur. (x, dur) \<in> set (pd # ps) \<and> dist' x = Some (fadd cost dur)) \<and> DijkstraEntry (the (dist' x)) x \<in> set heap'"
      if "dist' x \<noteq> dist x" for x
    proof (cases "dist' x = ?dist x")
      case True
      then have "x = p" using that by (auto split: if_splits)
      then show ?thesis using True IH by (auto simp: pd)
    next
      case False
      then show ?thesis using IH by (auto simp: pd)
    qed
    have entries: "\<exists>dur. (de_node e, dur) \<in> set (pd # ps) \<and> de_cost e = fadd cost dur" if "e \<in> set heap' - set heap" for e
    proof (cases "e = DijkstraEntry ?c p")
      case True
      then show ?thesis by (auto simp: pd)
    next
      case False
      then have "e \<in> set heap' - set ?heap" using that by simp
      then show ?thesis using IH by (auto simp: pd)
    qed
    have "lowers dist dist'" using lowers_trans[OF low] IH by blast
    moreover have "set heap \<subseteq> set heap'" using IH by auto
    moreover have "\<forall>(p, dur) \<in> set (pd # ps). \<not> flt (fadd cost dur) (or_max (dist' p))"
      using IH notl by (auto simp: pd)
    ultimately show ?thesis using changed entries sum unfolding relax_effect_def prod.case by blast
  qed
qed


lemma path_cost_adj: "path_cost adj t c cost \<Longrightarrow> adj c = Some ps \<Longrightarrow> (p, dur) \<in> set ps \<Longrightarrow> path_cost adj t p (fadd cost dur)"
  by (rule path_cost.extend)

definition sources_of :: "(u64 \<rightharpoonup> (u64 \<times> f64) list) \<Rightarrow> u64 set" where
  "sources_of adj = (\<Union>ps \<in> ran adj. fst ` set ps)"

lemma dijkstra_step_inv:
  assumes inv: "dijkstra_inv adj t (dist, heap)" and fin: "finite (sources_of adj)"
    and pop: "heap_pop dijkstra_key heap = Some (e, rest)"
  shows "\<exists>dist' heap'. dijkstra_step adj (dist, heap) = Inl (dist', heap') \<and> dijkstra_inv adj t (dist', heap')
    \<and> (\<Sum>x\<in>sources_of adj. rank (dist' x)) + length heap' < (\<Sum>x\<in>sources_of adj. rank (dist x)) + length heap"
proof -
  let ?N = "sources_of adj"
  have ms: "e \<in> set heap" "mset heap = add_mset e (mset rest)"
    using heap_pop_Some[OF pop] by auto
  then have heap: "set heap = insert e (set rest)" "length heap = Suc (length rest)"
    by (metis set_mset_add_mset_insert set_mset_mset, metis size_add_mset size_mset)
  note I = inv[unfolded dijkstra_inv_def prod.case]
  have drop: "dijkstra_inv adj t (dist, rest)"
    if "\<And>cost. e = DijkstraEntry cost (de_node e) \<Longrightarrow> dist (de_node e) = Some cost \<Longrightarrow> relaxed adj dist (de_node e) cost"
    unfolding dijkstra_inv_def prod.case using I that heap(1) by (metis dijkstra_entry.sel(2) insert_iff)
  show ?thesis
  proof (cases "flt (or_max (dist (de_node e))) (de_cost e)")
    case True
    have "relaxed adj dist (de_node e) cost" if "e = DijkstraEntry cost (de_node e)" "dist (de_node e) = Some cost" for cost
      using that True by (metis dijkstra_entry.sel(1) flt_irrefl or_max_simps(1))
    from drop[OF this] show ?thesis using True pop heap(2) by (simp add: dijkstra_step_def)
  next
    case fresh: False
    show ?thesis
    proof (cases "adj (de_node e)")
      case None
      have "relaxed adj dist (de_node e) cost" for cost using None by (simp add: relaxed_def)
      from drop[OF this] show ?thesis using fresh None pop heap(2) by (simp add: dijkstra_step_def)
    next
      case (Some ps)
      obtain dist' heap' where f: "foldl (dijkstra_relax (de_cost e)) (dist, rest) ps = (dist', heap')"
        by (cases "foldl (dijkstra_relax (de_cost e)) (dist, rest) ps")
      have "fst ` set ps \<subseteq> ?N" using Some by (auto simp: sources_of_def ran_def)
      from relax_fold[OF this fin f, unfolded relax_effect_def prod.case]
      have R: "lowers dist dist'" "set rest \<subseteq> set heap'"
        "\<And>x. dist' x \<noteq> dist x \<Longrightarrow> (\<exists>dur. (x, dur) \<in> set ps \<and> dist' x = Some (fadd (de_cost e) dur)) \<and> DijkstraEntry (the (dist' x)) x \<in> set heap'"
        "\<And>h. h \<in> set heap' - set rest \<Longrightarrow> \<exists>dur. (de_node h, dur) \<in> set ps \<and> de_cost h = fadd (de_cost e) dur"
        "\<And>p dur. (p, dur) \<in> set ps \<Longrightarrow> \<not> flt (fadd (de_cost e) dur) (or_max (dist' p))"
        "(\<Sum>x\<in>?N. rank (dist' x)) + length heap' \<le> (\<Sum>x\<in>?N. rank (dist x)) + length rest"
        by blast+
      have pe: "path_cost adj t (de_node e) (de_cost e)" using I ms(1) by blast
      have ext: "path_cost adj t p (fadd (de_cost e) dur)" if "(p, dur) \<in> set ps" for p dur
        by (rule path_cost_adj[OF pe Some that])
      have "dijkstra_inv adj t (dist', heap')"
        unfolding dijkstra_inv_def prod.case
      proof (intro conjI allI impI ballI)
        show "dist' t \<noteq> None" using I R(3)[of t] by (cases "dist' t = dist t") auto
      next
        fix c cost assume c: "dist' c = Some cost"
        show "path_cost adj t c cost"
          using R(3)[of c] c I ext by (cases "dist' c = dist c") auto
        show "DijkstraEntry cost c \<in> set heap' \<or> relaxed adj dist' c cost"
        proof (cases "dist' c = dist c")
          case False
          then show ?thesis using R(3)[of c] c by auto
        next
          case True
          then have "DijkstraEntry cost c \<in> set heap \<or> relaxed adj dist c cost" using I c by metis
          then consider "DijkstraEntry cost c \<in> set rest" | "DijkstraEntry cost c = e" | "relaxed adj dist c cost"
            using heap(1) by blast
          then show ?thesis
          proof cases
            case 1
            then show ?thesis using R(2) by auto
          next
            case 2
            then show ?thesis using R(5) Some unfolding relaxed_def by (metis dijkstra_entry.sel option.inject)
          next
            case 3
            then show ?thesis using lowers_relaxed[OF R(1)] by blast
          qed
        qed
      next
        fix h assume h: "h \<in> set heap'"
        show "path_cost adj t (de_node h) (de_cost h)"
        proof (cases "h \<in> set rest")
          case True
          then show ?thesis using I heap(1) by auto
        next
          case False
          then show ?thesis using R(4)[of h] h ext by auto
        qed
      qed
      then show ?thesis using fresh Some f pop R(6) heap(2) by (simp add: dijkstra_step_def)
    qed
  qed
qed

lemma dijkstra_from_spec:
  assumes fin: "finite (sources_of adj)"
  shows "\<exists>dist. dijkstra_from adj t = Some dist \<and> dist t \<noteq> None
    \<and> (\<forall>c cost. dist c = Some cost \<longrightarrow> path_cost adj t c cost \<and> relaxed adj dist c cost)"
  unfolding dijkstra_from_def
proof (rule iterate_total[where I = "dijkstra_inv adj t" and m = "\<lambda>(dist, heap). (\<Sum>x\<in>sources_of adj. rank (dist x)) + length heap"])
  fix s s' assume I: "dijkstra_inv adj t s" and step: "dijkstra_step adj s = Inl s'"
  obtain dist heap where s: "s = (dist, heap)" by (cases s)
  then obtain e rest where pop: "heap_pop dijkstra_key heap = Some (e, rest)"
    using step by (cases "heap_pop dijkstra_key heap") (auto simp: dijkstra_step_def)
  from dijkstra_step_inv[OF I[unfolded s] fin pop] step s
  show "dijkstra_inv adj t s' \<and> (case s' of (dist, heap) \<Rightarrow> (\<Sum>x\<in>sources_of adj. rank (dist x)) + length heap)
      < (case s of (dist, heap) \<Rightarrow> (\<Sum>x\<in>sources_of adj. rank (dist x)) + length heap)" by auto
next
  fix s r assume I: "dijkstra_inv adj t s" and step: "dijkstra_step adj s = Inr r"
  obtain dist heap where s: "s = (dist, heap)" by (cases s)
  have "heap_pop dijkstra_key heap = None"
  proof (rule ccontr)
    assume "heap_pop dijkstra_key heap \<noteq> None"
    then obtain e rest where pop: "heap_pop dijkstra_key heap = Some (e, rest)" by fastforce
    from dijkstra_step_inv[OF I[unfolded s] fin pop] step s show False by auto
  qed
  then have "heap = []" "r = dist" using step s by (auto simp: dijkstra_step_def)
  then show "r t \<noteq> None \<and> (\<forall>c cost. r c = Some cost \<longrightarrow> path_cost adj t c cost \<and> relaxed adj r c cost)"
    using I unfolding s dijkstra_inv_def by simp
qed (simp add: dijkstra_inv_def path_cost.start)


section \<open>The times of a table\<close>

lemma finite_sources: "finite (sources_of (timed_adjacency hops))"
proof (rule finite_subset)
  show "sources_of (timed_adjacency hops) \<subseteq> fst ` set hops"
  proof
    fix p assume "p \<in> sources_of (timed_adjacency hops)"
    then obtain k ps d where ps: "timed_adjacency hops k = Some ps" "(p, d) \<in> set ps"
      by (auto simp: sources_of_def ran_def)
    have "timed_adjacency hops k
        = entry_list (map (\<lambda>(src, dst, dur). (src, dur)) (filter (\<lambda>(src, dst, dur). dst = k) hops))"
      using fold_push_map[of "\<lambda>(src, dst, dur). dst" "\<lambda>(src, dst, dur). (src, dur)" hops k]
      by (simp add: timed_adjacency_def case_prod_unfold)
    then have "(p, k, d) \<in> set hops"
      using ps by (auto simp: entry_list_def split: if_splits)
    then show "p \<in> fst ` set hops" by force
  qed
qed simp

text \<open>A column of times: the target has one, every time is the time of a path, and no lane offers
  a shorter one.\<close>
definition settled :: "(u64 \<rightharpoonup> (u64 \<times> f64) list) \<Rightarrow> u64 \<Rightarrow> time_map \<Rightarrow> bool" where
  "settled adj t dist \<longleftrightarrow> dist t \<noteq> None
     \<and> (\<forall>c cost. dist c = Some cost \<longrightarrow> path_cost adj t c cost \<and> relaxed adj dist c cost)"

lemma time_targets_spec:
  assumes "finite (sources_of adj)" "\<And>t dist. m t = Some dist \<Longrightarrow> settled adj t dist"
  shows "\<exists>m'. time_targets adj ts m = Some m' \<and> dom m' = dom m \<union> set ts
    \<and> (\<forall>t dist. m' t = Some dist \<longrightarrow> settled adj t dist)"
  using assms(2)
proof (induction ts arbitrary: m)
  case (Cons t ts)
  obtain dist where d: "dijkstra_from adj t = Some dist" "settled adj t dist"
    using dijkstra_from_spec[OF assms(1), of t] by (auto simp: settled_def)
  define m1 where "m1 = m(t \<mapsto> dist)"
  have "settled adj s dist'" if "m1 s = Some dist'" for s dist'
    using Cons.prems d(2) that by (auto simp: m1_def split: if_splits)
  then obtain m' where "time_targets adj ts m1 = Some m'" "dom m' = dom m1 \<union> set ts"
    "\<forall>t dist. m' t = Some dist \<longrightarrow> settled adj t dist" using Cons.IH[of m1] by blast
  then show ?case using d(1) by (auto simp: m1_def)
qed auto

text \<open>C22. Computing the times of a table ends: without path data the table is unchanged, and
  otherwise every target gets a column in which each time is the time of a path of lanes and no
  lane that has a duration can lower one.\<close>
theorem with_time_distances_settled:
  "case fastest_lane_duration_us idx of
     None \<Rightarrow> with_time_distances T idx = Some T
   | Some fastest \<Rightarrow>
       \<exists>m. with_time_distances T idx = Some (T\<lparr>dt_fastest := Some fastest, dt_time_to := Some m\<rparr>)
         \<and> dom m = set (dt_targets T)
         \<and> list_all (\<lambda>t. settled (timed_adjacency (timed_hops idx)) t (the (m t))) (dt_targets T)"
proof (cases "fastest_lane_duration_us idx")
  case None
  then show ?thesis by (simp add: with_time_distances_def)
next
  case (Some fastest)
  obtain m where m: "time_targets (timed_adjacency (timed_hops idx)) (dt_targets T) Map.empty = Some m"
    "dom m = set (dt_targets T)" "\<And>t dist. m t = Some dist \<Longrightarrow> settled (timed_adjacency (timed_hops idx)) t dist"
    using time_targets_spec[OF finite_sources[of "timed_hops idx"], of Map.empty "dt_targets T"] by auto
  have "list_all (\<lambda>t. settled (timed_adjacency (timed_hops idx)) t (the (m t))) (dt_targets T)"
    unfolding list_all_iff
  proof
    fix t assume "t \<in> set (dt_targets T)"
    then obtain dist where "m t = Some dist" using m(2) by blast
    then show "settled (timed_adjacency (timed_hops idx)) t (the (m t))" using m(3) by simp
  qed
  moreover have "with_time_distances T idx = Some (T\<lparr>dt_fastest := Some fastest, dt_time_to := Some m\<rparr>)"
    using Some m(1) by (simp add: with_time_distances_def)
  ultimately show ?thesis using Some m(2) by auto
qed

end
