(* ===== verification/Target_Solver.thy ===== *)
theory Target_Solver
  imports Heuristic_Sound Time_Distance
begin

text \<open>
  The solver for fixed targets: \<open>search/target_solver.rs\<close> with the bundle of \<open>search/move_search.rs\<close>,
  the entropy options of \<open>search/options.rs\<close> and the lane index of \<open>search/engine.rs\<close>.  It composes
  the configuration, the distance table, the hop heuristic, the goal, the heuristic generator and the
  strategies.  The random numbers and the entropy driver remain parameters.
\<close>

section \<open>Options\<close>

record entropy_options =
  eo_max_movesets_per_group :: nat
  eo_max_goal_candidates :: nat
  eo_w_t :: f64
  eo_collect_entropy_trace :: bool
  eo_seed :: u64

definition default_entropy_options :: entropy_options where
  "default_entropy_options = \<lparr>eo_max_movesets_per_group = 3, eo_max_goal_candidates = 3,
     eo_w_t = F64 0x3FA999999999999A, eo_collect_entropy_trace = False, eo_seed = 0\<rparr>"

record move_search =
  ms_options :: solve_options
  ms_entropy_options :: entropy_options

definition move_search_astar :: "f64 \<Rightarrow> move_search" where
  "move_search_astar weight = \<lparr>ms_options = default_options\<lparr>so_strategy := AStar, so_weight := weight\<rparr>,
     ms_entropy_options = default_entropy_options\<rparr>"

definition move_search_entropy :: move_search where
  "move_search_entropy = \<lparr>ms_options = default_options\<lparr>so_strategy := Entropy\<rparr>, ms_entropy_options = default_entropy_options\<rparr>"

definition move_search_ids :: move_search where
  "move_search_ids = \<lparr>ms_options = default_options\<lparr>so_strategy := Ids\<rparr>, ms_entropy_options = default_entropy_options\<rparr>"

definition move_search_cascade :: "inner_strategy \<Rightarrow> move_search" where
  "move_search_cascade inner = \<lparr>ms_options = default_options\<lparr>so_strategy := Cascade inner\<rparr>, ms_entropy_options = default_entropy_options\<rparr>"

section \<open>The generator as a part of the search\<close>

text \<open>The counter of deadlocks is the state; a panic, which never happens, would offer nothing.\<close>
definition heuristic_candidates ::
  "(u64 \<Rightarrow> nat \<Rightarrow> i32) \<Rightarrow> search_context \<Rightarrow> heuristic_generator \<Rightarrow> config \<Rightarrow> u32 \<Rightarrow> move_candidate list \<times> u32" where
  "heuristic_candidates rng ctx g c deadlocks =
     (case heuristic_generate rng ctx (g\<lparr>hg_deadlock_count := deadlocks\<rparr>) c of
        Returned (out, g') \<Rightarrow> (out, hg_deadlock_count g')
      | Panicked \<Rightarrow> ([], deadlocks))"

definition make_generator ::
  "(u64 \<Rightarrow> nat \<Rightarrow> i32) \<Rightarrow> search_context \<Rightarrow> solve_options \<Rightarrow> u64 \<Rightarrow> deadlock_policy \<Rightarrow> u32 move_generator" where
  "make_generator rng ctx opts seed policy =
     (let g = heuristic_generator_configured seed policy (so_lookahead opts) (so_top_c opts)
      in \<lparr>mg_generate = (\<lambda>c _ deadlocks. heuristic_candidates rng ctx g c deadlocks), mg_initial = hg_deadlock_count g,
          mg_deadlock_count = (\<lambda>deadlocks. deadlocks)\<rparr>)"

section \<open>The solver\<close>

text \<open>The distance table, with times when they have a weight; the table may panic, and the queue of
  the time distances need not end.\<close>
definition solver_table :: "f64 \<Rightarrow> u64 list \<Rightarrow> lane_index \<Rightarrow> distance_table outcome option" where
  "solver_table w_t target_locs idx =
     (if flt pos_zero w_t
      then and_then (distance_table_new target_locs idx) (\<lambda>T. map_option Returned (with_time_distances T idx))
      else distance_table_new target_locs idx)"

type_synonym 'tr entropy_driver =
  "search_context \<Rightarrow> config \<Rightarrow> u64 \<Rightarrow> u32 option \<Rightarrow> (search_result \<times> 'tr option) outcome option"

definition target_parts ::
  "(u64 \<Rightarrow> nat \<Rightarrow> i32) \<Rightarrow> 'tr entropy_driver \<Rightarrow> search_context \<Rightarrow> solve_options \<Rightarrow> config \<Rightarrow>
   (u32 \<times> location_addr) list \<Rightarrow> (u32, 'tr) solver_parts" where
  "target_parts rng driver ctx opts root target_pairs =
     \<lparr>sp_root = root, sp_goal = all_at_target (sc_targets ctx), sp_make_generator = make_generator rng ctx opts,
      sp_h_max = max_hop_heuristic (sc_dist_table ctx) target_pairs, sp_h_sum = sum_hop_heuristic (sc_dist_table ctx) target_pairs,
      sp_score = distance_score (table_distance (sc_dist_table ctx)) (sc_targets ctx), sp_entropy = driver ctx root\<rparr>"

definition target_context ::
  "lane_index \<Rightarrow> distance_table \<Rightarrow> location_addr list \<Rightarrow> (u32 \<times> location_addr) list \<Rightarrow> search_context" where
  "target_context idx T blocked target_pairs =
     \<lparr>sc_index = idx, sc_dist_table = T, sc_blocked = set (map location_encode blocked),
      sc_targets = encode_targets target_pairs, sc_cz_pairs = None\<rparr>"

text \<open>\<open>Inl\<close> is the \<open>ConfigError\<close> of a qubit given twice.\<close>
definition solve_with_engine ::
  "(u64 \<Rightarrow> nat \<Rightarrow> i32) \<Rightarrow> 'tr entropy_driver \<Rightarrow> lane_index \<Rightarrow> solve_options \<Rightarrow> entropy_options option \<Rightarrow>
   (u32 \<times> location_addr) list \<Rightarrow> (u32 \<times> location_addr) list \<Rightarrow> location_addr list \<Rightarrow> u32 option \<Rightarrow>
   (u32 + 'tr solve_result) outcome option" where
  "solve_with_engine rng driver idx opts entropy_opts initial target_pairs blocked budget =
     (case config_new initial of
        Inl q \<Rightarrow> Some (Returned (Inl q))
      | Inr root \<Rightarrow>
          (let w_t = (case entropy_opts of Some e \<Rightarrow> eo_w_t e | None \<Rightarrow> eo_w_t default_entropy_options);
               seed = (case entropy_opts of Some e \<Rightarrow> eo_seed e | None \<Rightarrow> eo_seed default_entropy_options)
           in and_then (solver_table w_t (map snd (encode_targets target_pairs)) idx) (\<lambda>T.
              and_then (run_with_components
                  (target_parts rng driver (target_context idx T blocked target_pairs) opts root target_pairs)
                  opts budget seed) (\<lambda>s. Some (Returned (Inr s))))))"

definition target_solve ::
  "(u64 \<Rightarrow> nat \<Rightarrow> i32) \<Rightarrow> 'tr entropy_driver \<Rightarrow> lane_index \<Rightarrow> move_search \<Rightarrow>
   (u32 \<times> location_addr) list \<Rightarrow> (u32 \<times> location_addr) list \<Rightarrow> location_addr list \<Rightarrow> u32 option \<Rightarrow>
   (u32 + 'tr solve_result) outcome option" where
  "target_solve rng driver idx search initial target blocked budget =
     solve_with_engine rng driver idx (ms_options search) (Some (ms_entropy_options search)) initial target blocked budget"

section \<open>The generator keeps the contract\<close>

text \<open>What a generator is made of: the random numbers, the context and the generator itself.\<close>
type_synonym heuristic_setup = "(u64 \<Rightarrow> nat \<Rightarrow> i32) \<times> search_context \<times> heuristic_generator"

definition setup_candidates :: "arch_spec \<Rightarrow> heuristic_setup \<Rightarrow> config \<Rightarrow> move_candidate list" where
  "setup_candidates a = (\<lambda>(rng, ctx, g) c. fst (heuristic_candidates rng ctx g c (hg_deadlock_count g)))"

definition setup_blocked :: "heuristic_setup \<Rightarrow> u64 set" where
  "setup_blocked = (\<lambda>(rng, ctx, g). sc_blocked ctx)"

definition setup_on :: "arch_spec \<Rightarrow> heuristic_setup \<Rightarrow> bool" where
  "setup_on a = (\<lambda>(rng, ctx, g). \<exists>order cbrt. rearranges order \<and> sc_index ctx = lane_index_new order cbrt a)"

interpretation heuristic_shots: shot_generator setup_candidates setup_blocked setup_on
proof unfold_locales
  fix a :: arch_spec and p :: heuristic_setup and c cand
  assume a: "arch_fits a" "orderly_buses a" "setup_on a p" "clear_config (setup_blocked p) c" "cand \<in> set (setup_candidates a p c)"
  obtain rng ctx g where p: "p = (rng, ctx, g)" by (cases p)
  obtain order cbrt where ctx: "rearranges order" "sc_index ctx = lane_index_new order cbrt a"
    using a(3) by (auto simp: setup_on_def p)
  have clear: "clear_config (sc_blocked ctx) c" using a(4) by (simp add: setup_blocked_def p)
  from heuristic_offers_shots[OF a(1,2) ctx(1) clear ctx(2), of rng g] a(5)
  show "sound_shot a (setup_blocked p) c (mc_move_set cand) (mc_new_config cand)"
    by (auto simp: setup_candidates_def setup_blocked_def p heuristic_candidates_def)
qed

text \<open>The counter of deadlocks does not change what is offered.\<close>
lemma generate_count:
  "heuristic_generate rng ctx (g\<lparr>hg_deadlock_count := n\<rparr>) c =
   (case heuristic_generate rng ctx g c of Panicked \<Rightarrow> Panicked
    | Returned (out, g') \<Rightarrow> Returned (out, g'\<lparr>hg_deadlock_count := hg_deadlock_count g' - hg_deadlock_count g + n\<rparr>))"
proof -
  have same: "chosen_triples (g\<lparr>hg_deadlock_count := n\<rparr>) = chosen_triples g"
  proof -
    have ms: "move_score (g\<lparr>hg_deadlock_count := n\<rparr>) = move_score g" by (intro ext) (simp add: move_score_def)
    have sl: "score_lane (g\<lparr>hg_deadlock_count := n\<rparr>) = score_lane g" by (intro ext) (unfold score_lane_def ms, rule refl)
    have sq: "score_qubit (g\<lparr>hg_deadlock_count := n\<rparr>) = score_qubit g" by (intro ext) (unfold score_qubit_def sl, rule refl)
    have kt: "kept_triples (g\<lparr>hg_deadlock_count := n\<rparr>) = kept_triples g" by (intro ext) (simp add: kept_triples_def)
    show ?thesis by (intro ext) (unfold chosen_triples_def sq kt, rule refl)
  qed
  show ?thesis
    by (simp add: heuristic_generate_def same Let_def bind_outcome_def split: outcome.split prod.split)
qed

lemma candidates_count: "fst (heuristic_candidates rng ctx g c m) = fst (heuristic_candidates rng ctx g c n)"
  unfolding heuristic_candidates_def generate_count by (simp split: outcome.split prod.split)

section \<open>The root\<close>

text \<open>A placement of atoms: at most one at a place, all at addresses that fit, none at an obstacle.\<close>
definition placed_apart :: "(u32 \<times> location_addr) list \<Rightarrow> location_addr list \<Rightarrow> bool" where
  "placed_apart initial blocked \<longleftrightarrow> distinct (map snd initial) \<and> (\<forall>l \<in> snd ` set initial \<union> set blocked. loc_fits l)
     \<and> snd ` set initial \<inter> set blocked = {}"

lemma root_facts:
  assumes "config_new initial = Inr root" "placed_apart initial blocked"
  shows "clear_config (set (map location_encode blocked)) root" "distinct (map fst initial)"
    "location_of root q = map_of initial q"
proof -
  have wf: "config_wf root" and d: "distinct (map fst initial)" and m: "\<And>q. config_map root q = map_option location_encode (map_of initial q)"
    using config_new_wf[OF assms(1)] by auto
  show "distinct (map fst initial)" by (rule d)
  have fits: "loc_fits l" if "(q, l) \<in> set initial" for q l using assms(2) that by (force simp: placed_apart_def)
  have ofits: "loc_fits l" if "l \<in> set blocked" for l using assms(2) that by (auto simp: placed_apart_def)
  have dec: "location_decode (location_encode l) = l" if "loc_fits l" for l using loc_codec.roundtrip[OF that] by simp
  have loc: "location_of root q = map_of initial q" for q
  proof (cases "map_of initial q")
    case None
    then show ?thesis using m[of q] location_of_map[OF wf, of q] by simp
  next
    case (Some l)
    then have "loc_fits l" using fits map_of_SomeD by fast
    then show ?thesis using m[of q] location_of_map[OF wf, of q] Some dec by simp
  qed
  show "location_of root q = map_of initial q" by (rule loc)
  have enc: "encoded_config root"
    unfolding encoded_config_def
  proof (clarify)
    fix q e assume "(q, e) \<in> set (entries root)"
    then have "config_map root q = Some e" using wf by (simp add: config_map_def config_wf_def)
    then obtain l where l: "map_of initial q = Some l" "e = location_encode l" using m by auto
    then have "loc_fits l" using fits map_of_SomeD by fast
    then show "location_encode (location_decode e) = e" using dec l(2) by simp
  qed
  have inj: "q = r" if ql: "map_of initial q = Some l" "map_of initial r = Some l" for q r l
  proof -
    have "inj_on snd (set initial)" using assms(2) by (simp add: placed_apart_def distinct_map)
    from inj_onD[OF this _ map_of_SomeD[OF ql(1)] map_of_SomeD[OF ql(2)]] show ?thesis by simp
  qed
  have free: "location_encode l \<notin> set (map location_encode blocked)" if "map_of initial q = Some l" for q l
  proof
    assume "location_encode l \<in> set (map location_encode blocked)"
    then obtain b where b: "b \<in> set blocked" "location_encode l = location_encode b" by auto
    then have "l = b" using location_encode_inj fits ofits map_of_SomeD[OF that] by blast
    then show False using assms(2) b(1) map_of_SomeD[OF that] by (force simp: placed_apart_def)
  qed
  show "clear_config (set (map location_encode blocked)) root"
    unfolding clear_config_iff[OF wf enc] loc using inj free by blast
qed

lemma from_locations_lookup:
  assumes "distinct (map fst locs)"
  shows "fmlookup (qubit_to_locations (from_locations locs)) q = map_of locs q"
proof -
  have "fmlookup (fst (foldl (\<lambda>(q2l, l2q) (qubit, loc). (fmupd qubit loc q2l, fmupd loc qubit l2q)) m locs)) q
      = (case map_of locs q of Some l \<Rightarrow> Some l | None \<Rightarrow> fmlookup (fst m) q)" for m
    using assms
  proof (induction locs arbitrary: m)
    case (Cons x locs)
    obtain q' l m1 m2 where x: "x = (q', l)" "m = (m1, m2)" by fastforce
    have out: "map_of locs q' = None" and d: "distinct (map fst locs)" using Cons.prems x(1) by (simp_all add: map_of_eq_None_iff)
    then show ?case using Cons.IH[OF d, of "(fmupd q' l m1, fmupd l q' m2)"]
      by (cases "q = q'") (simp_all add: x split: option.split)
  qed simp
  from this[of "(fmempty, fmempty)"] show ?thesis
    by (auto simp: from_locations_def split: prod.splits option.splits)
qed

lemma root_tracked:
  assumes "config_new initial = Inr root" "placed_apart initial blocked"
  shows "tracks (from_locations initial) root"
proof -
  have "distinct (map snd initial)" using assms(2) by (simp add: placed_apart_def)
  from from_locations_wf[OF root_facts(2)[OF assms] this] show ?thesis
    using root_facts(3)[OF assms] from_locations_lookup[OF root_facts(2)[OF assms]]
    by (simp add: tracks_def atoms_wf_def)
qed

section \<open>What the solver returns\<close>

lemma parts_offer:
  assumes "offers (poses (target_parts rng driver ctx opts root target_pairs) seed policy) c cand"
  shows "cand \<in> set (setup_candidates a (rng, ctx, heuristic_generator_configured seed policy (so_lookahead opts) (so_top_c opts)) c)"
proof -
  let ?g = "heuristic_generator_configured seed policy (so_lookahead opts) (so_top_c opts)"
  obtain st where "cand \<in> set (fst (heuristic_candidates rng ctx ?g c st))"
    using assms by (auto simp: offers_def poses_def problem_of_def target_parts_def make_generator_def Let_def)
  then show ?thesis
    using candidates_count[of rng ctx ?g c st "hg_deadlock_count ?g"] by (simp add: setup_candidates_def)
qed

lemma target_parts_sel [simp]:
  "sp_root (target_parts rng driver ctx opts root target_pairs) = root"
  "sp_goal (target_parts rng driver ctx opts root target_pairs) = all_at_target (sc_targets ctx)"
  by (simp_all add: target_parts_def)

lemma target_solve_cases:
  assumes "target_solve rng driver idx search initial target blocked budget = Some (Returned (Inr s))"
  shows "\<exists>root T seed. config_new initial = Inr root
    \<and> run_with_components (target_parts rng driver (target_context idx T blocked target) (ms_options search) root target)
        (ms_options search) budget seed = Some (Returned s)"
  using assms unfolding target_solve_def solve_with_engine_def
  by (auto simp: and_then_def Let_def split: sum.splits option.splits outcome.splits)

text \<open>C2. A solved result is a plan that works: on an architecture whose buses are orderly, from atoms at
  different places away from the obstacles, the returned layers decode, the core crate applies them
  one after the other without an error or a collision, after each of them no atom rests at an
  obstacle, and after the last every qubit with a target is at it.  The entropy search is excluded.\<close>
theorem target_solver_correct:
  assumes "arch_fits a" "orderly_buses a" "rearranges order" "placed_apart initial blocked"
    "\<not> uses_entropy (so_strategy (ms_options search))"
    "target_solve rng driver (lane_index_new order cbrt a) search initial target blocked budget = Some (Returned (Inr s))"
    "sv_status s = Solved" "\<forall>(q, l) \<in> set target. loc_fits l"
  shows "(\<exists>st. apply_layers a (sv_move_layers s) (from_locations initial) = Some st \<and> collision st = fmempty
    \<and> (\<forall>(q, l) \<in> set target. fmlookup (qubit_to_locations st) q = Some l)
    \<and> (\<forall>q l. fmlookup (qubit_to_locations st) q = Some l \<longrightarrow> l \<notin> set blocked))
    \<and> (\<forall>n. \<exists>st. apply_layers a (take n (sv_move_layers s)) (from_locations initial) = Some st \<and> collision st = fmempty
         \<and> (\<forall>q l. fmlookup (qubit_to_locations st) q = Some l \<longrightarrow> l \<notin> set blocked))"
proof -
  let ?idx = "lane_index_new order cbrt a"
  obtain root T seed where run: "config_new initial = Inr root"
      "run_with_components (target_parts rng driver (target_context ?idx T blocked target) (ms_options search) root target)
        (ms_options search) budget seed = Some (Returned s)"
    using target_solve_cases[OF assms(6)] by blast
  let ?ctx = "target_context ?idx T blocked target"
  let ?S = "target_parts rng driver ?ctx (ms_options search) root target"
  have goal: "all_at_target (sc_targets ?ctx) (sv_goal_config s)"
    and plan: "\<exists>seed policy. reaches (poses ?S seed policy) root (sv_move_layers s) (sv_goal_config s)"
    using run_with_components_ok[OF assms(5), of ?S budget seed] run(2) assms(7)
    by (auto simp: run_ok_def Let_def poses_def problem_facts(5))
  obtain seed' policy where plan: "reaches (poses ?S seed' policy) root (sv_move_layers s) (sv_goal_config s)" using plan by blast
  let ?p = "(rng, ?ctx, heuristic_generator_configured seed' policy (so_lookahead (ms_options search)) (so_top_c (ms_options search)))"
  have on: "setup_on a ?p" using assms(3) by (auto simp: setup_on_def target_context_def)
  have blocked: "setup_blocked ?p = set (map location_encode blocked)" by (simp add: setup_blocked_def target_context_def)
  have clear: "clear_config (setup_blocked ?p) root" unfolding blocked by (rule root_facts(1)[OF run(1) assms(4)])
  have fresh: "collision (from_locations initial) = fmempty" by (simp add: from_locations_def split: prod.split)
  have run_to: "\<exists>st. apply_layers a mss (from_locations initial) = Some st \<and> collision st = fmempty \<and> tracks st c
      \<and> (\<forall>q l. fmlookup (qubit_to_locations st) q = Some l \<longrightarrow> l \<notin> set blocked)"
    if reached: "reaches (poses ?S seed' policy) root mss c" for mss c
  proof -
    have "clear_config (setup_blocked ?p) c \<and> (\<exists>st'. apply_layers a mss (from_locations initial) = Some st'
        \<and> tracks st' c \<and> collision st' = collision (from_locations initial))"
      by (rule heuristic_shots.plan_executes[OF assms(1,2) on clear root_tracked[OF run(1) assms(4)] _ reached]) (rule parts_offer)
    then obtain st where st: "clear_config (setup_blocked ?p) c" "apply_layers a mss (from_locations initial) = Some st"
        "tracks st c" "collision st = collision (from_locations initial)" by blast
    have wf: "config_wf c" "encoded_config c" using st(1) by (auto simp: clear_config_def)
    have "l \<notin> set blocked" if "fmlookup (qubit_to_locations st) q = Some l" for q l
    proof -
      have "location_of c q = Some l" using that st(3) by (simp add: tracks_def)
      then have "location_encode l \<notin> set (map location_encode blocked)"
        using st(1) unfolding blocked clear_config_iff[OF wf] by blast
      then show ?thesis by auto
    qed
    then show ?thesis using st(2,3,4) fresh by auto
  qed
  obtain st where st: "apply_layers a (sv_move_layers s) (from_locations initial) = Some st" "collision st = fmempty"
      "tracks st (sv_goal_config s)" "\<forall>q l. fmlookup (qubit_to_locations st) q = Some l \<longrightarrow> l \<notin> set blocked"
    using run_to[OF plan] by blast
  have "fmlookup (qubit_to_locations st) q = Some l" if ql: "(q, l) \<in> set target" for q l
  proof -
    have "(q, location_encode l) \<in> set (sc_targets ?ctx)" using ql by (force simp: target_context_def encode_targets_def)
    then have "place (sv_goal_config s) q = Some (location_encode l)"
      using goal unfolding all_at_target_iff at_targets_def by blast
    then obtain l' where l': "location_of (sv_goal_config s) q = Some l'" "location_encode l' = location_encode l"
      by (auto simp: place_def)
    have "loc_fits l" using assms(8) ql by blast
    then have "l' = l" using location_encode_inj[OF location_of_fits[OF l'(1)]] l'(2) by blast
    then show ?thesis using st(3) l'(1) by (simp add: tracks_def)
  qed
  moreover have "\<exists>st. apply_layers a (take n (sv_move_layers s)) (from_locations initial) = Some st \<and> collision st = fmempty
         \<and> (\<forall>q l. fmlookup (qubit_to_locations st) q = Some l \<longrightarrow> l \<notin> set blocked)" for n
    using reaches_take[OF plan, of n] run_to by blast
  ultimately show ?thesis using st(1,2,4) by auto
qed

section \<open>On the example architecture\<close>

definition untimed_search :: move_search where
  "untimed_search = \<lparr>ms_options = default_options, ms_entropy_options = default_entropy_options\<lparr>eo_w_t := pos_zero\<rparr>\<rparr>"

text \<open>An atom that is where it should be.\<close>
lemma solved_at_once:
  "\<exists>s. target_solve rng driver example_index untimed_search [(0, example_target)] [(0, example_target)] [] None
     = Some (Returned (Inr s)) \<and> sv_status s = Solved"
proof -
  obtain T where T: "distance_table_new (map snd (encode_targets [(0, example_target)])) example_index = Some (Returned T)"
    using example_table by blast
  let ?ctx = "target_context example_index T [] [(0, example_target)]"
  let ?S = "target_parts rng driver ?ctx default_options (one_qubit_at example_target) [(0, example_target)]"
  have "flt pos_zero pos_zero = False" by code_simp
  then have table: "solver_table (eo_w_t (ms_entropy_options untimed_search)) (map snd (encode_targets [(0, example_target)])) example_index
      = Some (Returned T)"
    by (simp add: solver_table_def untimed_search_def T)
  have goal: "sp_goal ?S (sp_root ?S)"
    using example_at_target by (simp add: all_at_target_iff target_context_def)
  have "\<exists>s. search_with ?S g (priority_ops (sp_h_max ?S)) (astar_frontier w) None None = Some (Returned s) \<and> sv_status s = Solved" for g w
  proof -
    have path: "reconstruct_path (graph_new c) 0 = Some (Returned [])" for c
      by (subst reconstruct_path_def, subst iterate_Inr) (simp_all add: path_step_def graph_new_def node_at_def list_get_def)
    show ?thesis
      using goal
      by (simp add: search_with_def run_search_def problem_of_def extract_result_def solution_path_def path solve_solved_def
          graph_config_def graph_g_score_def)
  qed
  then obtain s where s: "search_with ?S (sp_make_generator ?S 0 MoveBlockers) (priority_ops (sp_h_max ?S)) (astar_frontier f64_one) None None
      = Some (Returned s)" "sv_status s = Solved" by blast
  then have "run_with_components ?S default_options None 0 = Some (Returned s)"
    by (simp add: run_with_components_def default_options_def with_restarts_def run_once_def run_strategy_v2_def)
  then show ?thesis
    using table s(2) by (simp add: target_solve_def solve_with_engine_def one_qubit_new untimed_search_def default_entropy_options_def)
qed

theorem target_solver_correct_witness:
  "\<exists>(s :: unit solve_result) st. apply_layers example_arch (sv_move_layers s) (from_locations [(0, example_target)]) = Some st
     \<and> fmlookup (qubit_to_locations st) 0 = Some example_target"
proof -
  obtain s where s: "target_solve (\<lambda>_ _. 0) (\<lambda>_ _ _ _. None :: (search_result \<times> unit option) outcome option) example_index
      untimed_search [(0, example_target)] [(0, example_target)] [] None = Some (Returned (Inr s))" "sv_status s = Solved"
    using solved_at_once by blast
  have "placed_apart [(0, example_target)] []" "\<forall>(q, l) \<in> set [(0 :: u32, example_target)]. loc_fits l"
    using example_locs_fit by (simp_all add: placed_apart_def)
  moreover have "\<not> uses_entropy (so_strategy (ms_options untimed_search))"
    by (simp add: untimed_search_def default_options_def uses_entropy_def)
  ultimately have "\<exists>st. apply_layers example_arch (sv_move_layers s) (from_locations [(0, example_target)]) = Some st
     \<and> fmlookup (qubit_to_locations st) 0 = Some example_target"
    using target_solver_correct[OF example_fits example_orderly rearranges_rev _ _ s] by auto
  then show ?thesis by (rule exI[of _ s])
qed

end
