(* ===== verification/Spec2Isabelle.thy ===== *)
theory Spec2Isabelle
  imports Arch_Validate Stack_Sim Text_Format Goals Lane_Path Target_Solver
begin

text \<open>
  A verification library for the bloqade-lanes workspace, the bytecode and move-search tool chain
  of a neutral-atom machine (\<open>crates/bloqade-lanes-bytecode-core\<close> and
  \<open>crates/bloqade-lanes-search\<close>).

  \<^bold>\<open>The program.\<close>  An architecture (\<open>arch/types.rs\<close>) lists words of sites, zones that place
  them on a grid, and the buses along which atoms move.  Addresses of locations, lanes and zones
  (\<open>arch/addr.rs\<close>) are packed words; \<open>arch/query.rs\<close> answers questions about them,
  \<open>arch/validate.rs\<close> checks an architecture, and \<open>atom_state.rs\<close> tracks which qubit is
  where while lanes are applied.  A bytecode program (\<open>bytecode/\<close>) is a list of instructions
  with a fixed-width encoding, a binary file format and an assembly text; \<open>bytecode/validate.rs\<close>
  checks it against itself and against an architecture.

  The search crate plans the moves that bring atoms to their targets.  A configuration
  (\<open>primitives/config.rs\<close>) places qubits; a lane index (\<open>primitives/lane_index.rs\<close>) caches the
  lanes of an architecture; a distance table (\<open>primitives/distance.rs\<close>) holds the lane hops to the
  targets and feeds the heuristics; the search graph (\<open>primitives/graph.rs\<close>) is the arena of
  configurations found, ordered by a frontier (\<open>drivers/frontier.rs\<close>), whose loop \<open>run_search\<close>
  asks a move generator for candidates and a goal (\<open>goals.rs\<close>) for acceptance; the strategies and
  their restarts (\<open>search/restarts.rs\<close>) run that loop and choose a result.  The heuristic generator
  (\<open>generators/heuristic.rs\<close>) scores the lanes of the qubits that are not at their targets, groups
  them by bus and packs each group into rectangles of lanes that move at once (\<open>ops/aod_grid.rs\<close>).
  The target solver (\<open>search/target_solver.rs\<close>) composes all of these.

  \<^bold>\<open>The two crates together.\<close>  What the composition is for is stated in \<open>Target_Solver\<close>: the
  plan of a solved result, applied layer by layer by \<open>apply_moves\<close> of the core crate to the initial
  atoms, succeeds without a collision, leaves no atom at an obstacle and puts every qubit at its
  target.  It rests on the theorems of the search, which hold for any generator, on the contract
  \<open>shot_generator\<close> that the heuristic generator keeps, and on \<open>sound_shot\<close>, which says when the
  lanes of a move set may be applied at once.

  \<^bold>\<open>Theories.\<close>
  \<^item> \<open>Prelude\<close>, \<open>Rust_Num\<close>, \<open>Rust_Str\<close>, \<open>Float64\<close>, \<open>Float_Text\<close>: the part of
    Rust and its standard library the sources use: machine integers, vectors, panics as values,
    error-collecting loops, number formatting and parsing, string splitting, IEEE doubles with their
    arithmetic, and the shortest decimal form of doubles with its reader.
  \<^item> \<open>Version\<close> (\<open>version.rs\<close>), \<open>Addr\<close> (\<open>arch/addr.rs\<close>), \<open>Arch_Types\<close>
    (\<open>arch/types.rs\<close>), \<open>Bus\<close>, \<open>Arch_Query\<close> and \<open>Arch_Groups\<close>
    (\<open>arch/query.rs\<close>), \<open>Arch_Validate\<close> (\<open>arch/validate.rs\<close>), \<open>Atom_State\<close>
    (\<open>atom_state.rs\<close>); \<open>Example_Arch\<close> is the architecture of the witnesses.
  \<^item> \<open>Opcode\<close> (\<open>bytecode/opcode.rs\<close>), \<open>Instruction\<close>
    (\<open>bytecode/instruction.rs\<close>, \<open>encode.rs\<close>), \<open>Value\<close> (\<open>value.rs\<close>),
    \<open>Program\<close> (\<open>program.rs\<close>), \<open>Text_Format\<close> (\<open>text.rs\<close>),
    \<open>Bc_Structure\<close> and \<open>Stack_Sim\<close> (\<open>bytecode/validate.rs\<close>).
  \<^item> \<open>Rust_Seq\<close>, \<open>Rust_Loop\<close>, \<open>Rust_Map\<close>, \<open>Rust_Vec\<close>, \<open>Float_Mul\<close>,
    \<open>Float_Div\<close>: sorting and binary search, loops that may not end, hash maps that are traversed,
    indexing that may panic, and product, quotient and square root of doubles.
  \<^item> \<open>Config\<close> (\<open>primitives/config.rs\<close>), \<open>Move_Set\<close> (\<open>move_set.rs\<close> of
    \<open>crates/bloqade-lanes-dsl-core\<close>), \<open>Search_Graph\<close> (\<open>primitives/graph.rs\<close>), \<open>Frontier\<close>
    and \<open>Run_Search\<close> (\<open>drivers/frontier.rs\<close>), \<open>Search_Correct\<close> (the invariants of the
    loop), \<open>Solve_Strategy\<close> (\<open>search/restarts.rs\<close>, \<open>options.rs\<close>, \<open>result.rs\<close>).
  \<^item> \<open>Lane_Index\<close> (\<open>primitives/lane_index.rs\<close>), \<open>Bfs_Levels\<close> (the level invariant shared
    by the breadth-first searches), \<open>Lane_Bfs\<close>, \<open>Distance\<close>, \<open>Time_Distance\<close> and
    \<open>Heuristics\<close> (\<open>primitives/distance.rs\<close>, \<open>heuristics.rs\<close>), \<open>Lane_Path\<close>
    (\<open>primitives/path.rs\<close>), \<open>Entangling_Set\<close> (\<open>ops/entangling.rs\<close>, in part), \<open>Goals\<close>
    (\<open>goals.rs\<close>).
  \<^item> \<open>Joint_Moves\<close>: the specification of moves at once, lanes of one bus from places of their own to
    free places, and its agreement with \<open>apply_moves\<close>; \<open>Aod_Grid\<close> (\<open>ops/aod_grid.rs\<close>) and
    \<open>Grid_Shots\<close> (the grids of an architecture meet that specification and pass \<open>check_lanes\<close>);
    \<open>Move_Order\<close> (\<open>primitives/ordering.rs\<close>); \<open>Gen_Heuristic\<close> (\<open>generators/heuristic.rs\<close>,
    \<open>primitives/context.rs\<close>) and \<open>Heuristic_Sound\<close> (what it offers); \<open>Shot_Plan\<close> (plans of a
    generator that keeps the contract execute); \<open>Target_Solver\<close> (\<open>search/target_solver.rs\<close>,
    \<open>move_search.rs\<close>).

  \<^bold>\<open>Conventions.\<close>  A machine integer is a word of its width, \<open>usize\<close> a natural number, a
  double an IEEE bit pattern with its operations computed exactly and rounded.  A panic is the value
  \<open>Panicked\<close> of an outcome and an error the left part of a sum.  A loop that need not end is a
  partial function into an option, and the theorems that say it ends are proved for it; the other
  loops are structural or have a measure.  No fuel is used.  Builds are release builds: a
  \<open>debug_assert\<close> is not part of the model.  A hash map is a map; where the code traverses one, the
  order of the traversal is a parameter (\<open>order\<close>) that may be any rearrangement.  The cube root
  (\<open>cbrt\<close>) is a parameter, since its rounding is not specified, and so are the random numbers that
  perturb scores, which another crate draws.  The interfaces between components
  are locales (the queue of a frontier, the two maps of a state, the search problem, the generator of
  shots, the comparator of keys), interpreted on the definitions of the model.

  \<^bold>\<open>Hypotheses.\<close>  \<open>arch_fits\<close> bounds the numbers of zones, words, sites and buses by the widths of the packed
  addresses.  \<open>orderly_buses\<close> says that a bus has no repeated source or destination and that its
  sources and destinations are disjoint, as the documentation of the architecture requires;
  \<open>validate\<close> does not check it.  \<open>rows_kept\<close>, for backward
  grids only, says that a bus does not move two atoms of a row or column apart.  Every theorem that assumes them has a witness on
  the example architecture.

  \<^bold>\<open>Not modelled.\<close>  The command line, the C and Python bindings and the JSON derives are glue.
  The Starlark policies run in a third-party interpreter.  The entropy driver is tuned scoring code;
  the theorems of the strategies exclude it.  The exhaustive, greedy and loose-target generators are
  left out; the theorems of the search hold for every generator, so they cover these too.  The pair
  assignment of \<open>ops/entangling.rs\<close> and the placement strategies that compose the solvers are left
  out.
\<close>

section \<open>Programs that move atoms\<close>

text \<open>C3. A program that the simulator accepts for an architecture moves atoms only where it can: when it
  reaches a move, the lane operands on the stack decode to distinct lanes that pass the group check
  of the architecture, and applying them to any atom state succeeds.\<close>
theorem accepted_moves_apply:
  assumes "simulate_stack p (Some a) = Returned []"
    and "instructions p = pre @ AtomArrangement (Move n) # post"
  shows "\<exists>s lanes. sim_loop 0 pre (sim_new (Some a)) = Returned s \<and> sim_errors s = []
     \<and> entry_lanes (take (unat n) (sim_stack s)) = Returned lanes
     \<and> length lanes = unat n \<and> distinct lanes \<and> check_lanes a lanes = []
     \<and> apply_moves atoms lanes a \<noteq> None"
proof -
  obtain s st where s: "sim_loop 0 pre (sim_new (Some a)) = Returned s" "sim_errors s = []"
    "typed (Some a) (AtomArrangement (Move n)) (sim_stack s) st"
    using simulate_split[OF assms] by blast
  then obtain es where es: "sim_stack s = es @ st" "length es = unat n" "good_lanes (Some a) es"
    by (auto simp: typed_iffs)
  then obtain lanes where lanes: "entry_lanes es = Returned lanes" "distinct lanes" "movable_lanes a lanes"
    by (auto simp: good_lanes_def split: outcome.splits)
  have "length lanes = length es"
    using lanes(1) by (auto simp: entry_lanes_def traverse_outcome_Returned_iff dest: list_all2_lengthD)
  moreover have "check_lanes a lanes = []"
    using lane_errors_Nil[OF entry_lanes_fits[OF lanes(1)], of "Some a"] lanes(2,3) by (simp add: lane_errors_def)
  moreover have "apply_moves atoms lanes a \<noteq> None"
    unfolding apply_moves_def lanes.apply_defined_iff lane_endpoints_defined_iff
    using lanes(3) by (simp add: movable_lanes_def check_lane_Nil_iff)
  ultimately show ?thesis using s es(1,2) lanes(1,2) by auto
qed

definition move_program :: program where
  "move_program = \<lparr>version_of = \<lparr>major = 1, minor = 0\<rparr>, instructions =
     [LaneConst (ConstLane (fst (lane_encode (example_lane 0))) (snd (lane_encode (example_lane 0)))),
      AtomArrangement (Move 1), Cpu Halt]\<rparr>"

theorem accepted_moves_apply_witness:
  "\<exists>lanes. length lanes = 1 \<and> check_lanes example_arch lanes = []
     \<and> apply_moves origin_state lanes example_arch \<noteq> None"
proof -
  let ?pre = "[LaneConst (ConstLane (fst (lane_encode (example_lane 0))) (snd (lane_encode (example_lane 0))))]"
  have "simulate_stack move_program (Some example_arch) = Returned []" by code_simp
  moreover have "instructions move_program = ?pre @ AtomArrangement (Move 1) # [Cpu Halt]"
    by (simp add: move_program_def)
  ultimately show ?thesis
    using accepted_moves_apply[of move_program example_arch ?pre 1 "[Cpu Halt]" origin_state] by auto
qed
end
